(* ===== verification/Prelude.thy ===== *)
theory Prelude
  imports Main "HOL-Library.Multiset" "HOL-Library.Word" "HOL-Library.Char_ord"
    "HOL-Library.List_Lexorder"
begin

text \<open>
  Shared vocabulary of the development: the byte strings and the ways a Go call can end,
  the collections of rewrite rules the component theories extend, and the generic facts on
  lists and multisets that several components use.
\<close>

named_theorems go_str \<open>equations of the string functions on the shapes the programs build\<close>
named_theorems go_int \<open>equations of the 64-bit integers and of their decimal text\<close>

subsection \<open>Types of the model\<close>

text \<open>
  A Go string is an immutable sequence of bytes; an Isabelle \<^typ>\<open>char\<close> is one byte, so a
  \<^typ>\<open>string\<close> is exactly that. Paths, uuids and addresses are strings as in the code.
\<close>

type_synonym path = string
type_synonym uuid = string
type_synonym addr = string

text \<open>A file system as far as the programs use it: the contents of the regular files.\<close>

type_synonym fs = "path \<rightharpoonup> string"

text \<open>
  A Go call returns, panics, or blocks forever. The panics that the code can raise are the
  run-time errors of the language and the explicit calls of \<^verbatim>\<open>panic\<close> and \<^verbatim>\<open>log.Panic\<close>.
\<close>

datatype panic =
    IndexOutOfRange
  | DivideByZero
  | MakeSliceOutOfRange
  | SendOnClosedChannel
  | NilTypeAssertion
  | PanicErr string

datatype 'a outcome = Done 'a | Panics panic | Blocks

fun bind_outcome :: "'a outcome \<Rightarrow> ('a \<Rightarrow> 'b outcome) \<Rightarrow> 'b outcome" where
  "bind_outcome (Done x) f = f x"
| "bind_outcome (Panics p) f = Panics p"
| "bind_outcome Blocks f = Blocks"

abbreviation NL :: char where "NL \<equiv> CHR 0x0A"
abbreviation CR :: char where "CR \<equiv> CHR 0x0D"
abbreviation TAB :: char where "TAB \<equiv> CHR 0x09"
abbreviation SP :: char where "SP \<equiv> CHR 0x20"

text \<open>The default of a configuration text: it replaces the empty string.\<close>

definition or_default :: "string \<Rightarrow> string \<Rightarrow> string" where
  "or_default d s = (if s = [] then d else s)"

lemma bind_outcome_Done_iff:
  "bind_outcome m f = Done y \<longleftrightarrow> (\<exists>x. m = Done x \<and> f x = Done y)"
  by (cases m) auto

subsection \<open>Indexed reads and writes\<close>

text \<open>Functions that return an error value: \<^term>\<open>Inl\<close> with its text, or the result.\<close>

type_synonym 'a result = "string + 'a"

fun bind_result :: "'a result \<Rightarrow> ('a \<Rightarrow> 'b result) \<Rightarrow> 'b result" where
  "bind_result (Inl e) f = Inl e"
| "bind_result (Inr x) f = f x"

lemma bind_result_Inr_iff: "bind_result r f = Inr y \<longleftrightarrow> (\<exists>x. r = Inr x \<and> f x = Inr y)"
  by (cases r) auto

text \<open>Go's \<^verbatim>\<open>xs[i]\<close>: a read outside the slice panics.\<close>

definition index :: "'a list \<Rightarrow> int \<Rightarrow> 'a outcome" where
  "index xs i = (if 0 \<le> i \<and> i < int (length xs) then Done (xs ! nat i)
                 else Panics IndexOutOfRange)"

lemma index_nat [simp]:
  "i < length xs \<Longrightarrow> index xs (int i) = Done (xs ! i)"
  "\<not> i < length xs \<Longrightarrow> index xs (int i) = Panics IndexOutOfRange"
  by (auto simp: index_def)

subsection \<open>Lists and multisets\<close>

lemma sum_list_replicate_empty [simp]: "sum_list (replicate n {#}) = {#}"
  by (induction n) auto

lemma sorted_remdups_adj_distinct:
  "sorted xs \<Longrightarrow> distinct (remdups_adj (xs :: 'a::linorder list))"
  by (induction xs rule: remdups_adj.induct) auto

lemma mset_concat_map_filter:
  "mset (filter P (concat xss)) = (\<Sum>xs\<leftarrow>xss. mset (filter P xs))"
  by (induction xss) auto

lemma take_drop_slice:
  assumes "a \<le> b" "b \<le> c"
  shows "take (b - a) (drop a xs) @ take (c - b) (drop b xs) = take (c - a) (drop a xs)"
proof -
  have "take (c - a) (drop a xs) = take ((b - a) + (c - b)) (drop a xs)"
    using assms by simp
  also have "\<dots> = take (b - a) (drop a xs) @ take (c - b) (drop (b - a) (drop a xs))"
    by (rule take_add)
  also have "drop (b - a) (drop a xs) = drop b xs"
    using assms by (simp add: add.commute)
  finally show ?thesis by simp
qed

lemma nth_list_update_cases:
  "i < length xs \<Longrightarrow> xs[i := v] ! j = (if j = i then v else xs ! j)"
  by (cases "i = j") auto

lemma sum_list_map_update:
  fixes f :: "'a \<Rightarrow> 'b::ab_group_add"
  assumes "i < length xs"
  shows "sum_list (map f (xs[i := v])) = sum_list (map f xs) - f (xs ! i) + f v"
  using assms
proof (induction xs arbitrary: i)
  case Nil
  then show ?case by simp
next
  case (Cons x xs)
  then show ?case by (cases i) (auto simp: algebra_simps)
qed

lemma sum_list_mset_update:
  fixes f :: "'a \<Rightarrow> 'b multiset"
  assumes "i < length xs" "f (xs ! i) = a + f v"
  shows "sum_list (map f xs) = a + sum_list (map f (xs[i := v]))"
  using assms
proof (induction xs arbitrary: i)
  case Nil
  then show ?case by simp
next
  case (Cons x xs)
  then show ?case by (cases i) (auto simp: ac_simps)
qed

lemma sum_list_nat_update:
  fixes f :: "'a \<Rightarrow> nat"
  assumes "i < length xs"
  shows "sum_list (map f (xs[i := v])) + f (xs ! i) = sum_list (map f xs) + f v"
  using assms
proof (induction xs arbitrary: i)
  case Nil
  then show ?case by simp
next
  case (Cons x xs)
  then show ?case by (cases i) (auto simp: ac_simps)
qed

lemma sum_list_nat_nth:
  fixes f :: "'a \<Rightarrow> nat"
  shows "i < length xs \<Longrightarrow> f (xs ! i) \<le> sum_list (map f xs)"
  by (rule member_le_sum_list) auto

lemma sum_list_nat_two:
  fixes f :: "'a \<Rightarrow> nat"
  shows "i < length xs \<Longrightarrow> j < length xs \<Longrightarrow> i \<noteq> j \<Longrightarrow> f (xs ! i) + f (xs ! j) \<le> sum_list (map f xs)"
proof (induction xs arbitrary: i j)
  case (Cons x xs)
  then show ?case
    using sum_list_nat_nth [of "i - 1" xs f] sum_list_nat_nth [of "j - 1" xs f]
    by (cases i; cases j) (auto simp: add_increasing)
qed simp

lemma count_list_pos: "0 < count_list xs x \<longleftrightarrow> x \<in> set xs"
  by (induction xs) auto

end
