(* ===== verification/Go_Strings.thy ===== *)
theory Go_Strings
  imports Prelude
begin

text \<open>
  The functions of Go's \<^verbatim>\<open>strings\<close> and \<^verbatim>\<open>bufio\<close> packages that the programs call, on byte
  strings. White space is Unicode white space, as \<^verbatim>\<open>unicode.IsSpace\<close> has it: the UTF-8
  encodings of its runes are listed byte for byte. Trimming and splitting into fields may
  read these encodings at byte positions, because none of them begins with a continuation
  byte, so an occurrence is always a whole rune of the string.
\<close>

subsection \<open>Prefixes\<close>

text \<open>\<^verbatim>\<open>strings.HasPrefix\<close>.\<close>

definition has_prefix :: "string \<Rightarrow> string \<Rightarrow> bool" where
  "has_prefix s p \<longleftrightarrow> take (length p) s = p"

lemma has_prefix_iff: "has_prefix s p \<longleftrightarrow> (\<exists>t. s = p @ t)"
  unfolding has_prefix_def
  by (metis append_eq_conv_conj append_take_drop_id)

text \<open>\<^verbatim>\<open>strings.Contains\<close>.\<close>

fun contains_sub :: "string \<Rightarrow> string \<Rightarrow> bool" where
  "contains_sub [] p = has_prefix [] p"
| "contains_sub (c # cs) p = (has_prefix (c # cs) p \<or> contains_sub cs p)"

lemma contains_sub_iff: "contains_sub s p \<longleftrightarrow> (\<exists>a b. s = a @ p @ b)"
proof (induction s)
  case Nil
  then show ?case by (auto simp: has_prefix_iff)
next
  case (Cons c cs)
  have "(\<exists>a b. c # cs = a @ p @ b) \<longleftrightarrow> (\<exists>b. c # cs = p @ b) \<or> (\<exists>a b. cs = a @ p @ b)"
    by (auto simp: Cons_eq_append_conv)
  with Cons.IH show ?case by (simp add: has_prefix_iff)
qed

subsection \<open>White space\<close>

text \<open>
  The runes of \<^verbatim>\<open>unicode.IsSpace\<close>: tab, newline, vertical tab, form feed, carriage return,
  space, U+0085, U+00A0, U+1680, U+2000 to U+200A, U+2028, U+2029, U+202F, U+205F, U+3000.
\<close>

definition space_runes :: "string list" where
  "space_runes =
     [[CHR 0x09], [CHR 0x0A], [CHR 0x0B], [CHR 0x0C], [CHR 0x0D], [CHR 0x20],
      [CHR 0xC2, CHR 0x85], [CHR 0xC2, CHR 0xA0], [CHR 0xE1, CHR 0x9A, CHR 0x80],
      [CHR 0xE2, CHR 0x80, CHR 0x80], [CHR 0xE2, CHR 0x80, CHR 0x81],
      [CHR 0xE2, CHR 0x80, CHR 0x82], [CHR 0xE2, CHR 0x80, CHR 0x83],
      [CHR 0xE2, CHR 0x80, CHR 0x84], [CHR 0xE2, CHR 0x80, CHR 0x85],
      [CHR 0xE2, CHR 0x80, CHR 0x86], [CHR 0xE2, CHR 0x80, CHR 0x87],
      [CHR 0xE2, CHR 0x80, CHR 0x88], [CHR 0xE2, CHR 0x80, CHR 0x89],
      [CHR 0xE2, CHR 0x80, CHR 0x8A], [CHR 0xE2, CHR 0x80, CHR 0xA8],
      [CHR 0xE2, CHR 0x80, CHR 0xA9], [CHR 0xE2, CHR 0x80, CHR 0xAF],
      [CHR 0xE2, CHR 0x81, CHR 0x9F], [CHR 0xE3, CHR 0x80, CHR 0x80]]"

definition ascii_space :: "char \<Rightarrow> bool" where
  "ascii_space c \<longleftrightarrow> c \<in> set [CHR 0x09, CHR 0x0A, CHR 0x0B, CHR 0x0C, CHR 0x0D, CHR 0x20]"

definition ascii :: "char \<Rightarrow> bool" where
  "ascii c \<longleftrightarrow> of_char c < (128 :: nat)"

text \<open>The number of bytes of the rune of \<open>ps\<close> at the head of \<open>s\<close>, 0 when there is none.\<close>

definition lead_width :: "string list \<Rightarrow> string \<Rightarrow> nat" where
  "lead_width ps s = (case filter (has_prefix s) ps of [] \<Rightarrow> 0 | p # _ \<Rightarrow> length p)"

lemma lead_width_le: "lead_width ps s \<le> length s"
proof (cases "filter (has_prefix s) ps")
  case Nil
  then show ?thesis by (simp add: lead_width_def)
next
  case (Cons p qs)
  then have "p \<in> set (filter (has_prefix s) ps)" by simp
  then have "has_prefix s p" by simp
  then show ?thesis using Cons by (auto simp: lead_width_def has_prefix_iff)
qed

lemma lead_width_Nil [simp]: "lead_width ps [] = 0"
  using lead_width_le [of ps "[]"] by simp

lemma lead_width_eq_0_iff:
  "[] \<notin> set ps \<Longrightarrow> lead_width ps s = 0 \<longleftrightarrow> (\<forall>p \<in> set ps. \<not> has_prefix s p)"
proof (cases "filter (has_prefix s) ps")
  case Nil
  then show ?thesis by (auto simp: lead_width_def filter_empty_conv)
next
  case (Cons p qs)
  assume "[] \<notin> set ps"
  moreover from Cons have p: "p \<in> set ps" "has_prefix s p"
    using filter_eq_ConsD [OF Cons] by auto
  ultimately have "p \<noteq> []" by auto
  then show ?thesis using Cons p by (auto simp: lead_width_def)
qed

function trim_lead :: "string list \<Rightarrow> string \<Rightarrow> string" where
  "trim_lead ps s =
     (if lead_width ps s = 0 then s else trim_lead ps (drop (lead_width ps s) s))"
  by pat_completeness auto
termination
proof (relation "measure (\<lambda>(ps, s). length s)")
  fix ps s
  assume "lead_width ps s \<noteq> 0"
  then show "((ps, drop (lead_width ps s) s), ps, s) \<in> measure (\<lambda>(ps, s). length s)"
    using lead_width_le [of ps s] by (simp add: in_measure)
qed simp

declare trim_lead.simps [simp del]

lemma trim_lead_id: "lead_width ps s = 0 \<Longrightarrow> trim_lead ps s = s"
  by (simp add: trim_lead.simps)

lemma trim_lead_Nil [simp]: "trim_lead ps [] = []"
  by (simp add: trim_lead_id)

lemma trim_lead_step:
  "lead_width ps s = n \<Longrightarrow> 0 < n \<Longrightarrow> trim_lead ps s = trim_lead ps (drop n s)"
  by (simp add: trim_lead.simps [of ps s])

lemma trim_lead_suffix: "\<exists>w. s = w @ trim_lead ps s"
proof (induction ps s rule: trim_lead.induct)
  case (1 ps s)
  show ?case
  proof (cases "lead_width ps s = 0")
    case True
    then show ?thesis by (simp add: trim_lead_id)
  next
    case False
    from "1.IH" [OF False] obtain w where
      "drop (lead_width ps s) s = w @ trim_lead ps (drop (lead_width ps s) s)" ..
    then have "s = (take (lead_width ps s) s @ w) @ trim_lead ps s"
      using False by (metis append_assoc append_take_drop_id trim_lead.simps)
    then show ?thesis ..
  qed
qed

lemma trim_lead_width: "lead_width ps (trim_lead ps s) = 0"
proof (induction ps s rule: trim_lead.induct)
  case (1 ps s)
  then show ?case
    by (cases "lead_width ps s = 0") (simp_all add: trim_lead.simps [of ps s])
qed

text \<open>\<^verbatim>\<open>strings.TrimSpace\<close>: the left end first, then the right end, read backwards.\<close>

definition trim_left :: "string \<Rightarrow> string" where
  "trim_left s = trim_lead space_runes s"

definition trim_right :: "string \<Rightarrow> string" where
  "trim_right s = rev (trim_lead (map rev space_runes) (rev s))"

definition trim_space :: "string \<Rightarrow> string" where
  "trim_space s = trim_right (trim_left s)"

text \<open>
  \<open>starts_clean s\<close>: no white space at the left end (and \<open>s\<close> not empty); \<open>ends_clean\<close> at the
  right end.
\<close>

definition starts_clean :: "string \<Rightarrow> bool" where
  "starts_clean s \<longleftrightarrow> s \<noteq> [] \<and> lead_width space_runes s = 0"

definition ends_clean :: "string \<Rightarrow> bool" where
  "ends_clean s \<longleftrightarrow> s \<noteq> [] \<and> lead_width (map rev space_runes) (rev s) = 0"

lemma Nil_notin_space_runes [simp]:
  "[] \<notin> set space_runes" "[] \<notin> rev ` set space_runes"
  by (auto simp: space_runes_def)

lemma trim_space_Nil [simp]: "trim_space [] = []"
  by (simp add: trim_space_def trim_left_def trim_right_def)



subsection \<open>White space at the ends of composed strings\<close>

text \<open>
  A white space rune is one ASCII byte or a sequence of non-ASCII bytes, so it never spans an
  ASCII byte of the string. \<open>rune_set\<close> is that property; it is shared by the two directions
  of trimming.
\<close>

definition rune_set :: "string list \<Rightarrow> bool" where
  "rune_set ps \<longleftrightarrow> (\<forall>p \<in> set ps. p \<noteq> [] \<and> (length p = 1 \<or> (\<forall>c \<in> set p. \<not> ascii c)))"

lemma rune_set_space_runes [simp]:
  "rune_set space_runes" "rune_set (map rev space_runes)"
  by (auto simp: rune_set_def space_runes_def ascii_def)

lemma rune_setD: "rune_set ps \<Longrightarrow> [] \<notin> set ps"
  by (auto simp: rune_set_def)

lemma has_prefix_append_ascii:
  assumes "rune_set ps" "p \<in> set ps" "s \<noteq> []" "ascii c"
  shows "has_prefix (s @ c # t) p \<longleftrightarrow> has_prefix s p"
proof
  assume "has_prefix s p"
  then show "has_prefix (s @ c # t) p" by (auto simp: has_prefix_iff)
next
  assume pre: "has_prefix (s @ c # t) p"
  then obtain u where u: "s @ c # t = p @ u" by (auto simp: has_prefix_iff)
  show "has_prefix s p"
  proof (cases "length p \<le> length s")
    case True
    then show ?thesis using pre by (simp add: has_prefix_def)
  next
    case False
    then have "p ! length s = c"
      using u by (metis linorder_not_le nth_append nth_append_length)
    moreover have "p ! length s \<in> set p" using False by simp
    ultimately have "c \<in> set p" by simp
    moreover have "length p \<noteq> 1" using False assms(3) by (cases s) auto
    ultimately show ?thesis using assms by (auto simp: rune_set_def)
  qed
qed

lemma lead_width_append_ascii:
  "rune_set ps \<Longrightarrow> s \<noteq> [] \<Longrightarrow> ascii c \<Longrightarrow> lead_width ps (s @ c # t) = lead_width ps s"
  unfolding lead_width_def
  by (simp cong: filter_cong add: has_prefix_append_ascii)

lemma starts_clean_append: "starts_clean s \<Longrightarrow> ascii c \<Longrightarrow> starts_clean (s @ c # t)"
  by (simp add: starts_clean_def lead_width_append_ascii)

lemma ends_clean_append: "ends_clean t \<Longrightarrow> ascii c \<Longrightarrow> ends_clean (s @ c # t)"
  using lead_width_append_ascii [of "map rev space_runes" "rev t" c "rev s"]
  by (simp add: ends_clean_def)

lemma trim_left_clean [simp]: "starts_clean s \<Longrightarrow> trim_left s = s"
  by (simp add: starts_clean_def trim_left_def trim_lead_id)

lemma trim_right_clean [simp]: "ends_clean s \<Longrightarrow> trim_right s = s"
  by (simp add: ends_clean_def trim_right_def trim_lead_id)

lemma trim_space_clean [go_str]:
  "starts_clean s \<Longrightarrow> ends_clean s \<Longrightarrow> trim_space s = s"
  by (simp add: trim_space_def)

text \<open>The only rune that begins with an ASCII byte \<open>c\<close> is \<open>[c]\<close>, for \<open>c\<close> white space.\<close>

lemma space_runes_heads:
  "\<forall>p \<in> set space_runes. ascii (hd p) \<longrightarrow> tl p = [] \<and> ascii_space (hd p)"
  "\<forall>p \<in> set (map rev space_runes). ascii (hd p) \<longrightarrow> tl p = [] \<and> ascii_space (hd p)"
  by (simp_all add: space_runes_def ascii_def ascii_space_def)

lemma space_rune_ascii_head:
  "d # q \<in> set space_runes \<Longrightarrow> ascii d \<Longrightarrow> q = [] \<and> ascii_space d"
  "d # q \<in> set (map rev space_runes) \<Longrightarrow> ascii d \<Longrightarrow> q = [] \<and> ascii_space d"
  using bspec [OF space_runes_heads(1), of "d # q"] bspec [OF space_runes_heads(2), of "d # q"]
  by simp_all

lemma ascii_space_rune:
  "ascii_space c \<Longrightarrow> [c] \<in> set space_runes" "ascii_space c \<Longrightarrow> [c] \<in> set (map rev space_runes)"
  by (auto simp: ascii_space_def space_runes_def)

lemma lead_width_single:
  assumes "[c] \<in> set ps" "\<forall>q. c # q \<in> set ps \<longrightarrow> q = []" "[] \<notin> set ps"
  shows "lead_width ps (c # s) = 1"
proof -
  have "[c] \<in> set (filter (has_prefix (c # s)) ps)"
    using assms(1) by (simp add: has_prefix_def)
  then obtain p qs where f: "filter (has_prefix (c # s)) ps = p # qs"
    by (cases "filter (has_prefix (c # s)) ps") auto
  then have "p \<in> set ps" "has_prefix (c # s) p"
    using filter_eq_ConsD [OF f] by auto
  then obtain q where "p = c # q" "c # q \<in> set ps"
    using assms(3) by (metis append_eq_Cons_conv has_prefix_iff)
  with assms(2) f show ?thesis by (simp add: lead_width_def)
qed

lemma ascii_space_width:
  assumes "ascii_space c"
  shows "lead_width space_runes (c # s) = 1" "lead_width (map rev space_runes) (c # s) = 1"
proof -
  have c: "ascii c" using assms by (auto simp: ascii_space_def ascii_def)
  show "lead_width space_runes (c # s) = 1"
    using ascii_space_rune(1) [OF assms] space_rune_ascii_head(1) [OF _ c]
    by (intro lead_width_single) auto
  show "lead_width (map rev space_runes) (c # s) = 1"
    using ascii_space_rune(2) [OF assms] space_rune_ascii_head(2) [OF _ c]
    by (intro lead_width_single) (blast, blast, simp)
qed

lemma ascii_space_imp_ascii: "ascii_space c \<Longrightarrow> ascii c"
  by (auto simp: ascii_space_def ascii_def)

lemma ascii_space_val: "ascii_space c \<Longrightarrow> of_char c \<le> (32 :: nat)"
  by (auto simp: ascii_space_def)

lemma ascii_consts [simp]: "ascii NL" "ascii TAB" "ascii SP" "ascii CR"
  "ascii_space NL" "ascii_space TAB" "ascii_space SP" "ascii_space CR"
  by (simp_all add: ascii_def ascii_space_def)

lemma trim_right_snoc_space [go_str]:
  "ascii_space c \<Longrightarrow> trim_right (s @ [c]) = trim_right s"
  using trim_lead_step [OF ascii_space_width(2), of c "rev s"]
  by (simp add: trim_right_def)

lemma trim_space_snoc_clean [go_str]:
  assumes "starts_clean s" "ends_clean s" "ascii_space c"
  shows "trim_space (s @ [c]) = s"
proof -
  have "starts_clean (s @ [c])"
    using starts_clean_append [of s c "[]"] assms by (simp add: ascii_space_imp_ascii)
  with assms show ?thesis by (simp add: trim_space_def trim_right_snoc_space)
qed

text \<open>An ASCII byte that is not white space is a clean end.\<close>

definition plain :: "char \<Rightarrow> bool" where
  "plain c \<longleftrightarrow> ascii c \<and> \<not> ascii_space c"

lemma lead_width_none:
  assumes "rune_set ps" "\<forall>q. c # q \<notin> set ps"
  shows "lead_width ps (c # s) = 0"
proof -
  have "\<not> has_prefix (c # s) p" if "p \<in> set ps" for p
    using assms that by (cases p) (auto simp: has_prefix_def rune_set_def)
  then show ?thesis using assms(1) by (simp add: lead_width_eq_0_iff rune_setD)
qed

lemma lead_width_plain:
  assumes "plain c"
  shows "lead_width space_runes (c # s) = 0" "lead_width (map rev space_runes) (c # s) = 0"
proof -
  have c: "ascii c" "\<not> ascii_space c" using assms by (auto simp: plain_def)
  show "lead_width space_runes (c # s) = 0"
    using c space_rune_ascii_head(1) by (intro lead_width_none) auto
  show "lead_width (map rev space_runes) (c # s) = 0"
    using c space_rune_ascii_head(2) by (intro lead_width_none) (simp, blast)
qed

lemma starts_clean_plain: "plain c \<Longrightarrow> starts_clean (c # s)"
  by (simp add: starts_clean_def lead_width_plain)

lemma ends_clean_plain: "plain c \<Longrightarrow> ends_clean (s @ [c])"
  by (simp add: ends_clean_def lead_width_plain)

lemma trim_space_plain [go_str]:
  assumes "s \<noteq> []" "\<forall>c \<in> set s. plain c"
  shows "trim_space s = s"
proof -
  obtain c cs where c: "s = c # cs" using assms(1) by (cases s) auto
  obtain ds d where d: "s = ds @ [d]" using assms(1) by (metis rev_exhaust)
  have "starts_clean s" using assms(2) c by (auto intro: starts_clean_plain)
  moreover have "ends_clean s" using assms(2) d by (auto intro: ends_clean_plain)
  ultimately show ?thesis by (rule trim_space_clean)
qed

subsection \<open>Split and join\<close>

text \<open>\<^verbatim>\<open>strings.Split\<close> with a one-byte separator: never an empty list.\<close>

fun split_on :: "char \<Rightarrow> string \<Rightarrow> string list" where
  "split_on c [] = [[]]"
| "split_on c (x # xs) =
     (if x = c then [] # split_on c xs
      else (x # hd (split_on c xs)) # tl (split_on c xs))"

lemma split_on_not_Nil [simp]: "split_on c s \<noteq> []"
  by (cases s) auto

lemma split_on_no_sep [go_str]: "c \<notin> set s \<Longrightarrow> split_on c s = [s]"
  by (induction s) auto

lemma split_on_sep [go_str]: "c \<notin> set x \<Longrightarrow> split_on c (x @ c # s) = x # split_on c s"
  by (induction x) auto

lemma split_on_no_sep_pieces: "p \<in> set (split_on c s) \<Longrightarrow> c \<notin> set p"
proof (induction s arbitrary: p)
  case Nil
  then show ?case by simp
next
  case (Cons x xs)
  have "hd (split_on c xs) \<in> set (split_on c xs)" by simp
  with Cons show ?case
    by (auto split: if_splits dest: list.set_sel(2) [rotated])
qed

text \<open>\<^verbatim>\<open>strings.SplitN\<close> with a one-byte separator and at most two pieces.\<close>

definition split_n2 :: "char \<Rightarrow> string \<Rightarrow> string list" where
  "split_n2 c s =
     (if c \<in> set s then [takeWhile (\<lambda>x. x \<noteq> c) s, tl (dropWhile (\<lambda>x. x \<noteq> c) s)] else [s])"

lemma split_n2_sep [go_str]: "c \<notin> set x \<Longrightarrow> split_n2 c (x @ c # s) = [x, s]"
  by (auto simp: split_n2_def takeWhile_append dropWhile_append)

lemma split_n2_no_sep [go_str]: "c \<notin> set s \<Longrightarrow> split_n2 c s = [s]"
  by (simp add: split_n2_def)

text \<open>\<^verbatim>\<open>strings.Join\<close>.\<close>

fun join :: "string \<Rightarrow> string list \<Rightarrow> string" where
  "join sep [] = []"
| "join sep [x] = x"
| "join sep (x # y # ys) = x @ sep @ join sep (y # ys)"

lemma split_on_join [go_str]:
  assumes "xs \<noteq> []" "\<forall>x \<in> set xs. c \<notin> set x"
  shows "split_on c (join [c] xs) = xs"
  using assms
proof (induction "[c]" xs rule: join.induct)
  case (3 x y ys)
  then show ?case by (simp add: split_on_sep)
qed (auto simp: split_on_no_sep)

lemma join_split_on: "join [c] (split_on c s) = s"
proof (induction s)
  case Nil
  then show ?case by simp
next
  case (Cons x xs)
  obtain p ps where p: "split_on c xs = p # ps" by (cases "split_on c xs") auto
  show ?case
  proof (cases "x = c")
    case True
    then show ?thesis using Cons p by (cases ps) auto
  next
    case False
    then show ?thesis using Cons p by (cases ps) auto
  qed
qed

lemma join_snoc_sep: "xs \<noteq> [] \<Longrightarrow> concat (map (\<lambda>x. x @ sep) xs) = join sep xs @ sep"
  by (induction sep xs rule: join.induct) auto

subsection \<open>Fields\<close>

text \<open>\<^verbatim>\<open>strings.Fields\<close>: the maximal runs of bytes between white space.\<close>

fun word_of :: "string \<Rightarrow> string" where
  "word_of [] = []"
| "word_of (c # cs) = (if 0 < lead_width space_runes (c # cs) then [] else c # word_of cs)"

lemma word_of_not_Nil: "t \<noteq> [] \<Longrightarrow> lead_width space_runes t = 0 \<Longrightarrow> word_of t \<noteq> []"
  by (cases t) auto

function fields :: "string \<Rightarrow> string list" where
  "fields s =
     (let t = trim_left s
      in if t = [] then [] else word_of t # fields (drop (length (word_of t)) t))"
  by pat_completeness auto
termination
proof (relation "measure length")
  fix s t
  assume t: "t = trim_left s" "t \<noteq> []"
  then have "lead_width space_runes t = 0"
    using trim_lead_width [of space_runes s] by (simp add: trim_left_def)
  with t have w: "0 < length (word_of t)" by (simp add: word_of_not_Nil)
  obtain u where "s = u @ trim_lead space_runes s"
    using trim_lead_suffix [of s space_runes] by blast
  then have "length t \<le> length s"
    using t(1) by (metis le_add2 length_append trim_left_def)
  moreover have "0 < length t" using t(2) by simp
  ultimately have "length t - length (word_of t) < length s" using w by linarith
  then show "(drop (length (word_of t)) t, s) \<in> measure length" by simp
qed simp

declare fields.simps [simp del]

lemma fields_Nil [simp]: "fields [] = []"
  by (simp add: fields.simps [of "[]"] trim_left_def)

text \<open>A word is a non-empty string with no white space at any position.\<close>

definition is_word :: "string \<Rightarrow> bool" where
  "is_word s \<longleftrightarrow> s \<noteq> [] \<and> word_of s = s"

lemma is_word_starts_clean: "is_word s \<Longrightarrow> starts_clean s"
  by (cases s) (auto simp: is_word_def starts_clean_def split: if_splits)

lemma word_of_append_space:
  assumes "ascii_space c"
  shows "word_of (s @ c # t) = word_of s"
proof (induction s)
  case Nil
  then show ?case using assms by (simp add: ascii_space_width)
next
  case (Cons x xs)
  have "lead_width space_runes ((x # xs) @ c # t) = lead_width space_runes (x # xs)"
    using assms by (intro lead_width_append_ascii) (auto simp: ascii_space_imp_ascii)
  with Cons show ?case by simp
qed

lemma fields_word [go_str]: "is_word s \<Longrightarrow> fields s = [s]"
  by (simp add: fields.simps [of s] is_word_starts_clean) (simp add: is_word_def)

lemma trim_left_space [go_str]: "ascii_space c \<Longrightarrow> trim_left (c # s) = trim_left s"
  by (simp add: trim_left_def trim_lead_step [OF ascii_space_width(1)])

lemma fields_word_space [go_str]:
  assumes "is_word s" "ascii_space c"
  shows "fields (s @ c # t) = s # fields t"
proof -
  have "starts_clean (s @ c # t)"
    using assms by (simp add: starts_clean_append is_word_starts_clean ascii_space_imp_ascii)
  moreover have "word_of (s @ c # t) = s"
    using assms by (simp add: word_of_append_space is_word_def)
  moreover have "fields (c # t) = fields t"
    using assms(2) by (simp add: fields.simps [of "c # t"] fields.simps [of t] trim_left_space)
  ultimately show ?thesis by (simp add: fields.simps [of "s @ c # t"])
qed

lemma is_word_plain: "s \<noteq> [] \<Longrightarrow> \<forall>c \<in> set s. plain c \<Longrightarrow> is_word s"
proof -
  have "\<forall>c \<in> set s. plain c \<Longrightarrow> word_of s = s"
    by (induction s) (auto simp: lead_width_plain)
  then show "s \<noteq> [] \<Longrightarrow> \<forall>c \<in> set s. plain c \<Longrightarrow> is_word s"
    by (simp add: is_word_def)
qed

subsection \<open>Lines\<close>

text \<open>
  The lines of a text as \<^verbatim>\<open>bufio.ScanLines\<close> cuts it: every line without its newline, and a
  last line without a newline if it is not empty.
\<close>

definition raw_lines :: "string \<Rightarrow> string list" where
  "raw_lines s =
     (let ps = split_on NL s in if last ps = [] then butlast ps else ps)"

definition drop_cr :: "string \<Rightarrow> string" where
  "drop_cr l = (if l \<noteq> [] \<and> last l = CR then butlast l else l)"

text \<open>
  \<^verbatim>\<open>bufio.Scanner\<close> with its default buffer: a line of 64 KiB or more ends the scan with
  \<^verbatim>\<open>bufio.ErrTooLong\<close> (the flag), after the lines before it.
\<close>

definition max_scan_token_size :: nat where
  "max_scan_token_size = 65536"

fun scan_tokens :: "string list \<Rightarrow> string list \<times> bool" where
  "scan_tokens [] = ([], False)"
| "scan_tokens (l # ls) =
     (if max_scan_token_size \<le> length l then ([], True)
      else (drop_cr l # fst (scan_tokens ls), snd (scan_tokens ls)))"

definition scan_lines :: "string \<Rightarrow> string list \<times> bool" where
  "scan_lines s = scan_tokens (raw_lines s)"

lemma raw_lines_concat:
  assumes "\<forall>l \<in> set ls. NL \<notin> set l"
  shows "raw_lines (concat (map (\<lambda>l. l @ [NL]) ls)) = ls"
proof (cases "ls = []")
  case True
  then show ?thesis by (simp add: raw_lines_def)
next
  case False
  have "split_on NL (concat (map (\<lambda>l. l @ [NL]) ls)) = ls @ [[]]"
    using assms by (induction ls) (auto simp: split_on_sep)
  then show ?thesis by (simp add: raw_lines_def)
qed

lemma scan_tokens_short:
  "\<forall>l \<in> set ls. length l < max_scan_token_size \<Longrightarrow> scan_tokens ls = (map drop_cr ls, False)"
  by (induction ls) auto

subsection \<open>Case and replacement\<close>

text \<open>
  \<^verbatim>\<open>strings.ToLower\<close>. The programs only compare the result with ASCII words. The two
  non-ASCII runes that have an ASCII lower case (U+0130 and U+212A) are mapped; every other
  non-ASCII byte is kept, which makes such a comparison fail as it does in Go, where the
  lower case is again a non-ASCII rune.
\<close>

definition ascii_lower :: "char \<Rightarrow> char" where
  "ascii_lower c =
     (if 65 \<le> (of_char c :: nat) \<and> of_char c \<le> (90 :: nat) then char_of (of_char c + 32 :: nat)
      else c)"

fun to_lower :: "string \<Rightarrow> string" where
  "to_lower [] = []"
| "to_lower (c # cs) =
     (if has_prefix (c # cs) [CHR 0xC4, CHR 0xB0] then CHR ''i'' # to_lower (drop 1 cs)
      else if has_prefix (c # cs) [CHR 0xE2, CHR 0x84, CHR 0xAA] then CHR ''k'' # to_lower (drop 2 cs)
      else ascii_lower c # to_lower cs)"

text \<open>\<^verbatim>\<open>strings.ReplaceAll\<close> of a one-byte string by the empty string.\<close>

definition remove_byte :: "char \<Rightarrow> string \<Rightarrow> string" where
  "remove_byte c s = filter (\<lambda>x. x \<noteq> c) s"

text \<open>\<^verbatim>\<open>strings.TrimSuffix\<close> of a one-byte suffix, \<^verbatim>\<open>strings.TrimRight\<close> of a one-byte cutset.\<close>

definition trim_suffix1 :: "char \<Rightarrow> string \<Rightarrow> string" where
  "trim_suffix1 c s = (if s \<noteq> [] \<and> last s = c then butlast s else s)"

definition trim_right_byte :: "char \<Rightarrow> string \<Rightarrow> string" where
  "trim_right_byte c s = rev (dropWhile (\<lambda>x. x = c) (rev s))"

lemma trim_suffix1_snoc [go_str]: "trim_suffix1 c (s @ [c]) = s"
  by (simp add: trim_suffix1_def)

end
