(* ===== verification/Go_Ints.thy ===== *)
theory Go_Ints
  imports Go_Strings
begin

text \<open>
  The integers of the programs. Go's \<^verbatim>\<open>int\<close> and \<^verbatim>\<open>int64\<close> are 64-bit two's complement; they are
  modelled as \<^typ>\<open>int\<close> with the wrap-around of the sums and products written out by
  \<open>wrap64\<close>. \<^verbatim>\<open>strconv.Itoa\<close> and \<^verbatim>\<open>strconv.Atoi\<close> follow the library: \<^verbatim>\<open>Atoi\<close> is \<^verbatim>\<open>ParseInt\<close>
  with base 10, whose digit loop stops with a range error as soon as the value leaves the
  unsigned 64-bit range, before it has looked at the rest of the text.
\<close>

subsection \<open>64-bit wrap-around\<close>

definition wrap64 :: "int \<Rightarrow> int" where
  "wrap64 x = (x + 2 ^ 63) mod 2 ^ 64 - 2 ^ 63"

definition int64 :: "int \<Rightarrow> bool" where
  "int64 x \<longleftrightarrow> - (2 ^ 63) \<le> x \<and> x < 2 ^ 63"

lemma wrap64_range [go_int]: "int64 (wrap64 x)"
  unfolding int64_def wrap64_def
  using pos_mod_bound [of "2 ^ 64" "x + 2 ^ 63"] pos_mod_sign [of "2 ^ 64" "x + 2 ^ 63"]
  by simp

lemma wrap64_id [go_int]: "int64 x \<Longrightarrow> wrap64 x = x"
  by (simp add: int64_def wrap64_def mod_pos_pos_trivial)

lemma wrap64_eq_iff: "wrap64 x = wrap64 y \<longleftrightarrow> x mod 2 ^ 64 = y mod 2 ^ 64"
proof -
  have "(x + 2 ^ 63) mod 2 ^ 64 = (y + 2 ^ 63) mod 2 ^ 64 \<longleftrightarrow> x mod 2 ^ 64 = y mod (2 ^ 64 :: int)"
    by (simp add: mod_eq_dvd_iff)
  then show ?thesis by (simp add: wrap64_def)
qed

lemma wrap64_mod: "wrap64 x mod 2 ^ 64 = x mod 2 ^ 64"
proof -
  have "wrap64 (wrap64 x) = wrap64 x" by (simp add: wrap64_id wrap64_range)
  then show ?thesis by (simp only: wrap64_eq_iff)
qed

lemma wrap64_add_left [go_int]: "wrap64 (wrap64 x + y) = wrap64 (x + y)"
  by (simp only: wrap64_eq_iff mod_add_left_eq [of "wrap64 x", symmetric] wrap64_mod)
     (simp add: mod_add_left_eq)

lemma wrap64_add_right [go_int]: "wrap64 (x + wrap64 y) = wrap64 (x + y)"
  using wrap64_add_left [of y x] by (simp add: add.commute)

text \<open>Go's division truncates towards zero.\<close>

definition go_div :: "int \<Rightarrow> int \<Rightarrow> int" where
  "go_div a b = sgn a * sgn b * (\<bar>a\<bar> div \<bar>b\<bar>)"

lemma go_div_nonneg: "0 \<le> a \<Longrightarrow> 0 < b \<Longrightarrow> go_div a b = a div b"
  by (cases "a = 0") (auto simp: go_div_def)

subsection \<open>Decimal text\<close>

definition digit_char :: "nat \<Rightarrow> char" where
  "digit_char d = char_of (48 + d)"

definition is_digit :: "char \<Rightarrow> bool" where
  "is_digit c \<longleftrightarrow> 48 \<le> (of_char c :: nat) \<and> of_char c \<le> (57 :: nat)"

definition digit_val :: "char \<Rightarrow> nat" where
  "digit_val c = of_char c - 48"

fun show_nat :: "nat \<Rightarrow> string" where
  "show_nat n = (if n < 10 then [digit_char n] else show_nat (n div 10) @ [digit_char (n mod 10)])"

declare show_nat.simps [simp del]

text \<open>\<^verbatim>\<open>strconv.Itoa\<close>, \<^verbatim>\<open>strconv.FormatInt\<close> with base 10, and the verb \<^verbatim>\<open>%d\<close>.\<close>

definition itoa :: "int \<Rightarrow> string" where
  "itoa i = (if i < 0 then CHR ''-'' # show_nat (nat (- i)) else show_nat (nat i))"

text \<open>The verb \<^verbatim>\<open>%05d\<close> on a number that is not negative.\<close>

definition pad5 :: "nat \<Rightarrow> string" where
  "pad5 n = replicate (5 - length (show_nat n)) (CHR ''0'') @ show_nat n"

datatype num_error = ErrSyntax | ErrRange

datatype uparse = UNum nat | USyntax | URange

definition max_uint64 :: nat where
  "max_uint64 = 2 ^ 64 - 1"

fun parse_digits :: "nat \<Rightarrow> string \<Rightarrow> uparse" where
  "parse_digits n [] = UNum n"
| "parse_digits n (c # cs) =
     (if \<not> is_digit c then USyntax
      else if max_uint64 div 10 + 1 \<le> n then URange
      else if max_uint64 < n * 10 + digit_val c then URange
      else parse_digits (n * 10 + digit_val c) cs)"

definition parse_uint :: "string \<Rightarrow> uparse" where
  "parse_uint s = (if s = [] then USyntax else parse_digits 0 s)"

text \<open>
  \<^verbatim>\<open>strconv.ParseInt(s, 10, 64)\<close> and \<^verbatim>\<open>strconv.Atoi(s)\<close>: the value and the error, together,
  because a caller may use the value and drop the error. A range error comes with the
  nearest representable value, a syntax error with 0.
\<close>

definition parse_int :: "string \<Rightarrow> int \<times> num_error option" where
  "parse_int s =
     (case s of [] \<Rightarrow> (0, Some ErrSyntax)
      | c # cs \<Rightarrow>
         (let neg = (c = CHR ''-'');
              body = (if c = CHR ''-'' \<or> c = CHR ''+'' then cs else s)
          in (case parse_uint body of
                USyntax \<Rightarrow> (0, Some ErrSyntax)
              | URange \<Rightarrow> (if neg then - (2 ^ 63) else 2 ^ 63 - 1, Some ErrRange)
              | UNum u \<Rightarrow>
                  if \<not> neg \<and> 2 ^ 63 \<le> u then (2 ^ 63 - 1, Some ErrRange)
                  else if neg \<and> 2 ^ 63 < u then (- (2 ^ 63), Some ErrRange)
                  else (if neg then - int u else int u, None))))"

abbreviation atoi :: "string \<Rightarrow> int \<times> num_error option" where
  "atoi \<equiv> parse_int"

lemma of_char_digit: "d < 10 \<Longrightarrow> of_char (digit_char d) = (48 + d :: nat)"
  by (simp add: digit_char_def)

lemma digit_char_props [simp]:
  assumes "d < 10"
  shows "is_digit (digit_char d)" "digit_val (digit_char d) = d" "plain (digit_char d)"
proof -
  show "is_digit (digit_char d)" "digit_val (digit_char d) = d"
    using assms by (simp_all add: is_digit_def digit_val_def of_char_digit)
  show "plain (digit_char d)"
    using assms ascii_space_val [of "digit_char d"]
    by (auto simp: plain_def ascii_def of_char_digit)
qed

lemma show_nat_not_Nil [simp]: "show_nat n \<noteq> []"
  by (subst show_nat.simps) simp

lemma show_nat_digits: "\<forall>c \<in> set (show_nat n). is_digit c \<and> plain c"
proof (induction n rule: show_nat.induct)
  case (1 n)
  then show ?case by (subst show_nat.simps) auto
qed

lemma parse_digits_append:
  "parse_digits n (s @ t) =
     (case parse_digits n s of UNum m \<Rightarrow> parse_digits m t | e \<Rightarrow> e)"
  by (induction n s rule: parse_digits.induct) auto

lemma parse_digits_show_nat: "n \<le> max_uint64 \<Longrightarrow> parse_digits 0 (show_nat n) = UNum n"
proof (induction n rule: show_nat.induct)
  case (1 n)
  show ?case
  proof (cases "n < 10")
    case True
    then show ?thesis by (simp add: show_nat.simps max_uint64_def)
  next
    case False
    with 1 have "parse_digits 0 (show_nat (n div 10)) = UNum (n div 10)"
      by (simp add: div_le_dividend le_trans)
    moreover have "\<not> max_uint64 div 10 + 1 \<le> n div 10"
      using "1.prems" by (simp add: not_le div_le_mono le_imp_less_Suc)
    moreover have "n div 10 * 10 + n mod 10 = n" by simp
    ultimately show ?thesis
      using False "1.prems" by (simp add: show_nat.simps [of n] parse_digits_append)
  qed
qed

lemma show_nat_head: "show_nat n = c # cs \<Longrightarrow> c \<noteq> CHR ''-'' \<and> c \<noteq> CHR ''+''"
  using show_nat_digits [of n] by (auto simp: is_digit_def)

text \<open>The decimal text of a 64-bit integer reads back as that integer.\<close>

lemma atoi_itoa [go_int]: "int64 i \<Longrightarrow> atoi (itoa i) = (i, None)"
proof -
  assume i: "int64 i"
  show ?thesis
  proof (cases "i < 0")
    case True
    with i have "nat (- i) \<le> max_uint64"
      by (simp add: int64_def max_uint64_def nat_le_iff)
    then have "parse_uint (show_nat (nat (- i))) = UNum (nat (- i))"
      by (simp add: parse_uint_def parse_digits_show_nat)
    with True i show ?thesis by (simp add: itoa_def parse_int_def int64_def)
  next
    case False
    with i have "nat i \<le> max_uint64"
      by (simp add: int64_def max_uint64_def nat_le_iff)
    then have p: "parse_uint (show_nat (nat i)) = UNum (nat i)"
      by (simp add: parse_uint_def parse_digits_show_nat)
    obtain c cs where c: "show_nat (nat i) = c # cs" by (cases "show_nat (nat i)") auto
    with p False i show_nat_head [OF c] show ?thesis
      by (simp add: itoa_def parse_int_def int64_def)
  qed
qed

lemma parse_int_range: "int64 (fst (parse_int s))"
  by (auto simp: parse_int_def int64_def Let_def split: list.splits uparse.splits)

lemma itoa_plain: "\<forall>c \<in> set (itoa i). plain c"
  using show_nat_digits by (auto simp: itoa_def plain_def ascii_def ascii_space_def)

lemma itoa_not_Nil [simp]: "itoa i \<noteq> []"
  by (simp add: itoa_def)

lemma trim_space_itoa [go_int]: "trim_space (itoa i) = itoa i"
  by (simp add: trim_space_plain itoa_plain)

lemma is_word_itoa [go_int]: "is_word (itoa i)"
  by (simp add: is_word_plain itoa_plain)

lemma itoa_no_sep [go_int]: "ascii_space c \<Longrightarrow> c \<notin> set (itoa i)"
  using itoa_plain by (auto simp: plain_def)

end
