(* ===== verification/Go_Paths.thy ===== *)
theory Go_Paths
  imports Go_Strings
begin

text \<open>
  The lexical functions of \<^verbatim>\<open>path/filepath\<close> that the program uses, as on Unix: \<^verbatim>\<open>Clean\<close>, \<^verbatim>\<open>Join\<close>,
  \<^verbatim>\<open>Dir\<close> and \<^verbatim>\<open>Base\<close>. The main fact is that a file name keeps its end through \<^verbatim>\<open>Join\<close>, from which
  the distinctness of numbered files follows.
\<close>

abbreviation SLASH :: char where "SLASH \<equiv> CHR ''/''"

text \<open>One component: empty ones and dots vanish, two dots take the previous component away.\<close>

definition clean_step :: "bool \<Rightarrow> string list \<Rightarrow> string \<Rightarrow> string list" where
  "clean_step rooted st c =
     (if c = [] \<or> c = ''.'' then st
      else if c = ''..'' then
        (case st of [] \<Rightarrow> (if rooted then [] else [c]) | x # xs \<Rightarrow> (if x = ''..'' then c # st else xs))
      else c # st)"

definition path_clean :: "path \<Rightarrow> path" where
  "path_clean p =
     (if p = [] then ''.''
      else (let rooted = (hd p = SLASH);
                out = join ''/'' (rev (foldl (clean_step rooted) [] (split_on SLASH p)))
            in if rooted then SLASH # out else if out = [] then ''.'' else out))"

definition path_join :: "path list \<Rightarrow> path" where
  "path_join es =
     (case dropWhile (\<lambda>e. e = []) es of [] \<Rightarrow> [] | fs \<Rightarrow> path_clean (join ''/'' fs))"

definition path_dir :: "path \<Rightarrow> path" where
  "path_dir p = path_clean (rev (dropWhile (\<lambda>c. c \<noteq> SLASH) (rev p)))"

definition path_base :: "path \<Rightarrow> path" where
  "path_base p =
     (if p = [] then ''.''
      else (let q = dropWhile (\<lambda>c. c = SLASH) (rev p)
            in if q = [] then ''/'' else rev (takeWhile (\<lambda>c. c \<noteq> SLASH) q)))"

lemma split_on_append_sep: "split_on c (a @ c # b) = split_on c a @ split_on c b"
proof (induction c a rule: split_on.induct)
  case (2 c x s)
  then show ?case by (cases "split_on c s") (auto simp: split: list.splits)
qed simp

lemma split_on_append_tail:
  "c \<notin> set t \<Longrightarrow> split_on c (s @ t) = butlast (split_on c s) @ [last (split_on c s) @ t]"
proof (induction c s rule: split_on.induct)
  case (1 c)
  then show ?case by (simp add: split_on_no_sep)
next
  case (2 c x s)
  then show ?case by (cases "split_on c s") (auto split: list.splits)
qed

text \<open>What stands before the last component of \<open>dir\<close> joined with a name that starts with \<open>p\<close>.\<close>

definition path_stem :: "path \<Rightarrow> path \<Rightarrow> path" where
  "path_stem dir p =
     (let rooted = (hd dir = SLASH); cs = split_on SLASH p;
          st = foldl (clean_step rooted) [] (split_on SLASH dir @ butlast cs)
      in (if rooted then ''/'' else []) @ concat (map (\<lambda>x. x @ ''/'') (rev st)) @ last cs)"

lemma join_snoc: "join sep (xs @ [y]) = concat (map (\<lambda>x. x @ sep) xs) @ y"
proof (induction xs)
  case (Cons x xs)
  then show ?case by (cases xs) auto
qed simp

lemma clean_step_name: "3 \<le> length t \<Longrightarrow> clean_step r st (u @ t) = (u @ t) # st"
  by (cases t; cases "tl t"; cases "tl (tl t)"; cases u; cases "tl u") (auto simp: clean_step_def)

lemma path_join_name:
  assumes "dir \<noteq> []" "SLASH \<notin> set t" "3 \<le> length t"
  shows "path_join [dir, p @ t] = path_stem dir p @ t"
proof -
  let ?r = "hd dir = SLASH" let ?cs = "split_on SLASH p"
  let ?st = "foldl (clean_step ?r) [] (split_on SLASH dir @ butlast ?cs)"
  have "split_on SLASH (dir @ SLASH # p @ t) = (split_on SLASH dir @ butlast ?cs) @ [last ?cs @ t]"
    using split_on_append_tail [OF assms(2), of p] by (simp add: split_on_append_sep)
  then have "foldl (clean_step ?r) [] (split_on SLASH (dir @ SLASH # p @ t)) = (last ?cs @ t) # ?st"
    using clean_step_name [OF assms(3)] by simp
  then have "path_clean (dir @ SLASH # p @ t) =
      (if ?r then ''/'' else []) @ concat (map (\<lambda>x. x @ ''/'') (rev ?st)) @ last ?cs @ t"
    using assms by (auto simp: path_clean_def Let_def join_snoc)
  then show ?thesis using assms(1) by (simp add: path_join_def path_stem_def Let_def)
qed

end
