(* ===== verification/Machine.thy ===== *)
theory Machine
  imports Prelude
begin

text \<open>
  Labelled machines. The concurrent parts of the program are modelled as a step function that
  gives the next state for a label, \<^term>\<open>None\<close> where the step is not possible. The locale is
  the contract every such machine meets: an invariant that the steps keep and a measure that
  they decrease. Its lemmas carry both to whole executions.
\<close>

fun exec :: "('l \<Rightarrow> 's \<Rightarrow> 's option) \<Rightarrow> 'l list \<Rightarrow> 's \<Rightarrow> 's option" where
  "exec step [] s = Some s"
| "exec step (l # ls) s = (case step l s of None \<Rightarrow> None | Some s' \<Rightarrow> exec step ls s')"

inductive reach :: "('l \<Rightarrow> 's \<Rightarrow> 's option) \<Rightarrow> 's \<Rightarrow> 's \<Rightarrow> bool" for step s0 where
  start: "reach step s0 s0"
| step: "reach step s0 s \<Longrightarrow> step l s = Some s' \<Longrightarrow> reach step s0 s'"

definition stuck :: "('l \<Rightarrow> 's \<Rightarrow> 's option) \<Rightarrow> 's \<Rightarrow> bool" where
  "stuck step s \<longleftrightarrow> (\<forall>l. step l s = None)"

lemma exec_append:
  "exec step (ls @ ms) s = (case exec step ls s of None \<Rightarrow> None | Some s' \<Rightarrow> exec step ms s')"
  by (induction ls arbitrary: s) (auto split: option.splits)

lemma exec_reach: "exec step ls s = Some s' \<Longrightarrow> reach step s0 s \<Longrightarrow> reach step s0 s'"
  by (induction ls arbitrary: s) (auto split: option.splits intro: reach.step)

lemma reach_exec: "reach step s0 s \<Longrightarrow> \<exists>ls. exec step ls s0 = Some s"
proof (induction rule: reach.induct)
  case start
  show ?case by (rule exI [of _ "[]"]) simp
next
  case (step s l s')
  then obtain ls where "exec step ls s0 = Some s" by blast
  with step.hyps show ?case by (intro exI [of _ "ls @ [l]"]) (simp add: exec_append)
qed

locale machine =
  fixes step :: "'l \<Rightarrow> 's \<Rightarrow> 's option"
    and inv :: "'s \<Rightarrow> bool"
    and work :: "'s \<Rightarrow> nat"
  assumes inv_step: "inv s \<Longrightarrow> step l s = Some s' \<Longrightarrow> inv s'"
    and work_step: "inv s \<Longrightarrow> step l s = Some s' \<Longrightarrow> work s' < work s"
begin

lemma reach_inv: "reach step s0 s \<Longrightarrow> inv s0 \<Longrightarrow> inv s"
  by (induction rule: reach.induct) (auto intro: inv_step)

lemma exec_inv: "exec step ls s = Some s' \<Longrightarrow> inv s \<Longrightarrow> inv s'"
  by (induction ls arbitrary: s) (auto split: option.splits intro: inv_step)

lemma exec_bound: "exec step ls s = Some s' \<Longrightarrow> inv s \<Longrightarrow> length ls + work s' \<le> work s"
proof (induction ls arbitrary: s)
  case (Cons l ls)
  then obtain s1 where s1: "step l s = Some s1" "exec step ls s1 = Some s'"
    by (auto split: option.splits)
  then have "length ls + work s' \<le> work s1" using Cons inv_step by blast
  then show ?case using work_step [OF Cons.prems(2) s1(1)] by simp
qed simp

text \<open>Every execution can be continued to one that is stuck.\<close>

lemma run_to_stuck: "inv s \<Longrightarrow> \<exists>ls s'. exec step ls s = Some s' \<and> stuck step s'"
proof (induction "work s" arbitrary: s rule: less_induct)
  case less
  show ?case
  proof (cases "stuck step s")
    case True
    then show ?thesis by (intro exI [of _ "[]"]) simp
  next
    case False
    then obtain l s1 where l: "step l s = Some s1" by (auto simp: stuck_def)
    then obtain ls s' where "exec step ls s1 = Some s'" "stuck step s'"
      using less work_step inv_step by blast
    then show ?thesis using l by (intro exI [of _ "l # ls"]) auto
  qed
qed

end

end
