(* ===== verification/Mysql_Source.thy ===== *)
theory Mysql_Source
  imports Go_Ints Go_Paths Machine
begin

text \<open>
  The export of a MySQL table into text shards (\<^verbatim>\<open>batch/mysql_batch/config.go\<close>, \<^verbatim>\<open>source.go\<close>,
  \<^verbatim>\<open>factory.go\<close>): defaults and identifiers, the ranges of the primary key at 64 bits, the
  text of a shard, and the pool of goroutines that export the shards. The database and the
  file system are parameters.
\<close>

subsection \<open>Configuration\<close>

record SourceConfig =
  Table :: string
  PKColumn :: string
  KeyColumn :: string
  ValColumn :: string
  Where :: string
  Shards :: int
  Parallel :: int
  OutputDir :: string
  FilePrefix :: string

definition source_WithDefaults :: "SourceConfig \<Rightarrow> SourceConfig" where
  "source_WithDefaults c =
     c\<lparr>PKColumn := or_default ''id'' (PKColumn c), KeyColumn := or_default ''biz_key'' (KeyColumn c),
       ValColumn := or_default ''metric'' (ValColumn c), Where := or_default ''1=1'' (Where c),
       Shards := (if Shards c \<le> 0 then 16 else Shards c),
       Parallel := (if Parallel c \<le> 0 then 4 else Parallel c),
       OutputDir := or_default ''txt/mysql_source'' (OutputDir c),
       FilePrefix := or_default ''chunk'' (FilePrefix c)\<rparr>"

text \<open>The regular expression \<^verbatim>\<open>^[a-zA-Z_][a-zA-Z0-9_]*$\<close>.\<close>

definition ident_start :: "char \<Rightarrow> bool" where
  "ident_start c \<longleftrightarrow> (let b = (of_char c :: nat) in 65 \<le> b \<and> b \<le> 90 \<or> 97 \<le> b \<and> b \<le> 122 \<or> b = 95)"

definition identifierRe :: "string \<Rightarrow> bool" where
  "identifierRe s \<longleftrightarrow> s \<noteq> [] \<and> ident_start (hd s) \<and> (\<forall>c \<in> set (tl s). ident_start c \<or> is_digit c)"

definition backquote :: char where
  "backquote = CHR 0x60"

definition quoteIdentifier :: "string \<Rightarrow> string result" where
  "quoteIdentifier s =
     (if \<not> identifierRe s then Inl (''invalid identifier: '' @ s) else Inr ([backquote] @ s @ [backquote]))"

text \<open>A column value as the driver delivers it; \<^verbatim>\<open>SOther\<close> holds what \<^verbatim>\<open>fmt.Sprint\<close> prints.\<close>

datatype sql_value = SNil | SBytes string | SInt int | SOther string

fun asString :: "sql_value \<Rightarrow> string" where
  "asString SNil = []"
| "asString (SBytes t) = t"
| "asString (SInt i) = itoa i"
| "asString (SOther t) = t"

subsection \<open>Ranges\<close>

record shardTask =
  sStart :: int
  sEnd :: int
  sFile :: string

definition shard_step :: "int \<Rightarrow> int \<Rightarrow> int \<Rightarrow> int" where
  "shard_step minID maxID shards =
     (let span = wrap64 (wrap64 (maxID - minID) + 1);
          step = go_div (wrap64 (wrap64 (span + shards) - 1)) shards
      in if step < 1 then 1 else step)"

definition shard_file :: "SourceConfig \<Rightarrow> nat \<Rightarrow> string" where
  "shard_file c i = path_join [OutputDir c, FilePrefix c @ ''-'' @ pad5 i @ ''.txt'']"

text \<open>The loop over the shards from \<open>i\<close> on, with its \<^verbatim>\<open>break\<close>.\<close>

function shard_loop :: "SourceConfig \<Rightarrow> int \<Rightarrow> int \<Rightarrow> int \<Rightarrow> nat \<Rightarrow> shardTask list" where
  "shard_loop c minID maxID step i =
     (if int i < Shards c
      then (let start = wrap64 (minID + wrap64 (int i * step))
            in if maxID < start then []
               else \<lparr>sStart = start, sEnd = wrap64 (start + step), sFile = shard_file c i\<rparr> #
                    shard_loop c minID maxID step (i + 1))
      else [])"
  by pat_completeness auto
termination
  by (relation "measure (\<lambda>(c, a, b, s, i). nat (Shards c) - i)") auto

declare shard_loop.simps [simp del]

definition shard_tasks :: "SourceConfig \<Rightarrow> int \<Rightarrow> int \<Rightarrow> shardTask list" where
  "shard_tasks c minID maxID = shard_loop c minID maxID (shard_step minID maxID (Shards c)) 0"

text \<open>No sum of the computation leaves the 64-bit range.\<close>

definition shards_fit :: "int \<Rightarrow> int \<Rightarrow> int \<Rightarrow> bool" where
  "shards_fit minID maxID shards \<longleftrightarrow>
     int64 minID \<and> int64 maxID \<and> minID \<le> maxID \<and> 0 < shards \<and>
     maxID - minID + 1 + shards < 2 ^ 63 \<and> maxID + (maxID - minID + 1) + shards < 2 ^ 63"

lemma shard_step_eq:
  assumes "shards_fit minID maxID shards"
  shows "shard_step minID maxID shards = (maxID - minID + shards) div shards"
    and "1 \<le> shard_step minID maxID shards" "shard_step minID maxID shards \<le> maxID - minID + 1"
    and "maxID - minID + 1 \<le> shard_step minID maxID shards * shards"
    and "shard_step minID maxID shards * shards \<le> maxID - minID + shards"
proof -
  let ?n = "maxID - minID + 1"
  have n: "1 \<le> ?n" "?n + shards < 2 ^ 63" and s: "0 < shards" using assms by (auto simp: shards_fit_def)
  have w: "wrap64 (maxID - minID) = maxID - minID" "wrap64 ?n = ?n" "wrap64 (?n + shards) = ?n + shards"
    "wrap64 (?n + shards - 1) = ?n + shards - 1"
    using n s by (auto intro!: wrap64_id simp: int64_def)
  have "wrap64 (wrap64 (wrap64 (wrap64 (maxID - minID) + 1) + shards) - 1) = maxID - minID + shards"
    using w unfolding w by simp
  then have e: "go_div (wrap64 (wrap64 (wrap64 (wrap64 (maxID - minID) + 1) + shards) - 1)) shards =
      (maxID - minID + shards) div shards"
    using go_div_nonneg [of "maxID - minID + shards" shards] n s by simp
  have pos: "1 \<le> (maxID - minID + shards) div shards" using n s by (simp add: div_add_self2 pos_imp_zdiv_nonneg_iff)
  then show "shard_step minID maxID shards = (maxID - minID + shards) div shards"
    using e by (simp add: shard_step_def Let_def)
  then show "1 \<le> shard_step minID maxID shards" using pos by simp
  have st: "shard_step minID maxID shards = (maxID - minID) div shards + 1"
    using \<open>shard_step minID maxID shards = _\<close> s by (simp add: div_add_self2)
  have "(maxID - minID) div shards \<le> maxID - minID"
    using zdiv_mono2 [of "maxID - minID" 1 shards] n s by simp
  then show "shard_step minID maxID shards \<le> ?n" using st by simp
  have "(maxID - minID) div shards * shards = maxID - minID - (maxID - minID) mod shards"
    by (simp add: minus_mod_eq_div_mult)
  moreover have "(maxID - minID) mod shards < shards" using s by simp
  ultimately have "maxID - minID < ((maxID - minID) div shards + 1) * shards"
    unfolding distrib_right by linarith
  then show "?n \<le> shard_step minID maxID shards * shards" using st by simp
  have "(maxID - minID) div shards * shards \<le> maxID - minID"
    using s by (metis diff_ge_0_iff_ge minus_div_mult_eq_mod pos_mod_sign)
  then show "shard_step minID maxID shards * shards \<le> maxID - minID + shards"
    unfolding st by (simp add: distrib_right)
qed

lemma shard_loop_eq:
  assumes fit: "shards_fit minID maxID (Shards c)"
  defines "step \<equiv> shard_step minID maxID (Shards c)"
  defines "N \<equiv> nat ((maxID - minID) div step + 1)"
  assumes "i \<le> N"
  shows "shard_loop c minID maxID step i =
    map (\<lambda>k. \<lparr>sStart = minID + int k * step, sEnd = minID + int (k + 1) * step, sFile = shard_file c k\<rparr>) [i..<N]"
  using assms(4)
proof (induction "N - i" arbitrary: i)
  case 0
  then have i: "i = N" by simp
  note st = shard_step_eq [OF fit, folded step_def]
  have nn: "0 \<le> maxID - minID" using fit by (simp add: shards_fit_def)
  have N: "int N = (maxID - minID) div step + 1" using st(2) nn by (simp add: N_def pos_imp_zdiv_nonneg_iff)
  have gt: "maxID - minID < int N * step"
    using N st(2) by (simp add: distrib_right) (metis add.commute mult.commute mult_div_mod_eq pos_mod_bound
      add_less_cancel_left zero_less_one_class.zero_less_one order_less_le_trans)
  show ?case
  proof (cases "int N < Shards c")
    case True
    have "int N * step < Shards c * step" using True st(2) by simp
    then have "int N * step < maxID - minID + Shards c" using st(5) by (simp add: mult.commute)
    then have lim: "int64 (int N * step)" "int64 (minID + int N * step)"
      using fit st(2) gt nn by (auto simp: shards_fit_def int64_def)
    then show ?thesis using i gt by (simp add: shard_loop.simps [of c minID maxID step N] wrap64_id)
  next
    case False
    then show ?thesis using i by (simp add: shard_loop.simps [of c minID maxID step N])
  qed
next
  case (Suc d)
  note st = shard_step_eq [OF fit, folded step_def]
  have nn: "0 \<le> maxID - minID" using fit by (simp add: shards_fit_def)
  have i: "i < N" using Suc.hyps(2) by simp
  have N: "int N = (maxID - minID) div step + 1" using st(2) nn by (simp add: N_def pos_imp_zdiv_nonneg_iff)
  have "int i \<le> (maxID - minID) div step" using i N by linarith
  then have le: "int i * step \<le> maxID - minID"
    using st(2) by (metis mult.commute mult_left_mono order.trans le_add_same_cancel1 mult_div_mod_eq pos_mod_sign
      zero_less_one order_less_le_trans less_imp_le)
  have "int i * step < Shards c * step" using le st(4) by (simp add: mult.commute)
  then have sh: "int i < Shards c" using st(2) by simp
  have pos: "0 \<le> int i * step" using st(2) by simp
  have w: "wrap64 (int i * step) = int i * step" "wrap64 (minID + int i * step) = minID + int i * step"
    "wrap64 (minID + int i * step + step) = minID + int i * step + step"
  proof -
    define q where "q = int i * step"
    have "0 \<le> q" "q \<le> maxID - minID" using pos le by (simp_all add: q_def)
    then have "int64 q" "int64 (minID + q)" "int64 (minID + q + step)"
      using st(2,3) fit unfolding int64_def shards_fit_def by linarith+
    then show "wrap64 (int i * step) = int i * step" "wrap64 (minID + int i * step) = minID + int i * step"
      "wrap64 (minID + int i * step + step) = minID + int i * step + step"
      unfolding q_def by (simp_all add: wrap64_id)
  qed
  have IH: "shard_loop c minID maxID step (i + 1) =
      map (\<lambda>k. \<lparr>sStart = minID + int k * step, sEnd = minID + int (k + 1) * step, sFile = shard_file c k\<rparr>) [i + 1..<N]"
    using Suc.hyps i by auto
  have "[i..<N] = i # [i + 1..<N]" using i by (simp add: upt_conv_Cons)
  then show ?case
    using sh w le IH by (simp add: shard_loop.simps [of c minID maxID step i] Let_def algebra_simps)
qed

lemma shard_loop_length: "0 \<le> Shards c \<Longrightarrow> int i \<le> Shards c \<Longrightarrow> int (length (shard_loop c a b s i)) \<le> Shards c - int i"
  by (induction c a b s i rule: shard_loop.induct) (subst shard_loop.simps, auto simp: Let_def)

lemma shard_tasks_eq:
  assumes "shards_fit minID maxID (Shards c)"
  shows "shard_tasks c minID maxID =
    map (\<lambda>k. \<lparr>sStart = minID + int k * shard_step minID maxID (Shards c),
              sEnd = minID + int (k + 1) * shard_step minID maxID (Shards c), sFile = shard_file c k\<rparr>)
      [0..<nat ((maxID - minID) div shard_step minID maxID (Shards c) + 1)]"
  unfolding shard_tasks_def by (rule shard_loop_eq [OF assms]) simp

definition range_at :: "shardTask \<Rightarrow> int \<Rightarrow> bool" where
  "range_at t x \<longleftrightarrow> sStart t \<le> x \<and> x < sEnd t"

lemma div_range_iff:
  fixes x s :: int
  assumes "0 < s" "0 \<le> x"
  shows "int k * s \<le> x \<and> x < int (k + 1) * s \<longleftrightarrow> k = nat (x div s)"
proof
  assume "k = nat (x div s)"
  then have k: "int k = x div s" using assms by (simp add: pos_imp_zdiv_nonneg_iff)
  have "int k * s = x - x mod s" unfolding k by (simp add: minus_mod_eq_div_mult)
  moreover have "int (k + 1) * s = int k * s + s" by (simp add: distrib_right)
  moreover have "0 \<le> x mod s" "x mod s < s" using assms(1) by simp_all
  ultimately show "int k * s \<le> x \<and> x < int (k + 1) * s" by linarith
next
  assume h: "int k * s \<le> x \<and> x < int (k + 1) * s"
  then have "0 \<le> x - int k * s" "x - int k * s < s" by (simp_all add: distrib_right)
  then have "(x - int k * s) div s = 0" by (rule div_pos_pos_trivial)
  moreover have "x div s = (x - int k * s) div s + int k"
    using assms(1) by (metis diff_add_cancel div_mult_self3 less_irrefl add.commute)
  ultimately show "k = nat (x div s)" by simp
qed

lemma shard_tasks_cover:
  assumes fit: "shards_fit minID maxID (Shards c)" and x: "minID \<le> x" "x \<le> maxID"
  shows "\<exists>!k. k < length (shard_tasks c minID maxID) \<and> range_at (shard_tasks c minID maxID ! k) x"
proof -
  let ?step = "shard_step minID maxID (Shards c)"
  let ?N = "nat ((maxID - minID) div ?step + 1)"
  note st = shard_step_eq [OF fit]
  note tasks = shard_tasks_eq [OF fit]
  have pos: "0 < ?step" using st(2) by simp
  have "k < ?N \<and> minID + int k * ?step \<le> x \<and> x < minID + int (k + 1) * ?step \<longleftrightarrow> k = nat ((x - minID) div ?step)" for k
  proof -
    have "int k * ?step \<le> x - minID \<and> x - minID < int (k + 1) * ?step \<longleftrightarrow> k = nat ((x - minID) div ?step)"
      using div_range_iff [OF pos, of "x - minID" k] x by simp
    moreover have "nat ((x - minID) div ?step) < ?N"
      using x pos by (simp add: zdiv_mono1 le_imp_less_Suc nat_mono pos_imp_zdiv_nonneg_iff zless_nat_conj nat_less_eq_zless)
    ultimately show ?thesis by (auto simp: algebra_simps)
  qed
  then show ?thesis unfolding tasks by (simp add: range_at_def conj_assoc cong: conj_cong)
qed

lemma parse_digits_zeros: "parse_digits 0 (replicate k (CHR ''0'') @ s) = parse_digits 0 s"
  by (induction k) (auto simp: is_digit_def digit_val_def max_uint64_def)

lemma pad5_inj:
  assumes "pad5 a = pad5 b" "a \<le> max_uint64" "b \<le> max_uint64"
  shows "a = b"
proof -
  have "parse_digits 0 (pad5 n) = UNum n" if "n \<le> max_uint64" for n
    using parse_digits_show_nat [OF that] by (simp add: pad5_def parse_digits_zeros)
  then show ?thesis using assms by (metis uparse.inject)
qed

lemma pad5_digits: "x \<in> set (pad5 n) \<Longrightarrow> is_digit x"
  using show_nat_digits [of n] by (auto simp: pad5_def is_digit_def)

text \<open>Different shards write different files.\<close>

lemma shard_file_inj:
  assumes "OutputDir c \<noteq> []" "shard_file c i = shard_file c j" "i \<le> max_uint64" "j \<le> max_uint64"
  shows "i = j"
proof -
  have no: "SLASH \<notin> set (''-'' @ pad5 n @ ''.txt'')" for n
    using pad5_digits [of SLASH n] by (auto simp: is_digit_def)
  have "shard_file c n = path_stem (OutputDir c) (FilePrefix c) @ ''-'' @ pad5 n @ ''.txt''" for n
    unfolding shard_file_def by (rule path_join_name [OF assms(1) no]) simp
  then show ?thesis using assms pad5_inj by simp
qed

lemma shard_tasks_files_distinct:
  assumes fit: "shards_fit minID maxID (Shards c)" and out: "OutputDir c \<noteq> []"
  shows "distinct (map sFile (shard_tasks c minID maxID))"
proof -
  let ?N = "nat ((maxID - minID) div shard_step minID maxID (Shards c) + 1)"
  note st = shard_step_eq [OF fit]
  have "(maxID - minID) div shard_step minID maxID (Shards c) \<le> maxID - minID"
    using zdiv_mono2 [of "maxID - minID" 1 "shard_step minID maxID (Shards c)"] st(2) fit by (simp add: shards_fit_def)
  then have "int ?N \<le> 2 ^ 63" using fit st(2) by (auto simp: shards_fit_def)
  then have "k \<le> max_uint64" if "k < ?N" for k using that by (simp add: max_uint64_def)
  then have "inj_on (shard_file c) {0..<?N}" using shard_file_inj [OF out] by (auto simp: inj_on_def)
  moreover have "map sFile (shard_tasks c minID maxID) = map (shard_file c) [0..<?N]"
    unfolding shard_tasks_eq [OF fit] by simp
  ultimately show ?thesis by (simp add: distinct_map)
qed

subsection \<open>One shard\<close>

text \<open>
  \<^verbatim>\<open>exportOneShard\<close>: \<open>query start end\<close> is what the database returns for the range, rows of three
  columns and the error of the iteration, or the error of the query itself; \<open>create\<close> tells which
  files can be created. The rows read before an error are in the file.
\<close>

type_synonym sql_row = "sql_value \<times> sql_value \<times> sql_value"

definition shard_line :: "sql_row \<Rightarrow> string" where
  "shard_line r = (case r of (c1, c2, c3) \<Rightarrow>
     asString c1 @ [TAB] @ asString c2 @ [TAB] @ asString c3 @ [NL])"

definition exportOneShard ::
  "(int \<Rightarrow> int \<Rightarrow> (sql_row list \<times> string option) result) \<Rightarrow> (path \<Rightarrow> bool) \<Rightarrow> shardTask \<Rightarrow> fs \<Rightarrow> unit result \<times> fs" where
  "exportOneShard query create t d =
     (case query (sStart t) (sEnd t) of
        Inl e \<Rightarrow> (Inl e, d)
      | Inr (rows, rerr) \<Rightarrow>
          (if \<not> create (sFile t) then (Inl ''create'', d)
           else ((case rerr of None \<Rightarrow> Inr () | Some e \<Rightarrow> Inl e),
                 d(sFile t \<mapsto> concat (map shard_line rows)))))"

subsection \<open>The pool\<close>

text \<open>
  The goroutines of \<^verbatim>\<open>ExportSourceByPKRange\<close>: each ranges over the unbuffered channel \<^verbatim>\<open>jobs\<close> and ends at
  its first error, which it leaves in \<^verbatim>\<open>errCh\<close> if that is empty; the main goroutine looks for an
  error, then sends the next task, and at the end closes the channel and waits. Tasks are named
  by their index; which exports fail is decided by the label.
\<close>

datatype pool_worker = PIdle | PBusy nat | PExited

datatype pool_main = PCheck nat | PSend nat | PWait | PWaitErr | PReturned bool

record pool_st =
  pWork :: "pool_worker list"
  pErr :: bool
  pClosed :: bool
  pMain :: pool_main
  exported :: "nat list"

datatype pool_label = PLook | PGive nat | PEnd nat bool | PQuit nat | PJoin

definition pool_init :: "nat \<Rightarrow> pool_st" where
  "pool_init w = \<lparr>pWork = replicate w PIdle, pErr = False, pClosed = False, pMain = PCheck 0, exported = []\<rparr>"

definition pool_size :: "int \<Rightarrow> nat \<Rightarrow> int" where
  "pool_size parallel n =
     (let workerN = (if int n < parallel then int n else parallel) in if workerN < 1 then 1 else workerN)"

fun pool_step :: "nat \<Rightarrow> pool_label \<Rightarrow> pool_st \<Rightarrow> pool_st option" where
  "pool_step n PLook s =
     (case pMain s of
        PCheck k \<Rightarrow>
          (if n \<le> k then Some (s\<lparr>pMain := PWait, pClosed := True\<rparr>)
           else if pErr s then Some (s\<lparr>pMain := PWaitErr, pErr := False, pClosed := True\<rparr>)
           else Some (s\<lparr>pMain := PSend k\<rparr>))
      | _ \<Rightarrow> None)"
| "pool_step n (PGive w) s =
     (case pMain s of
        PSend k \<Rightarrow>
          (if w < length (pWork s) \<and> pWork s ! w = PIdle
           then Some (s\<lparr>pMain := PCheck (k + 1), pWork := (pWork s)[w := PBusy k]\<rparr>) else None)
      | _ \<Rightarrow> None)"
| "pool_step n (PEnd w ok) s =
     (if w < length (pWork s)
      then (case pWork s ! w of
              PBusy k \<Rightarrow>
                (if ok then Some (s\<lparr>pWork := (pWork s)[w := PIdle], exported := k # exported s\<rparr>)
                 else Some (s\<lparr>pWork := (pWork s)[w := PExited], pErr := True\<rparr>))
            | _ \<Rightarrow> None)
      else None)"
| "pool_step n (PQuit w) s =
     (if w < length (pWork s) \<and> pWork s ! w = PIdle \<and> pClosed s
      then Some (s\<lparr>pWork := (pWork s)[w := PExited]\<rparr>) else None)"
| "pool_step n PJoin s =
     (if \<forall>x \<in> set (pWork s). x = PExited
      then (case pMain s of
              PWait \<Rightarrow> Some (s\<lparr>pMain := PReturned (\<not> pErr s)\<rparr>)
            | PWaitErr \<Rightarrow> Some (s\<lparr>pMain := PReturned False\<rparr>)
            | _ \<Rightarrow> None)
      else None)"

definition busy_with :: "nat \<Rightarrow> pool_worker \<Rightarrow> nat" where
  "busy_with k x = (if x = PBusy k then 1 else 0)"

text \<open>How often task \<open>k\<close> has been exported or is being exported.\<close>

definition taken :: "nat \<Rightarrow> pool_st \<Rightarrow> nat" where
  "taken k s = count_list (exported s) k + sum_list (map (busy_with k) (pWork s))"

definition in_loop :: "pool_main \<Rightarrow> nat option" where
  "in_loop m = (case m of PCheck k \<Rightarrow> Some k | PSend k \<Rightarrow> Some k | _ \<Rightarrow> None)"

text \<open>
  No task is taken twice; the tasks before the loop index have been taken unless an error is
  pending; after the loop without an error, and after a successful return, all have been.
\<close>

definition pool_inv :: "nat \<Rightarrow> nat \<Rightarrow> pool_st \<Rightarrow> bool" where
  "pool_inv w n s \<longleftrightarrow>
     length (pWork s) = w \<and> (\<forall>k. taken k s \<le> 1) \<and>
     (\<forall>j. in_loop (pMain s) = Some j \<longrightarrow>
        j \<le> n \<and> (\<forall>k \<ge> j. taken k s = 0) \<and> (\<not> pErr s \<longrightarrow> (\<forall>k < j. taken k s = 1)) \<and>
        \<not> pClosed s \<and> (\<not> pErr s \<longrightarrow> (\<forall>x \<in> set (pWork s). x \<noteq> PExited))) \<and>
     (in_loop (pMain s) = None \<longrightarrow> pClosed s) \<and>
     (\<forall>k. pMain s = PSend k \<longrightarrow> k < n) \<and>
     (pMain s = PWait \<and> \<not> pErr s \<or> pMain s = PReturned True \<longrightarrow> (\<forall>k < n. taken k s = 1)) \<and>
     (\<forall>ok. pMain s = PReturned ok \<longrightarrow> (\<forall>x \<in> set (pWork s). x = PExited))"

lemma taken_update:
  assumes "w < length (pWork s)" "exported s' = es @ exported s" "pWork s' = (pWork s)[w := x]"
  shows "taken k s' + busy_with k (pWork s ! w) = taken k s + busy_with k x + count_list es k"
  using sum_list_nat_update [OF assms(1), of "busy_with k" x] assms(2,3) by (simp add: taken_def)

lemma pool_give:
  assumes inv: "pool_inv w n s" and st: "pool_step n (PGive v) s = Some s'"
  shows "pool_inv w n s'"
proof -
  obtain j where j: "pMain s = PSend j" "v < length (pWork s)" "pWork s ! v = PIdle"
    and s': "s' = s\<lparr>pMain := PCheck (j + 1), pWork := (pWork s)[v := PBusy j]\<rparr>"
    using st by (auto split: pool_main.splits if_splits)
  have t: "taken k s' = taken k s + (if k = j then 1 else 0)" for k
    using taken_update [OF j(2), of s' "[]" "PBusy j" k] j(3) by (simp add: s' busy_with_def)
  have "set (pWork s') \<subseteq> insert (PBusy j) (set (pWork s))"
    unfolding s' using set_update_subset_insert by simp
  then show ?thesis using inv j(1) t by (auto simp: pool_inv_def in_loop_def s')
qed

lemma pool_end:
  assumes inv: "pool_inv w n s" and st: "pool_step n (PEnd v ok) s = Some s'"
  shows "pool_inv w n s'"
proof -
  obtain j where j: "v < length (pWork s)" "pWork s ! v = PBusy j"
    using st by (auto split: pool_worker.splits if_splits)
  have nr: "pMain s \<noteq> PReturned b" for b
    using inv j nth_mem [OF j(1)] by (auto simp: pool_inv_def)
  show ?thesis
  proof (cases ok)
    case True
    then have s': "s' = s\<lparr>pWork := (pWork s)[v := PIdle], exported := j # exported s\<rparr>" using st j by simp
    have t: "taken k s' = taken k s" for k
      using taken_update [OF j(1), of s' "[j]" PIdle k] j(2) by (simp add: s' busy_with_def split: if_splits)
    have "set (pWork s') \<subseteq> insert PIdle (set (pWork s))"
      unfolding s' using set_update_subset_insert by simp
    then have ne: "PExited \<notin> set (pWork s) \<Longrightarrow> PExited \<notin> set (pWork s')" by auto
    have same: "pMain s' = pMain s" "pErr s' = pErr s" "pClosed s' = pClosed s" "length (pWork s') = length (pWork s)"
      by (simp_all add: s')
    have eq: "(\<forall>x \<in> S. x \<noteq> PExited) \<longleftrightarrow> PExited \<notin> S" for S by auto
    show ?thesis using inv nr ne by (simp add: pool_inv_def t same eq)
  next
    case False
    then have s': "s' = s\<lparr>pWork := (pWork s)[v := PExited], pErr := True\<rparr>" using st j by simp
    have "taken k s' \<le> taken k s" for k
      using taken_update [OF j(1), of s' "[]" PExited k] by (simp add: s' busy_with_def split: if_splits)
    then have t: "taken k s \<le> m \<Longrightarrow> taken k s' \<le> m" for k m by (rule order_trans)
    have "taken k s = 0 \<Longrightarrow> taken k s' = 0" for k using t [of k 0] by simp
    then show ?thesis using inv nr t by (auto simp: pool_inv_def s')
  qed
qed

lemma pool_quit:
  assumes inv: "pool_inv w n s" and st: "pool_step n (PQuit v) s = Some s'"
  shows "pool_inv w n s'"
proof -
  have j: "v < length (pWork s)" "pWork s ! v = PIdle" "pClosed s"
    and s': "s' = s\<lparr>pWork := (pWork s)[v := PExited]\<rparr>" using st by (auto split: if_splits)
  have nr: "pMain s \<noteq> PReturned b" for b
    using inv j nth_mem [OF j(1)] by (auto simp: pool_inv_def)
  have t: "taken k s' = taken k s" for k
    using taken_update [OF j(1), of s' "[]" PExited k] j(2) by (simp add: s' busy_with_def)
  show ?thesis using inv nr t j(3) by (auto simp: pool_inv_def s')
qed

lemma pool_look_join:
  assumes inv: "pool_inv w n s" and st: "pool_step n PLook s = Some s' \<or> pool_step n PJoin s = Some s'"
  shows "pool_inv w n s'"
proof -
  have "pWork s' = pWork s" "exported s' = exported s"
    using st by (auto split: pool_main.splits if_splits)
  then have t: "taken k s' = taken k s" for k by (simp add: taken_def)
  from st show ?thesis
  proof
    assume "pool_step n PLook s = Some s'"
    then obtain k where k: "pMain s = PCheck k" by (auto split: pool_main.splits)
    then have "k \<le> n" using inv by (auto simp: pool_inv_def in_loop_def)
    then show ?thesis using \<open>pool_step n PLook s = Some s'\<close> inv k t
      by (auto simp: pool_inv_def in_loop_def split: if_splits)
  next
    assume "pool_step n PJoin s = Some s'"
    then show ?thesis using inv t by (auto simp: pool_inv_def in_loop_def split: pool_main.splits if_splits)
  qed
qed

lemma pool_inv_step: "pool_inv w n s \<Longrightarrow> pool_step n l s = Some s' \<Longrightarrow> pool_inv w n s'"
  using pool_give pool_end pool_quit pool_look_join by (cases l) blast+

text \<open>Each task costs three steps, each goroutine one, and the main goroutine one per task and two at the end.\<close>

fun pool_worker_weight :: "pool_worker \<Rightarrow> nat" where
  "pool_worker_weight PIdle = 1"
| "pool_worker_weight (PBusy k) = 2"
| "pool_worker_weight PExited = 0"

fun pool_main_weight :: "nat \<Rightarrow> pool_main \<Rightarrow> nat" where
  "pool_main_weight n (PCheck k) = 3 * (n - k) + 2"
| "pool_main_weight n (PSend k) = 3 * (n - k) + 1"
| "pool_main_weight n PWait = 1"
| "pool_main_weight n PWaitErr = 1"
| "pool_main_weight n (PReturned b) = 0"

definition pool_work :: "nat \<Rightarrow> pool_st \<Rightarrow> nat" where
  "pool_work n s = pool_main_weight n (pMain s) + sum_list (map pool_worker_weight (pWork s))"

lemma pool_work_step:
  assumes inv: "pool_inv w n s" and st: "pool_step n l s = Some s'"
  shows "pool_work n s' < pool_work n s"
proof -
  have upd: "sum_list (map pool_worker_weight ((pWork s)[v := x])) + pool_worker_weight (pWork s ! v) =
      sum_list (map pool_worker_weight (pWork s)) + pool_worker_weight x" if "v < length (pWork s)" for v x
    using sum_list_nat_update [OF that, of pool_worker_weight x] .
  show ?thesis
  proof (cases l)
    case PLook
    then show ?thesis using st by (auto simp: pool_work_def split: pool_main.splits if_splits)
  next
    case (PGive v)
    then obtain k where k: "pMain s = PSend k" "v < length (pWork s)" "pWork s ! v = PIdle"
      and s': "s' = s\<lparr>pMain := PCheck (k + 1), pWork := (pWork s)[v := PBusy k]\<rparr>"
      using st by (auto split: pool_main.splits if_splits)
    have "k < n" using inv k(1) by (simp add: pool_inv_def)
    then show ?thesis using upd [OF k(2), of "PBusy k"] k by (simp add: pool_work_def s')
  next
    case (PEnd v ok)
    then obtain k where "v < length (pWork s)" "pWork s ! v = PBusy k"
      using st by (auto split: pool_worker.splits if_splits)
    then show ?thesis using st PEnd upd [of v PIdle] upd [of v PExited]
      by (auto simp: pool_work_def split: if_splits)
  next
    case (PQuit v)
    then have "v < length (pWork s)" "pWork s ! v = PIdle" using st by (auto split: if_splits)
    then show ?thesis using st PQuit upd [of v PExited] by (auto simp: pool_work_def split: if_splits)
  next
    case PJoin
    then show ?thesis using st by (auto simp: pool_work_def split: pool_main.splits if_splits)
  qed
qed

interpretation pool: machine "pool_step n" "pool_inv w n" "pool_work n"
  by unfold_locales (fact pool_inv_step, fact pool_work_step)

lemma pool_inv_init: "pool_inv w n (pool_init w)"
  by (auto simp: pool_inv_def pool_init_def in_loop_def taken_def busy_with_def sum_list_replicate)

lemma pool_work_init: "pool_work n (pool_init w) = 3 * n + w + 2"
  by (simp add: pool_work_def pool_init_def sum_list_replicate)

text \<open>The pool comes to rest after its return, or when all goroutines are gone and a task is left to send.\<close>

lemma pool_stuck:
  assumes inv: "pool_inv w n s" and st: "stuck (pool_step n) s"
  shows "(\<exists>ok. pMain s = PReturned ok) \<or> (\<exists>k < n. pMain s = PSend k) \<and> (\<forall>x \<in> set (pWork s). x = PExited)"
proof -
  have no: "pool_step n l s = None" for l using st by (simp add: stuck_def)
  have nb: "\<forall>x \<in> set (pWork s). \<forall>k. x \<noteq> PBusy k"
  proof (intro ballI allI notI)
    fix x k assume "x \<in> set (pWork s)" "x = PBusy k"
    then obtain v where "v < length (pWork s)" "pWork s ! v = PBusy k" by (auto simp: in_set_conv_nth)
    then show False using no [of "PEnd v True"] by simp
  qed
  have ni: "\<forall>x \<in> set (pWork s). x \<noteq> PIdle" if "pClosed s \<or> (\<exists>k. pMain s = PSend k)"
  proof (intro ballI notI)
    fix x assume "x \<in> set (pWork s)" "x = PIdle"
    then obtain v where "v < length (pWork s)" "pWork s ! v = PIdle" by (auto simp: in_set_conv_nth)
    then show False using no [of "PQuit v"] no [of "PGive v"] that by (auto split: if_splits)
  qed
  have ex: "\<forall>x \<in> set (pWork s). x = PExited" if "pClosed s \<or> (\<exists>k. pMain s = PSend k)"
    using ni [OF that] nb by (metis pool_worker.exhaust)
  show ?thesis
  proof (cases "pMain s")
    case (PCheck k)
    then show ?thesis using no [of PLook] by (auto split: if_splits)
  next
    case (PSend k)
    then show ?thesis using ex inv by (auto simp: pool_inv_def)
  next
    case PWait
    then have "pClosed s" using inv by (simp add: pool_inv_def in_loop_def)
    then show ?thesis using no [of PJoin] PWait ex by simp
  next
    case PWaitErr
    then have "pClosed s" using inv by (simp add: pool_inv_def in_loop_def)
    then show ?thesis using no [of PJoin] PWaitErr ex by simp
  qed simp
qed

section \<open>Properties\<close>

text \<open>
  The ranges of the shards partition the keys: where the 64-bit sums do not overflow, every key
  from the smallest to the largest lies in the range of exactly one shard, there are at most as
  many shards as configured, and no two shards have the same file.
\<close>

theorem shards_partition:
  assumes fit: "shards_fit minID maxID (Shards c)" and out: "OutputDir c \<noteq> []"
  shows "(minID \<le> x \<and> x \<le> maxID \<longrightarrow>
      (\<exists>!k. k < length (shard_tasks c minID maxID) \<and> range_at (shard_tasks c minID maxID ! k) x)) \<and>
    int (length (shard_tasks c minID maxID)) \<le> Shards c \<and>
    distinct (map sFile (shard_tasks c minID maxID))"
proof -
  have "int (length (shard_tasks c minID maxID)) \<le> Shards c"
    using shard_loop_length [of c 0] fit by (simp add: shard_tasks_def shards_fit_def)
  then show ?thesis using shard_tasks_cover [OF fit] shard_tasks_files_distinct [OF fit out] by blast
qed

definition two_shards :: SourceConfig where
  "two_shards = \<lparr>Table = ''t'', PKColumn = ''id'', KeyColumn = ''k'', ValColumn = ''v'', Where = ''1=1'', Shards = 2,
     Parallel = 1, OutputDir = ''out'', FilePrefix = ''chunk''\<rparr>"

theorem shards_partition_witness:
  "(\<exists>!k. k < length (shard_tasks two_shards 3 8) \<and> range_at (shard_tasks two_shards 3 8 ! k) 6) \<and>
    int (length (shard_tasks two_shards 3 8)) \<le> 2 \<and> distinct (map sFile (shard_tasks two_shards 3 8))"
  using shards_partition [of 3 8 two_shards 6] by (simp add: two_shards_def shards_fit_def int64_def)

text \<open>
  Overflow: for keys from zero to the largest 64-bit integer the number of keys wraps around to a
  negative number, the step becomes 1, and the default sixteen shards hold the keys 0 to 15 only,
  without an error.
\<close>

theorem shards_overflow:
  "Shards c = 16 \<Longrightarrow>
     map (\<lambda>t. (sStart t, sEnd t)) (shard_tasks c 0 (2 ^ 63 - 1)) = map (\<lambda>k. (int k, int k + 1)) [0..<16]"
proof -
  assume s: "Shards c = 16"
  have step: "shard_step 0 (2 ^ 63 - 1) (Shards c) = 1"
    unfolding s by (simp add: shard_step_def Let_def wrap64_def go_div_def)
  have "map (\<lambda>t. (sStart t, sEnd t)) (shard_loop c 0 (2 ^ 63 - 1) 1 i) = map (\<lambda>k. (int k, int k + 1)) [i..<16]"
    if "i \<le> 16" for i
    using that
  proof (induction "16 - i" arbitrary: i)
    case 0
    then show ?case using s by (simp add: shard_loop.simps)
  next
    case (Suc n)
    then have "i < 16" by simp
    moreover have "wrap64 (int i) = int i" "wrap64 (int i + 1) = int i + 1"
      using \<open>i < 16\<close> by (auto intro!: wrap64_id simp: int64_def)
    moreover have "map (\<lambda>t. (sStart t, sEnd t)) (shard_loop c 0 (2 ^ 63 - 1) 1 (i + 1)) =
        map (\<lambda>k. (int k, int k + 1)) [i + 1..<16]" using Suc by auto
    ultimately show ?case using s by (simp add: shard_loop.simps [of c _ _ 1 i] upt_conv_Cons Let_def)
  qed
  from this [of 0] show ?thesis unfolding shard_tasks_def step by simp
qed

theorem shards_overflow_witness:
  "map (\<lambda>t. (sStart t, sEnd t)) (shard_tasks (two_shards\<lparr>Shards := 16\<rparr>) 0 (2 ^ 63 - 1)) =
     map (\<lambda>k. (int k, int k + 1)) [0..<16]"
  by (rule shards_overflow) simp

text \<open>
  Identifiers are safe in a statement: a quoted identifier is the identifier between two
  backquotes with no backquote and no white space inside, so it cannot end early; everything else
  is refused with an error. Quoting never changes which column or table is named.
\<close>

theorem quoteIdentifier_safe:
  "(\<forall>q. quoteIdentifier s = Inr q \<longrightarrow>
      q = backquote # s @ [backquote] \<and> s \<noteq> [] \<and> (\<forall>x \<in> set s. x \<noteq> backquote \<and> \<not> ascii_space x \<and> ascii x)) \<and>
   (\<not> identifierRe s \<longrightarrow> quoteIdentifier s = Inl (''invalid identifier: '' @ s)) \<and>
   (quoteIdentifier s = quoteIdentifier t \<longrightarrow> s = t)"
proof -
  have "x \<noteq> backquote \<and> \<not> ascii_space x \<and> ascii x" if "identifierRe s" "x \<in> set s" for x
  proof -
    have "ident_start x \<or> is_digit x" using that by (cases s) (auto simp: identifierRe_def)
    then have b: "48 \<le> (of_char x :: nat) \<and> of_char x \<noteq> (96 :: nat) \<and> of_char x < (128 :: nat)"
      by (auto simp: ident_start_def is_digit_def Let_def)
    then have "x \<noteq> backquote" "ascii x" by (auto simp: backquote_def ascii_def)
    moreover have "\<not> ascii_space x" using ascii_space_val [of x] b by linarith
    ultimately show ?thesis by simp
  qed
  moreover have "s \<noteq> []" if "identifierRe s" using that by (simp add: identifierRe_def)
  ultimately show ?thesis by (auto simp: quoteIdentifier_def)
qed

theorem quoteIdentifier_safe_witness:
  "quoteIdentifier ''biz_key'' = Inr (backquote # ''biz_key'' @ [backquote]) \<and>
   quoteIdentifier ''a;b'' = Inl ''invalid identifier: a;b''"
  using quoteIdentifier_safe [of "''a;b''" "''biz_key''"] by (simp add: quoteIdentifier_def identifierRe_def ident_start_def is_digit_def)

end
