(* ===== verification/Mysql_Export.thy ===== *)
theory Mysql_Export
  imports Mysql_Source
begin

text \<open>
  \<^verbatim>\<open>ExportSourceByPKRange\<close> as a whole (\<^verbatim>\<open>batch/mysql_batch/source.go\<close>): the checks and statements before
  the pool, the pool with the files it writes, and the result. The pool with files is a product
  machine over the one of \<^verbatim>\<open>Mysql_Source\<close>, whose invariant and bound it inherits.
\<close>

subsection \<open>Before the pool\<close>

text \<open>
  What the function asks of its surroundings: the operating system and the database. The
  database answers texts of statements; a query for a range gives its rows and the error of
  the iteration.
\<close>

record source_env =
  mkdir_err :: "path \<Rightarrow> string option"
  glob :: "string \<Rightarrow> fs \<Rightarrow> path list result"
  can_remove :: "path \<Rightarrow> bool"
  can_create :: "path \<Rightarrow> bool"
  bounds_row :: "string \<Rightarrow> (int \<times> int \<times> int) result"
  range_rows :: "string \<Rightarrow> int \<Rightarrow> int \<Rightarrow> (sql_row list \<times> string option) result"

definition remove_all :: "source_env \<Rightarrow> path list \<Rightarrow> fs \<Rightarrow> fs" where
  "remove_all e fs d = (\<lambda>p. if p \<in> set fs \<and> can_remove e p then None else d p)"

definition source_columns :: "SourceConfig \<Rightarrow> (string \<times> string \<times> string \<times> string) result" where
  "source_columns c =
     bind_result (quoteIdentifier (Table c)) (\<lambda>table.
     bind_result (quoteIdentifier (PKColumn c)) (\<lambda>pk.
     bind_result (quoteIdentifier (KeyColumn c)) (\<lambda>key.
     bind_result (quoteIdentifier (ValColumn c)) (\<lambda>val. Inr (table, pk, key, val)))))"

definition boundsSQL :: "string \<Rightarrow> string \<Rightarrow> string \<Rightarrow> string" where
  "boundsSQL table pk wher =
     ''SELECT COALESCE(MIN('' @ pk @ ''),0), COALESCE(MAX('' @ pk @ ''),0), COUNT(*) FROM '' @ table @ '' WHERE '' @ wher"

definition querySQL :: "string \<Rightarrow> string \<Rightarrow> string \<Rightarrow> string \<Rightarrow> string \<Rightarrow> string" where
  "querySQL table pk key val wher =
     ''SELECT '' @ pk @ '', '' @ key @ '', '' @ val @ '' FROM '' @ table @ '' WHERE '' @ pk @ '' >= ? AND '' @ pk @
     '' < ? AND '' @ wher @ '' ORDER BY '' @ pk"

datatype export_plan = Early "path list result" | Plan string "shardTask list" nat

definition export_prepare :: "source_env \<Rightarrow> SourceConfig \<Rightarrow> fs \<Rightarrow> export_plan \<times> fs" where
  "export_prepare e cfg d =
     (let c = source_WithDefaults cfg in
      if Table c = [] then (Early (Inl ''source table is required''), d)
      else (case source_columns c of
         Inl er \<Rightarrow> (Early (Inl er), d)
       | Inr (table, pk, key, val) \<Rightarrow>
           (case mkdir_err e (OutputDir c) of
              Some er \<Rightarrow> (Early (Inl er), d)
            | None \<Rightarrow>
                (case glob e (path_join [OutputDir c, FilePrefix c @ ''-*.txt'']) d of
                   Inl er \<Rightarrow> (Early (Inl er), d)
                 | Inr oldFiles \<Rightarrow>
                     (let d1 = remove_all e oldFiles d in
                      case bounds_row e (boundsSQL table pk (Where c)) of
                        Inl er \<Rightarrow> (Early (Inl er), d1)
                      | Inr (minID, maxID, rowCount) \<Rightarrow>
                          if rowCount = 0 then (Early (Inr []), d1)
                          else (let tasks = shard_tasks c minID maxID in
                            (Plan (querySQL table pk key val (Where c)) tasks (nat (pool_size (Parallel c) (length tasks))),
                             d1)))))))"

subsection \<open>The pool with its files\<close>

text \<open>
  A shard is exported in one step: the goroutines write different files, and nobody reads them
  before the pool has returned. The first error is the one returned, since \<^verbatim>\<open>errCh\<close> holds one error and
  the first read of it ends the function.
\<close>

record export_st =
  xPool :: pool_st
  xDisk :: fs
  xErr :: "string option"

definition is_ok :: "'a result \<Rightarrow> bool" where
  "is_ok r = (case r of Inl _ \<Rightarrow> False | Inr _ \<Rightarrow> True)"

definition note_err :: "unit result \<Rightarrow> string option \<Rightarrow> string option" where
  "note_err r er = (case er of Some x \<Rightarrow> Some x | None \<Rightarrow> (case r of Inl x \<Rightarrow> Some x | Inr _ \<Rightarrow> None))"

fun export_step :: "source_env \<Rightarrow> string \<Rightarrow> shardTask list \<Rightarrow> pool_label \<Rightarrow> export_st \<Rightarrow> export_st option" where
  "export_step e q tasks (PEnd v ok) x =
     (if v < length (pWork (xPool x))
      then (case pWork (xPool x) ! v of
              PBusy k \<Rightarrow>
                (case exportOneShard (range_rows e q) (can_create e) (tasks ! k) (xDisk x) of
                   (r, d') \<Rightarrow>
                     (if ok = is_ok r
                      then map_option (\<lambda>s. \<lparr>xPool = s, xDisk = d', xErr = note_err r (xErr x)\<rparr>)
                             (pool_step (length tasks) (PEnd v ok) (xPool x))
                      else None))
            | _ \<Rightarrow> None)
      else None)"
| "export_step e q tasks l x = map_option (\<lambda>s. x\<lparr>xPool := s\<rparr>) (pool_step (length tasks) l (xPool x))"

definition export_init :: "nat \<Rightarrow> fs \<Rightarrow> export_st" where
  "export_init w d = \<lparr>xPool = pool_init w, xDisk = d, xErr = None\<rparr>"

text \<open>The function: a result and the disk it leaves, for some scheduling of the goroutines.\<close>

definition ExportSourceByPKRange ::
  "source_env \<Rightarrow> SourceConfig \<Rightarrow> fs \<Rightarrow> path list result \<Rightarrow> fs \<Rightarrow> bool" where
  "ExportSourceByPKRange e cfg d res d' \<longleftrightarrow>
     (case export_prepare e cfg d of
        (Early r, d1) \<Rightarrow> res = r \<and> d' = d1
      | (Plan q tasks w, d1) \<Rightarrow>
          (\<exists>x. reach (export_step e q tasks) (export_init w d1) x \<and> d' = xDisk x \<and>
             (pMain (xPool x) = PReturned True \<and> res = Inr (map sFile tasks) \<or>
              pMain (xPool x) = PReturned False \<and> res = Inl (the (xErr x)))))"

definition SourceAdapter_Export :: "source_env \<Rightarrow> SourceConfig \<Rightarrow> fs \<Rightarrow> path list result \<Rightarrow> fs \<Rightarrow> bool" where
  "SourceAdapter_Export e cfg d res d' \<longleftrightarrow> ExportSourceByPKRange e cfg d res d'"

subsection \<open>The product machine\<close>

lemma export_pool_step:
  "export_step e q tasks l x = Some x' \<Longrightarrow> pool_step (length tasks) l (xPool x) = Some (xPool x')"
  by (cases l) (auto split: pool_worker.splits if_splits prod.splits option.splits)

lemma export_stuck_pool:
  assumes "stuck (export_step e q tasks) x"
  shows "stuck (pool_step (length tasks)) (xPool x)"
proof -
  have no: "export_step e q tasks l x = None" for l using assms by (simp add: stuck_def)
  have "pool_step (length tasks) l (xPool x) = None" for l
  proof (cases l)
    case (PEnd v ok)
    show ?thesis
    proof (cases "v < length (pWork (xPool x)) \<and> (\<exists>k. pWork (xPool x) ! v = PBusy k)")
      case True
      then obtain k where k: "pWork (xPool x) ! v = PBusy k" by blast
      obtain r d' where r: "exportOneShard (range_rows e q) (can_create e) (tasks ! k) (xDisk x) = (r, d')"
        by (cases "exportOneShard (range_rows e q) (can_create e) (tasks ! k) (xDisk x)")
      then show ?thesis using no [of "PEnd v (is_ok r)"] True k by (simp split: if_splits)
    next
      case False
      then show ?thesis using PEnd by (auto split: pool_worker.splits)
    qed
  qed (use no [of l] in \<open>simp_all del: pool_step.simps\<close>)
  then show ?thesis by (simp add: stuck_def)
qed

text \<open>The file of a task holds the rows of its range, all of them.\<close>

definition shard_done :: "source_env \<Rightarrow> string \<Rightarrow> shardTask \<Rightarrow> fs \<Rightarrow> bool" where
  "shard_done e q t d \<longleftrightarrow>
     (\<exists>rows. range_rows e q (sStart t) (sEnd t) = Inr (rows, None) \<and> d (sFile t) = Some (concat (map shard_line rows)))"

definition export_inv :: "source_env \<Rightarrow> string \<Rightarrow> shardTask list \<Rightarrow> nat \<Rightarrow> fs \<Rightarrow> export_st \<Rightarrow> bool" where
  "export_inv e q tasks w d x \<longleftrightarrow>
     pool_inv w (length tasks) (xPool x) \<and> distinct (map sFile tasks) \<and>
     (\<forall>k. 0 < taken k (xPool x) \<longrightarrow> k < length tasks) \<and>
     (\<forall>k \<in> set (exported (xPool x)). shard_done e q (tasks ! k) (xDisk x)) \<and>
     (pErr (xPool x) \<or> pMain (xPool x) \<in> {PWaitErr, PReturned False} \<longrightarrow> xErr x \<noteq> None) \<and>
     (\<forall>p. p \<notin> sFile ` set tasks \<longrightarrow> xDisk x p = d p)"

lemma exportOneShard_ok:
  "exportOneShard qry cr t d = (Inr u, d') \<Longrightarrow>
     \<exists>rows. qry (sStart t) (sEnd t) = Inr (rows, None) \<and> d' = d(sFile t \<mapsto> concat (map shard_line rows))"
  by (auto simp: exportOneShard_def split: sum.splits prod.splits if_splits option.splits)

lemma exportOneShard_frame:
  "exportOneShard qry cr t d = (r, d') \<Longrightarrow> p \<noteq> sFile t \<Longrightarrow> d' p = d p"
  by (auto simp: exportOneShard_def split: sum.splits prod.splits if_splits option.splits)

lemma busy_taken: "v < length (pWork s) \<Longrightarrow> pWork s ! v = PBusy k \<Longrightarrow> count_list (exported s) k < taken k s"
  using sum_list_nat_nth [of v "pWork s" "busy_with k"] by (simp add: taken_def busy_with_def)

lemma pool_taken_step:
  assumes inv: "pool_inv w n s" and st: "pool_step n l s = Some s'" and t: "0 < taken k s'"
  shows "0 < taken k s \<or> k < n"
proof (cases l)
  case (PGive v)
  then obtain j where j: "pMain s = PSend j" "v < length (pWork s)" "pWork s ! v = PIdle"
    and s': "s' = s\<lparr>pMain := PCheck (j + 1), pWork := (pWork s)[v := PBusy j]\<rparr>"
    using st by (auto split: pool_main.splits if_splits)
  have "j < n" using inv j(1) by (simp add: pool_inv_def)
  moreover have "taken k s' = taken k s + (if k = j then 1 else 0)"
    using taken_update [OF j(2), of s' "[]" "PBusy j" k] j(3) by (simp add: s' busy_with_def)
  ultimately show ?thesis using t by (auto split: if_splits)
next
  case (PEnd v ok)
  then obtain j where j: "v < length (pWork s)" "pWork s ! v = PBusy j"
    using st by (auto split: pool_worker.splits if_splits)
  show ?thesis using t st j PEnd taken_update [OF j(1), of s' "[j]" PIdle k] taken_update [OF j(1), of s' "[]" PExited k]
    by (auto simp: busy_with_def split: if_splits)
next
  case (PQuit v)
  then have j: "v < length (pWork s)" "pWork s ! v = PIdle"
    and s': "s' = s\<lparr>pWork := (pWork s)[v := PExited]\<rparr>" using st by (auto split: if_splits)
  show ?thesis using t taken_update [OF j(1), of s' "[]" PExited k] j(2) by (simp add: s' busy_with_def)
qed (use st t in \<open>auto simp: taken_def split: pool_main.splits if_splits\<close>)

lemma pool_end_fields:
  "pool_step n (PEnd v ok) s = Some s' \<Longrightarrow> pWork s ! v = PBusy k \<Longrightarrow>
     exported s' = (if ok then k # exported s else exported s) \<and>
     pErr s' = (\<not> ok \<or> pErr s) \<and> pMain s' = pMain s"
  by (auto split: if_splits)

lemma pool_other_fields:
  "pool_step n l s = Some s' \<Longrightarrow> \<nexists>v ok. l = PEnd v ok \<Longrightarrow>
     exported s' = exported s \<and>
     (pErr s' \<or> pMain s' \<in> {PWaitErr, PReturned False} \<longrightarrow> pErr s \<or> pMain s \<in> {PWaitErr, PReturned False})"
  by (cases l) (auto split: pool_main.splits if_splits)

lemma export_inv_end:
  assumes inv: "export_inv e q tasks w d x" and st: "export_step e q tasks (PEnd v ok) x = Some x'"
  shows "export_inv e q tasks w d x'"
proof -
  obtain k r d' where k: "v < length (pWork (xPool x))" "pWork (xPool x) ! v = PBusy k"
    and r: "exportOneShard (range_rows e q) (can_create e) (tasks ! k) (xDisk x) = (r, d')" and ok: "ok = is_ok r"
    and ps: "pool_step (length tasks) (PEnd v ok) (xPool x) = Some (xPool x')"
    and x': "xDisk x' = d'" "xErr x' = note_err r (xErr x)"
    using st by (auto split: pool_worker.splits if_splits prod.splits)
  have pinv: "pool_inv w (length tasks) (xPool x)" and dist: "distinct (map sFile tasks)"
    and rng: "\<And>k. 0 < taken k (xPool x) \<Longrightarrow> k < length tasks" using inv by (auto simp: export_inv_def)
  have lt: "k < length tasks" using rng busy_taken [OF k] by simp
  have fr: "d' (sFile (tasks ! j)) = xDisk x (sFile (tasks ! j))" if "j \<in> set (exported (xPool x))" for j
  proof -
    have c: "0 < count_list (exported (xPool x)) j" using that by (simp add: count_list_pos)
    then have "0 < taken j (xPool x)" by (simp add: taken_def)
    then have "j < length tasks" by (rule rng)
    moreover have "j \<noteq> k" using busy_taken [OF k] pinv c by (auto simp: pool_inv_def dest!: spec [of _ k])
    ultimately have "sFile (tasks ! j) \<noteq> sFile (tasks ! k)" using dist lt by (auto simp: distinct_conv_nth)
    then show ?thesis by (rule exportOneShard_frame [OF r])
  qed
  have ex: "exported (xPool x') = (if ok then k # exported (xPool x) else exported (xPool x))"
    "pErr (xPool x') = (\<not> ok \<or> pErr (xPool x))" "pMain (xPool x') = pMain (xPool x)"
    using pool_end_fields [OF ps k(2)] by simp_all
  have "\<forall>j \<in> set (exported (xPool x')). shard_done e q (tasks ! j) d'"
  proof
    fix j assume "j \<in> set (exported (xPool x'))"
    then consider "j \<in> set (exported (xPool x))" | "ok" "j = k" using ex by (auto split: if_splits)
    then show "shard_done e q (tasks ! j) d'"
    proof cases
      case 1
      then show ?thesis using inv fr by (auto simp: export_inv_def shard_done_def)
    next
      case 2
      then show ?thesis using exportOneShard_ok r ok by (fastforce simp: is_ok_def shard_done_def split: sum.splits)
    qed
  qed
  moreover have "\<forall>p. p \<notin> sFile ` set tasks \<longrightarrow> d' p = d p"
  proof (intro allI impI)
    fix p assume p: "p \<notin> sFile ` set tasks"
    then have "p \<noteq> sFile (tasks ! k)" using lt by auto
    then show "d' p = d p" using exportOneShard_frame [OF r] inv p by (simp add: export_inv_def)
  qed
  moreover have "\<not> ok \<Longrightarrow> note_err r (xErr x) \<noteq> None" "xErr x \<noteq> None \<Longrightarrow> note_err r (xErr x) \<noteq> None"
    using ok by (auto simp: is_ok_def note_err_def split: sum.splits option.splits)
  moreover have "\<forall>j. 0 < taken j (xPool x') \<longrightarrow> j < length tasks" using pool_taken_step [OF pinv ps] rng by blast
  ultimately show ?thesis
    using pool_inv_step [OF pinv ps] inv unfolding export_inv_def x' ex by (auto split: if_splits)
qed

lemma export_inv_step:
  assumes inv: "export_inv e q tasks w d x" and st: "export_step e q tasks l x = Some x'"
  shows "export_inv e q tasks w d x'"
proof (cases "\<exists>v ok. l = PEnd v ok")
  case True
  then show ?thesis using export_inv_end [OF inv] st by blast
next
  case False
  note ps = export_pool_step [OF st]
  have x': "xDisk x' = xDisk x" "xErr x' = xErr x" using st False by (cases l; auto)+
  have ex: "exported (xPool x') = exported (xPool x)"
    using pool_other_fields [OF ps False] by simp
  have pinv: "pool_inv w (length tasks) (xPool x)" using inv by (simp add: export_inv_def)
  have "pErr (xPool x') \<or> pMain (xPool x') \<in> {PWaitErr, PReturned False} \<Longrightarrow>
      pErr (xPool x) \<or> pMain (xPool x) \<in> {PWaitErr, PReturned False}"
    using pool_other_fields [OF ps False] by blast
  then show ?thesis
    using inv pool_inv_step [OF pinv ps] pool_taken_step [OF pinv ps] unfolding export_inv_def x' ex by blast
qed

interpretation export: machine "export_step e q tasks" "export_inv e q tasks w d" "\<lambda>x. pool_work (length tasks) (xPool x)"
proof
  show "export_inv e q tasks w d x'" if "export_inv e q tasks w d x" "export_step e q tasks l x = Some x'" for x l x'
    using that by (rule export_inv_step)
  show "pool_work (length tasks) (xPool x') < pool_work (length tasks) (xPool x)"
    if "export_inv e q tasks w d x" "export_step e q tasks l x = Some x'" for x l x'
    using that pool_work_step export_pool_step by (metis export_inv_def)
qed

lemma export_inv_init: "distinct (map sFile tasks) \<Longrightarrow> export_inv e q tasks w d (export_init w d)"
  using pool_inv_init
  by (auto simp: export_inv_def export_init_def taken_def busy_with_def pool_init_def sum_list_replicate)

text \<open>A successful return has exported every shard.\<close>

lemma exited_not_busy: "\<forall>y \<in> set ys. y = PExited \<Longrightarrow> sum_list (map (busy_with k) ys) = 0"
  by (induction ys) (auto simp: busy_with_def)

lemma export_returned:
  assumes "distinct (map sFile tasks)" "reach (export_step e q tasks) (export_init w d) x"
    and ret: "pMain (xPool x) = PReturned True" and k: "k < length tasks"
  shows "shard_done e q (tasks ! k) (xDisk x)"
proof -
  have inv: "export_inv e q tasks w d x"
    using export.reach_inv [OF assms(2)] export_inv_init [OF assms(1)] by blast
  then have p: "pool_inv w (length tasks) (xPool x)" by (simp add: export_inv_def)
  have "taken k (xPool x) = 1" "\<forall>y \<in> set (pWork (xPool x)). y = PExited" using p ret k by (auto simp: pool_inv_def)
  then have "count_list (exported (xPool x)) k = 1" by (simp add: taken_def exited_not_busy)
  then have "k \<in> set (exported (xPool x))" using count_list_pos [of "exported (xPool x)" k] by simp
  then show ?thesis using inv by (simp add: export_inv_def)
qed

subsection \<open>Exports that do not fail\<close>

text \<open>No query of a range and no creation of a file fails.\<close>

definition exports_succeed :: "source_env \<Rightarrow> string \<Rightarrow> shardTask list \<Rightarrow> bool" where
  "exports_succeed e q tasks \<longleftrightarrow>
     (\<forall>t \<in> set tasks. can_create e (sFile t) \<and> (\<exists>rows. range_rows e q (sStart t) (sEnd t) = Inr (rows, None)))"

definition export_clean :: "source_env \<Rightarrow> string \<Rightarrow> shardTask list \<Rightarrow> nat \<Rightarrow> fs \<Rightarrow> export_st \<Rightarrow> bool" where
  "export_clean e q tasks w d x \<longleftrightarrow>
     export_inv e q tasks w d x \<and> exports_succeed e q tasks \<and> xErr x = None"

lemma export_clean_step:
  assumes cl: "export_clean e q tasks w d x" and st: "export_step e q tasks l x = Some x'"
  shows "export_clean e q tasks w d x'"
proof -
  have inv: "export_inv e q tasks w d x" using cl by (simp add: export_clean_def)
  have "xErr x' = None"
  proof (cases "\<exists>v ok. l = PEnd v ok")
    case True
    then obtain v ok where l: "l = PEnd v ok" by blast
    then obtain k r d' where k: "v < length (pWork (xPool x))" "pWork (xPool x) ! v = PBusy k"
      and r: "exportOneShard (range_rows e q) (can_create e) (tasks ! k) (xDisk x) = (r, d')"
      and x': "xErr x' = note_err r (xErr x)"
      using st by (auto split: pool_worker.splits if_splits prod.splits)
    have "k < length tasks" using busy_taken [OF k] inv by (auto simp: export_inv_def)
    then have "can_create e (sFile (tasks ! k))"
      and "\<exists>rows. range_rows e q (sStart (tasks ! k)) (sEnd (tasks ! k)) = Inr (rows, None)"
      using cl by (auto simp: export_clean_def exports_succeed_def)
    then have "r = Inr ()" using r by (auto simp: exportOneShard_def)
    then show ?thesis using x' cl by (simp add: note_err_def export_clean_def)
  next
    case False
    then show ?thesis using st cl by (cases l) (auto simp: export_clean_def)
  qed
  then show ?thesis using cl export_inv_step [OF inv st] by (simp add: export_clean_def)
qed

interpretation export_ok: machine "export_step e q tasks" "export_clean e q tasks w d" "\<lambda>x. pool_work (length tasks) (xPool x)"
proof
  show "export_clean e q tasks w d x'" if "export_clean e q tasks w d x" "export_step e q tasks l x = Some x'" for x l x'
    using that by (rule export_clean_step)
  show "pool_work (length tasks) (xPool x') < pool_work (length tasks) (xPool x)"
    if "export_clean e q tasks w d x" "export_step e q tasks l x = Some x'" for x l x'
    using that export.work_step by (metis export_clean_def)
qed

lemma export_clean_init:
  "distinct (map sFile tasks) \<Longrightarrow> exports_succeed e q tasks \<Longrightarrow> export_clean e q tasks w d (export_init w d)"
  using export_inv_init by (simp add: export_clean_def export_init_def)

text \<open>Without a failure the pool cannot come to rest before it returns, and it returns a success.\<close>

lemma export_clean_stuck:
  assumes cl: "export_clean e q tasks w d x" and st: "stuck (export_step e q tasks) x" and w: "0 < w"
  shows "pMain (xPool x) = PReturned True"
proof -
  have inv: "pool_inv w (length tasks) (xPool x)" and ne: "\<not> pErr (xPool x)" "pMain (xPool x) \<noteq> PReturned False"
    using cl by (auto simp: export_clean_def export_inv_def)
  have "length (pWork (xPool x)) = w" using inv by (simp add: pool_inv_def)
  then have "hd (pWork (xPool x)) \<in> set (pWork (xPool x))" using w by (intro hd_in_set) auto
  then have "\<not> (\<forall>y \<in> set (pWork (xPool x)). y = PExited)" if "pMain (xPool x) = PSend k" for k
    using inv ne(1) that by (auto simp: pool_inv_def in_loop_def)
  then show ?thesis using pool_stuck [OF inv export_stuck_pool [OF st]] ne(2) by (metis (full_types))
qed

lemma export_run_exists:
  assumes "distinct (map sFile tasks)" "exports_succeed e q tasks" "0 < w"
  shows "\<exists>x. reach (export_step e q tasks) (export_init w d) x \<and> pMain (xPool x) = PReturned True"
proof -
  note init = export_clean_init [OF assms(1,2), of w d]
  obtain ls x where x: "exec (export_step e q tasks) ls (export_init w d) = Some x" "stuck (export_step e q tasks) x"
    using export_ok.run_to_stuck [OF init] by blast
  have "reach (export_step e q tasks) (export_init w d) x" using exec_reach [OF x(1) reach.start] .
  moreover have "export_clean e q tasks w d x" using export_ok.exec_inv [OF x(1) init] .
  ultimately show ?thesis using export_clean_stuck x(2) assms(3) by blast
qed

lemma export_never_fails:
  assumes "distinct (map sFile tasks)" "exports_succeed e q tasks" "reach (export_step e q tasks) (export_init w d) x"
  shows "pMain (xPool x) \<noteq> PReturned False"
proof -
  have "export_clean e q tasks w d x" using export_ok.reach_inv [OF assms(3)] export_clean_init [OF assms(1,2)] by blast
  then show ?thesis by (auto simp: export_clean_def export_inv_def)
qed

subsection \<open>Tables\<close>

text \<open>Consecutive ranges cut a table that is ordered by its key.\<close>

definition in_range :: "int \<Rightarrow> int \<Rightarrow> (int \<times> sql_row) list \<Rightarrow> (int \<times> sql_row) list" where
  "in_range a b tbl = filter (\<lambda>r. a \<le> fst r \<and> fst r < b) tbl"

lemma in_range_append:
  assumes "sorted (map fst tbl)" "a \<le> b" "b \<le> c"
  shows "in_range a b tbl @ in_range b c tbl = in_range a c tbl"
  using assms
proof (induction tbl)
  case (Cons r tbl)
  show ?case
  proof (cases "b \<le> fst r")
    case True
    then have "in_range a b (r # tbl) = []" using Cons.prems by (auto simp: in_range_def filter_empty_conv)
    moreover have "in_range b c (r # tbl) = in_range a c (r # tbl)"
      unfolding in_range_def using Cons.prems True by (intro filter_cong) auto
    ultimately show ?thesis by simp
  next
    case False
    then show ?thesis using Cons by (auto simp: in_range_def)
  qed
qed (simp add: in_range_def)

lemma ranges_concat:
  assumes "sorted (map fst tbl)" "0 \<le> s"
  shows "concat (map (\<lambda>k. in_range (m + int k * s) (m + int (k + 1) * s) tbl) [0..<n]) = in_range m (m + int n * s) tbl"
proof (induction n)
  case (Suc n)
  have "m + int n * s \<le> m + int (Suc n) * s" using assms(2) by (simp add: distrib_right)
  moreover have "m \<le> m + int n * s" using assms(2) by simp
  ultimately show ?case using in_range_append [OF assms(1)] Suc by simp
qed (simp add: in_range_def)

lemma in_range_all: "\<forall>r \<in> set tbl. a \<le> fst r \<and> fst r < b \<Longrightarrow> in_range a b tbl = tbl"
  by (simp add: in_range_def)

lemma sorted_fst_bounds:
  assumes "sorted (map fst tbl)" "r \<in> set tbl"
  shows "fst (hd tbl) \<le> fst r" "fst r \<le> (fst (last tbl) :: int)"
proof -
  obtain i where i: "i < length tbl" "r = tbl ! i" using assms(2) by (auto simp: in_set_conv_nth)
  have "map fst tbl ! 0 \<le> map fst tbl ! i" "map fst tbl ! i \<le> map fst tbl ! (length tbl - 1)"
    using i(1) by (intro sorted_nth_mono [OF assms(1)]; simp)+
  then show "fst (hd tbl) \<le> fst r" "fst r \<le> fst (last tbl)"
    using i by (simp_all add: hd_conv_nth last_conv_nth flip: length_greater_0_conv)
qed

lemma tasks_rows:
  assumes fit: "shards_fit (fst (hd tbl)) (fst (last tbl)) (Shards c)" and srt: "sorted (map fst tbl)"
  shows "concat (map (\<lambda>t. in_range (sStart t) (sEnd t) tbl) (shard_tasks c (fst (hd tbl)) (fst (last tbl)))) = tbl"
proof -
  let ?m = "fst (hd tbl)" let ?M = "fst (last tbl)"
  let ?s = "shard_step ?m ?M (Shards c)"
  let ?N = "nat ((?M - ?m) div ?s + 1)"
  have s: "1 \<le> ?s" using shard_step_eq [OF fit] by simp
  have "0 \<le> (?M - ?m) div ?s" using fit s by (simp add: shards_fit_def pos_imp_zdiv_nonneg_iff)
  then have N: "int ?N = (?M - ?m) div ?s + 1" by simp
  have "(?M - ?m) mod ?s < ?s" using s by simp
  moreover have "?M - ?m = (?M - ?m) div ?s * ?s + (?M - ?m) mod ?s" by simp
  ultimately have "?M - ?m < int ?N * ?s" unfolding N distrib_right by linarith
  then have "\<forall>r \<in> set tbl. ?m \<le> fst r \<and> fst r < ?m + int ?N * ?s"
    using sorted_fst_bounds [OF srt] by fastforce
  then show ?thesis
    using ranges_concat [OF srt, of ?s ?m ?N] s in_range_all unfolding shard_tasks_eq [OF fit]
    by (simp add: comp_def)
qed

text \<open>
  Surroundings in which nothing fails: directories and files can be made, old files can be
  listed, and the database answers the two statements for a table ordered by its primary key.
\<close>

definition bounds_of :: "(int \<times> sql_row) list \<Rightarrow> int \<times> int \<times> int" where
  "bounds_of tbl = (if tbl = [] then (0, 0, 0) else (fst (hd tbl), fst (last tbl), int (length tbl)))"

definition serves_table :: "source_env \<Rightarrow> SourceConfig \<Rightarrow> (int \<times> sql_row) list \<Rightarrow> bool" where
  "serves_table e c tbl \<longleftrightarrow>
     sorted (map fst tbl) \<and> (\<forall>p. mkdir_err e p = None) \<and> (\<forall>p d. \<exists>olds. glob e p d = Inr olds) \<and>
     (\<forall>p. can_create e p) \<and>
     (case source_columns c of
        Inl er \<Rightarrow> False
      | Inr (table, pk, key, val) \<Rightarrow>
          bounds_row e (boundsSQL table pk (Where c)) = Inr (bounds_of tbl) \<and>
          (\<forall>a b. range_rows e (querySQL table pk key val (Where c)) a b = Inr (map snd (in_range a b tbl), None)))"

definition export_good :: "(int \<times> sql_row) list \<Rightarrow> path list \<Rightarrow> fs \<Rightarrow> bool" where
  "export_good tbl fs d \<longleftrightarrow>
     distinct fs \<and> (\<forall>f \<in> set fs. d f \<noteq> None) \<and>
     concat (map (\<lambda>f. the (d f)) fs) = concat (map (\<lambda>r. shard_line (snd r)) tbl)"

lemma source_columns_table: "source_columns c = Inr y \<Longrightarrow> Table c \<noteq> []"
  by (auto simp: source_columns_def bind_result_Inr_iff quoteIdentifier_def identifierRe_def split: if_splits)

lemma export_prepare_serves:
  assumes srv: "serves_table e (source_WithDefaults cfg) tbl"
  shows "\<exists>q d1. (\<forall>a b. range_rows e q a b = Inr (map snd (in_range a b tbl), None)) \<and>
    (\<forall>p. d1 p = None \<or> d1 p = d p) \<and>
    export_prepare e cfg d =
      (if tbl = [] then (Early (Inr []), d1)
       else (let tasks = shard_tasks (source_WithDefaults cfg) (fst (hd tbl)) (fst (last tbl))
             in (Plan q tasks (nat (pool_size (Parallel (source_WithDefaults cfg)) (length tasks))), d1)))"
proof -
  let ?c = "source_WithDefaults cfg"
  obtain table pk key val where col: "source_columns ?c = Inr (table, pk, key, val)"
    using srv by (auto simp: serves_table_def split: sum.splits)
  obtain olds where g: "glob e (path_join [OutputDir ?c, FilePrefix ?c @ ''-*.txt'']) d = Inr olds"
    using srv unfolding serves_table_def by blast
  have b: "bounds_row e (boundsSQL table pk (Where ?c)) = Inr (bounds_of tbl)"
    and r: "\<forall>a b. range_rows e (querySQL table pk key val (Where ?c)) a b = Inr (map snd (in_range a b tbl), None)"
    and m: "mkdir_err e (OutputDir ?c) = None" using srv col by (auto simp: serves_table_def)
  show ?thesis
    by (rule exI [of _ "querySQL table pk key val (Where ?c)"], rule exI [of _ "remove_all e olds d"])
      (use source_columns_table [OF col] col g b r m in \<open>simp add: export_prepare_def Let_def bounds_of_def remove_all_def\<close>)
qed

lemma tasks_text:
  assumes srt: "sorted (map fst tbl)" and fit: "shards_fit (fst (hd tbl)) (fst (last tbl)) (Shards c)"
    and tasks: "tasks = shard_tasks c (fst (hd tbl)) (fst (last tbl))" and dist: "distinct (map sFile tasks)"
    and d': "\<forall>t \<in> set tasks. d' (sFile t) = Some (concat (map (\<lambda>r. shard_line (snd r)) (in_range (sStart t) (sEnd t) tbl)))"
  shows "export_good tbl (map sFile tasks) d'"
proof -
  have "concat (map (\<lambda>f. the (d' f)) (map sFile tasks)) =
      concat (map (\<lambda>t. concat (map (\<lambda>r. shard_line (snd r)) (in_range (sStart t) (sEnd t) tbl))) tasks)"
    using d' by (simp add: comp_def cong: map_cong)
  moreover have "\<dots> = concat (map (\<lambda>r. shard_line (snd r)) (concat (map (\<lambda>t. in_range (sStart t) (sEnd t) tbl) tasks)))"
    by (induction tasks) auto
  ultimately show ?thesis using tasks_rows [OF fit srt] dist d' by (auto simp: export_good_def tasks)
qed

text \<open>What every export of a table that is served leaves: a file per range, and nothing else that is new.\<close>

definition export_left :: "(int \<times> sql_row) list \<Rightarrow> SourceConfig \<Rightarrow> fs \<Rightarrow> path list \<Rightarrow> fs \<Rightarrow> bool" where
  "export_left tbl c d fs d' \<longleftrightarrow>
     (let tasks = shard_tasks c (fst (hd tbl)) (fst (last tbl)) in
      fs = map sFile tasks \<and> distinct fs \<and>
      (\<forall>t \<in> set tasks. d' (sFile t) = Some (concat (map (\<lambda>r. shard_line (snd r)) (in_range (sStart t) (sEnd t) tbl)))) \<and>
      (\<forall>p. p \<notin> set fs \<longrightarrow> d' p = None \<or> d' p = d p))"

lemma export_runs:
  assumes srv: "serves_table e (source_WithDefaults cfg) tbl" and ne: "tbl \<noteq> []"
    and fit: "shards_fit (fst (hd tbl)) (fst (last tbl)) (Shards (source_WithDefaults cfg))"
  shows "(\<exists>fs d'. ExportSourceByPKRange e cfg d (Inr fs) d') \<and>
    (\<forall>res d'. ExportSourceByPKRange e cfg d res d' \<longrightarrow>
       (\<exists>fs. res = Inr fs \<and> export_left tbl (source_WithDefaults cfg) d fs d'))"
proof -
  let ?c = "source_WithDefaults cfg"
  define tasks where "tasks = shard_tasks ?c (fst (hd tbl)) (fst (last tbl))"
  define w where "w = nat (pool_size (Parallel ?c) (length tasks))"
  obtain q d1 where q: "\<forall>a b. range_rows e q a b = Inr (map snd (in_range a b tbl), None)"
    and d1: "\<forall>p. d1 p = None \<or> d1 p = d p" and pl: "export_prepare e cfg d = (Plan q tasks w, d1)"
    using export_prepare_serves [OF srv, of d] ne by (auto simp: tasks_def w_def Let_def)
  have out: "OutputDir ?c \<noteq> []" by (simp add: source_WithDefaults_def or_default_def)
  have dist: "distinct (map sFile tasks)" unfolding tasks_def by (rule shard_tasks_files_distinct [OF fit out])
  have ok: "exports_succeed e q tasks" using srv q by (auto simp: exports_succeed_def serves_table_def)
  have w: "0 < w" by (simp add: w_def pool_size_def Let_def)
  have left: "export_left tbl ?c d (map sFile tasks) (xDisk x)"
    if x: "reach (export_step e q tasks) (export_init w d1) x" "pMain (xPool x) = PReturned True" for x
  proof -
    have "export_inv e q tasks w d1 x" using export.reach_inv [OF x(1)] export_inv_init [OF dist] by blast
    then have "\<forall>p. p \<notin> sFile ` set tasks \<longrightarrow> xDisk x p = d1 p" by (simp add: export_inv_def)
    moreover have "xDisk x (sFile t) = Some (concat (map (\<lambda>r. shard_line (snd r)) (in_range (sStart t) (sEnd t) tbl)))"
      if "t \<in> set tasks" for t
      using that q export_returned [OF dist x] by (auto simp: in_set_conv_nth shard_done_def comp_def)
    ultimately show ?thesis using dist d1 unfolding export_left_def Let_def tasks_def [symmetric] by auto
  qed
  show ?thesis
    using export_run_exists [OF dist ok w, of d1] export_never_fails [OF dist ok] left
    by (auto simp: ExportSourceByPKRange_def pl)
qed

lemma export_empty:
  assumes "serves_table e (source_WithDefaults cfg) []" "ExportSourceByPKRange e cfg d res d'"
  shows "res = Inr []"
  using export_prepare_serves [OF assms(1), of d] assms(2) by (auto simp: ExportSourceByPKRange_def)

lemma export_empty_run:
  assumes "serves_table e (source_WithDefaults cfg) []"
  shows "\<exists>d'. ExportSourceByPKRange e cfg d (Inr []) d'"
  using export_prepare_serves [OF assms(1), of d] by (auto simp: ExportSourceByPKRange_def)

subsection \<open>Pools at rest\<close>

lemma pool_taken_range:
  assumes "exec (pool_step n) ls (pool_init w) = Some s"
  shows "\<forall>k. 0 < taken k s \<longrightarrow> k < n"
proof -
  have "exec (pool_step n) ls s0 = Some s \<Longrightarrow> pool_inv w n s0 \<Longrightarrow> \<forall>k. 0 < taken k s0 \<longrightarrow> k < n \<Longrightarrow>
      \<forall>k. 0 < taken k s \<longrightarrow> k < n" for s0
  proof (induction ls arbitrary: s0)
    case (Cons l ls)
    then obtain s1 where s1: "pool_step n l s0 = Some s1" "exec (pool_step n) ls s1 = Some s" by (auto split: option.splits)
    show ?case using Cons.IH [OF s1(2)] pool_inv_step [OF Cons.prems(2) s1(1)] pool_taken_step [OF Cons.prems(2) s1(1)] Cons.prems(3)
      by blast
  qed simp
  moreover have "taken k (pool_init w) = 0" for k
    by (simp add: taken_def pool_init_def busy_with_def sum_list_replicate)
  ultimately show ?thesis using assms pool_inv_init by simp
qed

lemma count_mset_upt: "count (mset [0..<n]) k = (if k < n then 1 else 0)"
  by (induction n) auto

text \<open>The first \<open>j\<close> goroutines hold the first \<open>j\<close> tasks, or have all ended with errors.\<close>

definition handed :: "nat \<Rightarrow> nat \<Rightarrow> fs \<Rightarrow> export_st" where
  "handed w j d = \<lparr>xPool = \<lparr>pWork = map PBusy [0..<j] @ replicate (w - j) PIdle, pErr = False, pClosed = False,
     pMain = PCheck j, exported = []\<rparr>, xDisk = d, xErr = None\<rparr>"

definition failed :: "nat \<Rightarrow> nat \<Rightarrow> string \<Rightarrow> fs \<Rightarrow> export_st" where
  "failed w j er d = \<lparr>xPool = \<lparr>pWork = replicate j PExited @ map PBusy [j..<w], pErr = (0 < j), pClosed = False,
     pMain = PSend w, exported = []\<rparr>, xDisk = d, xErr = (if 0 < j then Some er else None)\<rparr>"

lemma handed_reach:
  "j \<le> w \<Longrightarrow> w < length tasks \<Longrightarrow> reach (export_step e q tasks) (export_init w d) (handed w j d)"
proof (induction j)
  case 0
  then show ?case by (simp add: handed_def export_init_def pool_init_def reach.start)
next
  case (Suc j)
  let ?x = "(handed w j d)\<lparr>xPool := (xPool (handed w j d))\<lparr>pMain := PSend j\<rparr>\<rparr>"
  have "reach (export_step e q tasks) (export_init w d) (handed w j d)" using Suc by simp
  then have "reach (export_step e q tasks) (export_init w d) ?x"
    by (rule reach.step [where l = PLook]) (use Suc in \<open>simp add: handed_def\<close>)
  moreover have "w - j = Suc (w - Suc j)" using Suc.prems by simp
  then have "(map PBusy [0..<j] @ replicate (w - j) PIdle)[j := PBusy j] = map PBusy [0..<Suc j] @ replicate (w - Suc j) PIdle"
    by (simp add: list_update_append)
  then have "export_step e q tasks (PGive j) ?x = Some (handed w (Suc j) d)"
    using Suc.prems by (simp add: handed_def nth_append)
  ultimately show ?case by (rule reach.step)
qed

lemma failed_reach:
  assumes "0 < w" "w < length tasks" "\<forall>a b. range_rows e q a b = Inl er"
  shows "j \<le> w \<Longrightarrow> reach (export_step e q tasks) (export_init w d) (failed w j er d)"
proof (induction j)
  case 0
  show ?case
    by (rule reach.step [OF handed_reach [of w w], where l = PLook])
      (use assms in \<open>simp_all add: handed_def failed_def\<close>)
next
  case (Suc j)
  define ys where "ys = map PBusy [Suc j..<w]"
  have ys: "map PBusy [j..<w] = PBusy j # ys" using Suc.prems by (simp add: upt_conv_Cons ys_def)
  have "(replicate j PExited @ PBusy j # ys)[j := PExited] = replicate (Suc j) PExited @ ys"
    by (simp add: list_update_append replicate_app_Cons_same)
  then have step: "export_step e q tasks (PEnd j False) (failed w j er d) = Some (failed w (Suc j) er d)"
    using Suc.prems assms unfolding failed_def ys ys_def [symmetric]
    by (simp add: nth_append exportOneShard_def is_ok_def note_err_def)
  have "reach (export_step e q tasks) (export_init w d) (failed w j er d)" using Suc by simp
  from reach.step [OF this step] show ?case .
qed

lemma export_deadlock_run:
  assumes "0 < w" "w < length tasks" "\<forall>a b. range_rows e q a b = Inl er"
  shows "\<exists>x. reach (export_step e q tasks) (export_init w d) x \<and> stuck (export_step e q tasks) x \<and>
    pMain (xPool x) = PSend w"
proof -
  have "export_step e q tasks l (failed w w er d) = None" for l by (cases l) (simp_all add: failed_def)
  then have "stuck (export_step e q tasks) (failed w w er d)" by (simp add: stuck_def)
  then show ?thesis using failed_reach [OF assms, of w d] by (intro exI [of _ "failed w w er d"]) (simp add: failed_def)
qed

section \<open>Properties\<close>

text \<open>
  C11. The export of a table is complete and exact. Where no statement and no file operation fails and
  the 64-bit arithmetic does not overflow, the function can return, it never returns an error,
  and whatever the scheduling of the goroutines the returned files are different files which, one
  after the other, hold exactly the lines of the rows of the table in the order of the primary key.
  A table without rows gives no files.
\<close>

theorem export_complete:
  assumes srv: "serves_table e (source_WithDefaults cfg) tbl"
    and fit: "tbl \<noteq> [] \<Longrightarrow> shards_fit (fst (hd tbl)) (fst (last tbl)) (Shards (source_WithDefaults cfg))"
  shows "(\<exists>fs d'. ExportSourceByPKRange e cfg d (Inr fs) d') \<and>
    (\<forall>res d'. ExportSourceByPKRange e cfg d res d' \<longrightarrow> (\<exists>fs. res = Inr fs \<and> export_good tbl fs d'))"
proof (cases "tbl = []")
  case True
  then have "serves_table e (source_WithDefaults cfg) []" using srv by simp
  from export_empty [OF this] export_empty_run [OF this] show ?thesis using True by (fastforce simp: export_good_def)
next
  case False
  have srt: "sorted (map fst tbl)" using srv by (simp add: serves_table_def)
  have "export_good tbl fs d'" if "export_left tbl (source_WithDefaults cfg) d fs d'" for fs d'
    using that tasks_text [OF srt fit [OF False] refl, of d'] unfolding export_left_def Let_def by blast
  then show ?thesis using export_runs [OF srv False fit [OF False], of d] by blast
qed

definition sample_table :: "(int \<times> sql_row) list" where
  "sample_table = [(3, SInt 3, SBytes ''a'', SInt 5), (7, SInt 7, SBytes ''b'', SNil), (8, SInt 8, SBytes ''a'', SInt (- 1))]"

definition sample_env :: source_env where
  "sample_env = \<lparr>mkdir_err = (\<lambda>p. None), glob = (\<lambda>p d. Inr []), can_remove = (\<lambda>p. True), can_create = (\<lambda>p. True),
     bounds_row = (\<lambda>q. Inr (bounds_of sample_table)),
     range_rows = (\<lambda>q a b. Inr (map snd (in_range a b sample_table), None))\<rparr>"

definition sample_cfg :: SourceConfig where
  "sample_cfg = \<lparr>Table = ''orders'', PKColumn = [], KeyColumn = [], ValColumn = [], Where = [], Shards = 2,
     Parallel = 0, OutputDir = ''out'', FilePrefix = []\<rparr>"

lemma sample_serves: "serves_table sample_env (source_WithDefaults sample_cfg) sample_table"
  by (simp add: serves_table_def sample_env_def sample_table_def source_columns_def sample_cfg_def
      source_WithDefaults_def or_default_def quoteIdentifier_def identifierRe_def ident_start_def)

theorem export_complete_witness:
  "\<exists>fs d'. ExportSourceByPKRange sample_env sample_cfg Map.empty (Inr fs) d' \<and> export_good sample_table fs d'"
proof -
  have "(\<exists>fs d'. ExportSourceByPKRange sample_env sample_cfg Map.empty (Inr fs) d') \<and>
    (\<forall>res d'. ExportSourceByPKRange sample_env sample_cfg Map.empty res d' \<longrightarrow>
       (\<exists>fs. res = Inr fs \<and> export_good sample_table fs d'))"
    by (rule export_complete [OF sample_serves])
      (simp add: sample_table_def sample_cfg_def source_WithDefaults_def shards_fit_def int64_def)
  then show ?thesis by blast
qed

text \<open>
  C24. The pool of the export: the main goroutine and the workers take at most \<open>3n + w + 2\<close> steps for
  \<open>n\<close> shards and \<open>w\<close> goroutines, no shard is exported twice, a return without an error has exported
  every shard exactly once with all goroutines gone, and if the machine comes to rest without a
  return then every goroutine is gone and the main goroutine waits to send a task.
\<close>

theorem pool_exports_once:
  assumes run: "exec (pool_step n) ls (pool_init w) = Some s"
  shows "length ls \<le> 3 * n + w + 2 \<and> (\<forall>k. count_list (exported s) k \<le> 1) \<and>
    (pMain s = PReturned True \<longrightarrow> mset (exported s) = mset [0..<n] \<and> (\<forall>x \<in> set (pWork s). x = PExited)) \<and>
    (stuck (pool_step n) s \<longrightarrow>
       (\<exists>ok. pMain s = PReturned ok) \<or> (\<exists>k < n. pMain s = PSend k) \<and> (\<forall>x \<in> set (pWork s). x = PExited))"
proof -
  have inv: "pool_inv w n s" using pool.exec_inv [OF run pool_inv_init] .
  have le: "length ls \<le> 3 * n + w + 2" using pool.exec_bound [OF run pool_inv_init [of w n]] by (simp add: pool_work_init)
  have rng: "\<forall>k. 0 < taken k s \<longrightarrow> k < n" using pool_taken_range [OF run] .
  have one: "count_list (exported s) k \<le> 1" for k
    using inv by (auto simp: pool_inv_def taken_def dest!: spec [of _ k])
  have ret: "mset (exported s) = mset [0..<n] \<and> (\<forall>x \<in> set (pWork s). x = PExited)" if r: "pMain s = PReturned True"
  proof -
    have ex: "\<forall>x \<in> set (pWork s). x = PExited" and t: "\<forall>k < n. taken k s = 1" using inv r by (auto simp: pool_inv_def)
    have "taken k s = count_list (exported s) k" for k using exited_not_busy [OF ex] by (simp add: taken_def)
    then have "count_list (exported s) k = (if k < n then 1 else 0)" for k using t rng by (metis not_gr_zero)
    then have "count (mset (exported s)) k = count (mset [0..<n]) k" for k
      by (simp add: count_mset_upt count_mset)
    then show ?thesis using ex by (auto intro: multiset_eqI)
  qed
  show ?thesis using le one ret pool_stuck [OF inv] by blast
qed

theorem pool_exports_once_witness:
  "\<exists>s. exec (pool_step 2) [PLook, PGive 0, PLook, PEnd 0 True, PGive 0, PLook, PEnd 0 True, PQuit 0, PJoin] (pool_init 1) = Some s \<and>
     mset (exported s) = mset [0..<2]"
proof -
  obtain s where s: "exec (pool_step 2) [PLook, PGive 0, PLook, PEnd 0 True, PGive 0, PLook, PEnd 0 True, PQuit 0, PJoin] (pool_init 1) = Some s"
    "pMain s = PReturned True" by (simp add: pool_init_def)
  show ?thesis using pool_exports_once [OF s(1)] s by blast
qed

text \<open>
  C25. The export can wait forever. Whatever the number of goroutines, if there are more shards
  than goroutines and the database answers the queries with errors, the main goroutine can be past its look
  at the error channel when the last goroutine ends; then nobody receives from the channel of
  tasks and the function never returns.
\<close>

theorem export_can_deadlock:
  assumes "0 < w" "w < length tasks" "\<forall>a b. range_rows e q a b = Inl er"
  shows "\<exists>x. reach (export_step e q tasks) (export_init w d) x \<and> stuck (export_step e q tasks) x \<and>
    pMain (xPool x) = PSend w"
  using export_deadlock_run [OF assms] .

theorem export_can_deadlock_witness:
  "\<exists>x. reach (export_step (sample_env\<lparr>range_rows := \<lambda>q a b. Inl ''bad connection''\<rparr>) [] (shard_tasks two_shards 3 8)) (export_init 1 Map.empty) x \<and>
     stuck (export_step (sample_env\<lparr>range_rows := \<lambda>q a b. Inl ''bad connection''\<rparr>) [] (shard_tasks two_shards 3 8)) x \<and> pMain (xPool x) = PSend 1"
  by (rule export_can_deadlock)
    (simp_all add: shard_tasks_eq two_shards_def shards_fit_def int64_def shard_step_def wrap64_def go_div_def)

end
