(* ===== verification/Kv.thy ===== *)
theory Kv
  imports Go_Ints
begin

text \<open>
  Key/value pairs and the text format of the intermediate files (\<^verbatim>\<open>worker/kv.go\<close>,
  \<^verbatim>\<open>worker/imd_codec.go\<close>): a record per line, key and value separated by a tab. The decoder
  trims white space at both ends of the whole text before it cuts it into lines, so the
  format is exact for some lists of pairs only; the theorems say for which.
\<close>

subsection \<open>worker/kv.go\<close>

record KV =
  Key :: string
  Value :: string

definition newKV :: "string \<Rightarrow> string \<Rightarrow> KV" where
  "newKV k v = \<lparr>Key = k, Value = v\<rparr>"

text \<open>\<^verbatim>\<open>byKey.Less\<close>: the byte-wise order of the keys.\<close>

definition byKey_Less :: "KV list \<Rightarrow> nat \<Rightarrow> nat \<Rightarrow> bool" where
  "byKey_Less a i j \<longleftrightarrow> Key (a ! i) < Key (a ! j)"

lemma newKV_sel [simp]: "Key (newKV k v) = k" "Value (newKV k v) = v"
  by (simp_all add: newKV_def)

lemma kv_eqI: "Key a = Key b \<Longrightarrow> Value a = Value b \<Longrightarrow> a = (b :: KV)"
  by simp

subsection \<open>worker/imd\_codec.go\<close>

definition encode_line :: "KV \<Rightarrow> string" where
  "encode_line kv = Key kv @ [TAB] @ Value kv @ [NL]"

definition encodeIMDKVs :: "KV list \<Rightarrow> string" where
  "encodeIMDKVs kvs = (if kvs = [] then [] else concat (map encode_line kvs))"

text \<open>The loop over the lines: an empty line and a line without a tab are skipped.\<close>

fun decode_lines :: "string list \<Rightarrow> KV list" where
  "decode_lines [] = []"
| "decode_lines (line # lines) =
     (if line = [] then decode_lines lines
      else (case split_n2 TAB line of
              [k, v] \<Rightarrow> newKV k v # decode_lines lines
            | _ \<Rightarrow> decode_lines lines))"

definition decodeIMDKVs :: "string \<Rightarrow> KV list" where
  "decodeIMDKVs raw =
     (let raw' = trim_space raw
      in if raw' = [] then [] else decode_lines (split_on NL raw'))"

subsection \<open>When the round trip is exact\<close>

text \<open>A pair whose line the decoder can cut again.\<close>

definition kv_wf :: "KV \<Rightarrow> bool" where
  "kv_wf kv \<longleftrightarrow> TAB \<notin> set (Key kv) \<and> NL \<notin> set (Key kv) \<and> NL \<notin> set (Value kv)"

text \<open>The ends of the file survive the trimming.\<close>

definition imd_ends_clean :: "KV list \<Rightarrow> bool" where
  "imd_ends_clean kvs \<longleftrightarrow>
     kvs = [] \<or> starts_clean (Key (hd kvs)) \<and> ends_clean (Value (last kvs))"

definition imd_ok :: "KV list \<Rightarrow> bool" where
  "imd_ok kvs \<longleftrightarrow> list_all kv_wf kvs \<and> imd_ends_clean kvs"

definition line_body :: "KV \<Rightarrow> string" where
  "line_body kv = Key kv @ TAB # Value kv"

lemma encode_line_body: "encode_line kv = line_body kv @ [NL]"
  by (simp add: encode_line_def line_body_def)

lemma encodeIMDKVs_join:
  "kvs \<noteq> [] \<Longrightarrow> encodeIMDKVs kvs = join [NL] (map line_body kvs) @ [NL]"
  using join_snoc_sep [of "map line_body kvs" "[NL]"]
  by (simp add: encodeIMDKVs_def encode_line_body [abs_def] comp_def)

lemma line_body_wf: "kv_wf kv \<Longrightarrow> NL \<notin> set (line_body kv)"
  by (auto simp: kv_wf_def line_body_def)

lemma decode_lines_bodies: "list_all kv_wf kvs \<Longrightarrow> decode_lines (map line_body kvs) = kvs"
  by (induction kvs) (auto simp: kv_wf_def line_body_def split_n2_sep newKV_def)

lemma join_first: "\<exists>t. join sep (x # xs) = x @ t \<and> (xs \<noteq> [] \<longrightarrow> (\<exists>u. t = sep @ u))"
  by (cases xs) auto

lemma join_last: "xs \<noteq> [] \<Longrightarrow> \<exists>u. join sep xs = u @ last xs \<and> (1 < length xs \<longrightarrow> (\<exists>w. u = w @ sep))"
proof (induction sep xs rule: join.induct)
  case (3 sep x y ys)
  then obtain u where "join sep (y # ys) = u @ last (y # ys)"
    "1 < length (y # ys) \<longrightarrow> (\<exists>w. u = w @ sep)" by auto
  then show ?case by (cases ys) auto
qed auto

lemma body_starts_clean:
  assumes "kvs \<noteq> []"
  shows "starts_clean (join [NL] (map line_body kvs)) \<longleftrightarrow> starts_clean (Key (hd kvs))"
proof -
  obtain kv rest where kvs: "kvs = kv # rest" using assms by (cases kvs) auto
  obtain t where t: "join [NL] (map line_body kvs) = Key kv @ TAB # (Value kv @ t)"
    using join_first [of "[NL]" "line_body kv" "map line_body rest"]
    by (auto simp: kvs line_body_def)
  show ?thesis
  proof (cases "Key kv = []")
    case True
    then show ?thesis
      unfolding t starts_clean_def by (simp add: kvs ascii_space_width)
  next
    case False
    then show ?thesis
      unfolding t starts_clean_def by (simp add: kvs lead_width_append_ascii)
  qed
qed

lemma body_ends_clean:
  assumes "kvs \<noteq> []"
  shows "ends_clean (join [NL] (map line_body kvs)) \<longleftrightarrow> ends_clean (Value (last kvs))"
proof -
  obtain u where "join [NL] (map line_body kvs) = u @ line_body (last kvs)"
    using join_last [of "map line_body kvs" "[NL]"] assms by (auto simp: last_map)
  then have t: "rev (join [NL] (map line_body kvs)) =
      rev (Value (last kvs)) @ TAB # (rev (Key (last kvs)) @ rev u)"
    by (simp add: line_body_def)
  show ?thesis
  proof (cases "Value (last kvs) = []")
    case True
    then show ?thesis
      using ascii_space_width(2) [of TAB] t by (auto simp: ends_clean_def)
  next
    case False
    then have "lead_width (map rev space_runes) (rev (join [NL] (map line_body kvs))) =
        lead_width (map rev space_runes) (rev (Value (last kvs)))"
      unfolding t by (intro lead_width_append_ascii) auto
    moreover have "join [NL] (map line_body kvs) \<noteq> []" using t by auto
    ultimately show ?thesis using False by (simp add: ends_clean_def)
  qed
qed

lemma imd_roundtrip: "imd_ok kvs \<Longrightarrow> decodeIMDKVs (encodeIMDKVs kvs) = kvs"
proof (cases "kvs = []")
  case True
  then show ?thesis by (simp add: decodeIMDKVs_def encodeIMDKVs_def)
next
  case False
  let ?b = "join [NL] (map line_body kvs)"
  assume ok: "imd_ok kvs"
  then have "starts_clean ?b" "ends_clean ?b"
    using False by (simp_all add: imd_ok_def imd_ends_clean_def body_starts_clean body_ends_clean)
  then have "trim_space (encodeIMDKVs kvs) = ?b"
    using False by (simp add: encodeIMDKVs_join trim_space_snoc_clean)
  moreover have "?b \<noteq> []" using \<open>starts_clean ?b\<close> by (auto simp: starts_clean_def)
  moreover have "split_on NL ?b = map line_body kvs"
    using ok False
    by (intro split_on_join) (auto simp: imd_ok_def list_all_iff line_body_wf)
  ultimately show ?thesis
    using ok by (simp add: decodeIMDKVs_def decode_lines_bodies imd_ok_def)
qed

text \<open>
  The converse is by counting bytes: decoding never yields more text than it read, so a
  trimmed byte cannot come back.
\<close>

lemma split_n2_length: "split_n2 c s = [k, v] \<Longrightarrow> length s = length k + length v + 1"
proof -
  assume "split_n2 c s = [k, v]"
  then have c: "c \<in> set s" and k: "k = takeWhile (\<lambda>x. x \<noteq> c) s"
    and v: "v = tl (dropWhile (\<lambda>x. x \<noteq> c) s)"
    by (auto simp: split_n2_def split: if_splits)
  have "dropWhile (\<lambda>x. x \<noteq> c) s \<noteq> []" using c by (auto simp: dropWhile_eq_Nil_conv)
  then have "length (dropWhile (\<lambda>x. x \<noteq> c) s) = length v + 1"
    using v by (cases "dropWhile (\<lambda>x. x \<noteq> c) s") auto
  moreover have "length s = length k + length (dropWhile (\<lambda>x. x \<noteq> c) s)"
    using k by (metis length_append takeWhile_dropWhile_id)
  ultimately show ?thesis by simp
qed

lemma decode_lines_length:
  "length (concat (map encode_line (decode_lines ls))) \<le> (\<Sum>l\<leftarrow>ls. length l + 1)"
proof (induction ls)
  case (Cons line lines)
  show ?case
  proof (cases "\<exists>k v. line \<noteq> [] \<and> split_n2 TAB line = [k, v]")
    case True
    then obtain k v where "line \<noteq> []" "split_n2 TAB line = [k, v]" by blast
    with Cons split_n2_length [of TAB line k v] show ?thesis by (simp add: encode_line_def)
  next
    case False
    then have "decode_lines (line # lines) = decode_lines lines"
      by (auto split: list.splits)
    with Cons show ?thesis by (simp del: decode_lines.simps)
  qed
qed simp

lemma split_on_length: "(\<Sum>l\<leftarrow>split_on c s. length l + 1) = length s + 1"
proof (induction s)
  case (Cons x xs)
  obtain p ps where "split_on c xs = p # ps" by (cases "split_on c xs") auto
  with Cons show ?case by simp
qed simp

lemma trim_right_prefix: "\<exists>w. s = trim_right s @ w"
proof -
  obtain w where "rev s = w @ trim_lead (map rev space_runes) (rev s)"
    using trim_lead_suffix by blast
  then have "s = trim_right s @ rev w"
    unfolding trim_right_def by (metis rev_append rev_rev_ident)
  then show ?thesis ..
qed

lemma trim_right_same: "trim_right s = s \<Longrightarrow> s = [] \<or> ends_clean s"
  using trim_lead_width [of "map rev space_runes" "rev s"]
  by (auto simp: trim_right_def ends_clean_def) (metis rev_rev_ident)

lemma trim_left_same: "trim_left s = s \<Longrightarrow> s = [] \<or> starts_clean s"
  using trim_lead_width [of space_runes s]
  by (auto simp: trim_left_def starts_clean_def)

lemma trim_left_length: "length (trim_left s) \<le> length s"
  using trim_lead_suffix [of s space_runes] unfolding trim_left_def
  by (metis le_add2 length_append)

lemma trim_right_length: "length (trim_right s) \<le> length s"
  using trim_right_prefix [of s] by (metis le_add1 length_append)

lemma trim_left_full: "length (trim_left s) = length s \<Longrightarrow> trim_left s = s"
  using trim_lead_suffix [of s space_runes] unfolding trim_left_def
  by (metis append_eq_append_conv append_self_conv2)

lemma trim_right_full: "length (trim_right s) = length s \<Longrightarrow> trim_right s = s"
  using trim_right_prefix [of s] by (metis append_eq_append_conv append_Nil2)

text \<open>Trimming \<open>b\<close> and its final newline keeps all of \<open>b\<close> only if both ends are clean.\<close>

lemma trim_space_snoc_full:
  assumes "b \<noteq> []" and len: "length b \<le> length (trim_space (b @ [NL]))"
  shows "starts_clean b \<and> ends_clean b"
proof -
  obtain w where w: "b @ [NL] = w @ trim_left (b @ [NL])"
    using trim_lead_suffix [of "b @ [NL]" space_runes] by (auto simp: trim_left_def)
  have "trim_left (b @ [NL]) \<noteq> []"
    using assms by (auto simp: trim_space_def trim_right_def)
  then obtain l where l: "trim_left (b @ [NL]) = l @ [NL]"
    using w by (metis append_butlast_last_id last_appendR last_snoc)
  have "length (trim_right l) \<le> length l" by (rule trim_right_length)
  moreover have "trim_space (b @ [NL]) = trim_right l"
    by (simp add: trim_space_def l trim_right_snoc_space)
  moreover have b: "b = w @ l" using w l by simp
  ultimately have "length w + length l \<le> length (trim_right l)" "length (trim_right l) \<le> length l"
    using len by simp_all
  then have "length w = 0" "length (trim_right l) = length l" by linarith+
  then have "w = []" and r: "length (trim_right b) = length b"
    using b by simp_all
  then have "trim_left (b @ [NL]) = b @ [NL]" using l b by simp
  then have "starts_clean (b @ [NL])" using trim_left_same by blast
  then have "starts_clean b"
    using assms(1) by (simp add: starts_clean_def lead_width_append_ascii)
  moreover have "ends_clean b"
    using trim_right_same [OF trim_right_full [OF r]] assms(1) by blast
  ultimately show ?thesis ..
qed

lemma imd_roundtrip_only:
  assumes rt: "decodeIMDKVs (encodeIMDKVs kvs) = kvs"
  shows "imd_ends_clean kvs"
proof (cases "kvs = []")
  case False
  let ?b = "join [NL] (map line_body kvs)" and ?r = "trim_space (encodeIMDKVs kvs)"
  have enc: "encodeIMDKVs kvs = ?b @ [NL]" using False by (rule encodeIMDKVs_join)
  have "kvs = decode_lines (split_on NL ?r)"
    using rt False by (auto simp: decodeIMDKVs_def Let_def split: if_splits)
  then have "length (concat (map encode_line kvs)) \<le> length ?r + 1"
    using decode_lines_length [of "split_on NL ?r"] split_on_length [of NL ?r] by simp
  then have "length ?b \<le> length (trim_space (?b @ [NL]))"
    using False enc by (simp add: encodeIMDKVs_def)
  moreover have "?b \<noteq> []"
    using False join_first [of "[NL]" "line_body (hd kvs)" "map line_body (tl kvs)"]
    by (cases kvs) (auto simp: line_body_def)
  ultimately have "starts_clean ?b \<and> ends_clean ?b" by (rule trim_space_snoc_full [rotated])
  then show ?thesis
    using False by (simp add: imd_ends_clean_def body_starts_clean body_ends_clean)
qed (simp add: imd_ends_clean_def)

text \<open>
  The contract of a text format for lists of pairs, as the shuffle between the map and the
  reduce tasks uses it: the lists it carries exactly (\<open>ok\<close>), and the empty text for the
  empty list. Concatenating what was read from several files gives the concatenation of what
  was written to them.
\<close>

locale kv_format =
  fixes enc :: "KV list \<Rightarrow> string" and dec :: "string \<Rightarrow> KV list" and ok :: "KV list \<Rightarrow> bool"
  assumes dec_enc: "ok kvs \<Longrightarrow> dec (enc kvs) = kvs"
    and enc_Nil: "enc [] = []"
    and ok_Nil: "ok []"
begin

lemma dec_empty_file: "dec [] = []"
  using dec_enc [OF ok_Nil] by (simp add: enc_Nil)

lemma gather_files: "list_all ok kvss \<Longrightarrow> concat (map (\<lambda>kvs. dec (enc kvs)) kvss) = concat kvss"
  by (induction kvss) (auto simp: dec_enc)

lemma gather_mset:
  "list_all ok kvss \<Longrightarrow> mset (concat (map (\<lambda>kvs. dec (enc kvs)) kvss)) = (\<Sum>kvs\<leftarrow>kvss. mset kvs)"
  by (induction kvss) (auto simp: dec_enc)

end

interpretation imd: kv_format encodeIMDKVs decodeIMDKVs imd_ok
  by unfold_locales
     (auto simp: imd_roundtrip, simp_all add: encodeIMDKVs_def imd_ok_def imd_ends_clean_def)

subsection \<open>Property\<close>



end
