(* ===== verification/Partition.thy ===== *)
theory Partition
  imports Kv
begin

unbundle bit_operations_syntax

text \<open>
  The choice of a reducer for a key (\<^verbatim>\<open>reducerForKey\<close> of \<^verbatim>\<open>worker/worker.go\<close>): the 32-bit FNV-1a
  hash of the key without its top bit, modulo the number of reducers. What the shuffle needs
  of it is stated as a locale and proved of the code's function.
\<close>

subsection \<open>The hash\<close>

text \<open>\<^verbatim>\<open>hash/fnv.New32a\<close>: xor the byte in, then multiply by the FNV prime, at 32 bits.\<close>

definition fnv32a :: "string \<Rightarrow> 32 word" where
  "fnv32a s = fold (\<lambda>c h. (h XOR of_char c) * 16777619) s 2166136261"

definition reducer_hash :: "string \<Rightarrow> nat" where
  "reducer_hash key = unat (fnv32a key AND 0x7fffffff)"

definition reducerForKey :: "string \<Rightarrow> int \<Rightarrow> int outcome" where
  "reducerForKey key nReduce =
     (if nReduce \<le> 0 then Panics (PanicErr ''nReduce must be > 0'')
      else Done (int (reducer_hash key) mod nReduce))"

text \<open>The reducer as an index, for a positive number of reducers.\<close>

definition reducer_index :: "nat \<Rightarrow> string \<Rightarrow> nat" where
  "reducer_index n key = reducer_hash key mod n"

lemma reducerForKey_eq:
  "0 < n \<Longrightarrow> reducerForKey key (int n) = Done (int (reducer_index n key))"
  by (simp add: reducerForKey_def reducer_index_def zmod_int)

lemma reducer_hash_bound: "reducer_hash key < 2 ^ 31"
proof -
  have "unat (fnv32a key AND 0x7fffffff) \<le> unat (0x7fffffff :: 32 word)"
    by (rule word_and_le1 [THEN word_le_nat_alt [THEN iffD1]])
  then show ?thesis by (simp add: reducer_hash_def)
qed

subsection \<open>Partitions by key\<close>

text \<open>
  A partitioner sends every key to one of \<open>n\<close> buckets. Cutting a multiset of items by the
  bucket of their key loses nothing, and the items of one key are never separated.
\<close>

locale partitioner =
  fixes part :: "nat \<Rightarrow> 'k \<Rightarrow> nat"
  assumes part_less: "0 < n \<Longrightarrow> part n k < n"
begin

lemma bucket_sum:
  assumes "0 < n"
  shows "(\<Sum>r\<leftarrow>[0..<n]. filter_mset (\<lambda>x. part n (key x) = r) M) = M"
proof (induction M)
  case empty
  then show ?case by (simp add: sum_list_triv)
next
  case (add x M)
  have "(\<Sum>r\<leftarrow>[0..<n]. filter_mset (\<lambda>y. part n (key y) = r) (add_mset x M)) =
      (\<Sum>r\<leftarrow>[0..<n]. if r = part n (key x) then {#x#} else {#}) +
      (\<Sum>r\<leftarrow>[0..<n]. filter_mset (\<lambda>y. part n (key y) = r) M)"
    unfolding sum_list_addf [symmetric]
    by (rule arg_cong [where f = sum_list]) auto
  also have "(\<Sum>r\<leftarrow>[0..<n]. if r = part n (key x) then {#x#} else {#}) = {#x#}"
    using part_less [OF assms, of "key x"]
    by (simp add: sum_list_distinct_conv_sum_set sum.delta)
  finally show ?case using add.IH by simp
qed

lemma bucket_of_key:
  "part n (key x) = r \<Longrightarrow> filter_mset (\<lambda>y. key y = key x) M =
     filter_mset (\<lambda>y. key y = key x) (filter_mset (\<lambda>y. part n (key y) = r) M)"
  by (auto simp: filter_filter_mset intro!: filter_mset_cong)

text \<open>
  Buckets that hold only items of their own index, and together hold \<open>M\<close>, are the buckets
  of \<open>M\<close>.
\<close>

lemma buckets_unique:
  assumes len: "length bs = n" and r: "r < n"
    and own: "\<And>i x. i < n \<Longrightarrow> x \<in># bs ! i \<Longrightarrow> part n (key x) = i"
  shows "bs ! r = filter_mset (\<lambda>x. part n (key x) = r) (sum_list bs)"
proof -
  have "filter_mset (\<lambda>x. part n (key x) = r) (bs ! i) = (if i = r then bs ! r else {#})"
    if "i < n" for i
    using own [OF that] filter_mset_cong [of "bs ! i" "bs ! i" "\<lambda>x. part n (key x) = r" "\<lambda>_. True"]
    by auto
  then have "map (filter_mset (\<lambda>x. part n (key x) = r)) bs =
      map (\<lambda>i. if i = r then bs ! r else {#}) [0..<n]"
    by (intro nth_equalityI) (auto simp: len)
  moreover have "(\<Sum>i\<leftarrow>[0..<n]. if i = r then bs ! r else {#}) = bs ! r"
    using r by (simp add: sum_list_distinct_conv_sum_set sum.delta)
  moreover have "filter_mset P (sum_list bs) = sum_list (map (filter_mset P) bs)" for P
    by (induction bs) auto
  ultimately show ?thesis by simp
qed

end

interpretation fnv: partitioner reducer_index
  by unfold_locales (simp add: reducer_index_def)

subsection \<open>Property\<close>



end
