(* ===== verification/Reduce_Task.thy ===== *)
theory Reduce_Task
  imports Partition
begin

text \<open>
  The reduce loop of a worker (\<^verbatim>\<open>Worker.Reduce\<close> of \<^verbatim>\<open>worker/worker.go\<close>): sort the pairs by key,
  walk over the runs of equal keys with two indices, call the user's reduce function on each
  run, receive one pair from its channel and print it. The loop is related to a grouping of
  the list, and for a sorted list to the set of its keys.
\<close>

subsection \<open>sort.Sort\<close>

text \<open>
  \<^verbatim>\<open>sort.Sort(byKey(...))\<close> is not stable: all that its documentation promises is a
  permutation in key order. The sorting function is a parameter of the model with these two
  laws.
\<close>

locale key_sorter =
  fixes srt :: "KV list \<Rightarrow> KV list"
  assumes srt_mset: "mset (srt xs) = mset xs"
    and srt_sorted: "sorted (map Key (srt xs))"
begin

lemma srt_set: "set (srt xs) = set xs"
  using srt_mset [of xs] by (metis set_mset_mset)

lemma srt_values:
  "mset (map Value (filter (\<lambda>kv. Key kv = k) (srt xs))) =
   mset (map Value (filter (\<lambda>kv. Key kv = k) xs))"
  by (simp add: mset_filter srt_mset)

text \<open>The runs of equal keys of the sorted list are the distinct keys, in order.\<close>

lemma srt_keys: "remdups_adj (map Key (srt xs)) = sorted_list_of_set (Key ` set xs)"
proof (rule sorted_distinct_set_unique)
  show "sorted (remdups_adj (map Key (srt xs)))"
    using srt_sorted by (rule sorted_remdups_adj)
  show "distinct (remdups_adj (map Key (srt xs)))"
    using srt_sorted by (rule sorted_remdups_adj_distinct)
qed (simp_all add: srt_set)

end

interpretation stable: key_sorter "sort_key Key"
  by unfold_locales simp_all

subsection \<open>The loop\<close>

text \<open>The inner loop: the first index after \<open>i\<close> with another key.\<close>

function group_end :: "KV list \<Rightarrow> nat \<Rightarrow> nat \<Rightarrow> nat" where
  "group_end imdKVs i j =
     (if j < length imdKVs \<and> Key (imdKVs ! j) = Key (imdKVs ! i)
      then group_end imdKVs i (j + 1) else j)"
  by pat_completeness auto
termination
  by (relation "measure (\<lambda>(xs, i, j). length xs - j)") auto

declare group_end.simps [simp del]

lemma group_end_ge: "j \<le> group_end xs i j"
proof (induction xs i j rule: group_end.induct)
  case (1 xs i j)
  then show ?case
    by (cases "j < length xs \<and> Key (xs ! j) = Key (xs ! i)")
       (auto simp: group_end.simps [of xs i j])
qed

text \<open>
  A reduce function is what it emits for a key and its values. The channel holds 100 pairs
  and nobody receives while the function runs, so a call that overfills it never returns;
  a receive from the empty channel blocks as well. What a call leaves in the channel is
  received after the next call.
\<close>

type_synonym reducef = "string \<Rightarrow> string list \<Rightarrow> KV list"

definition reduce_chan_cap :: nat where
  "reduce_chan_cap = 100"

definition out_line :: "KV \<Rightarrow> string" where
  "out_line kv = Key kv @ [SP] @ Value kv @ [NL]"

function reduce_loop :: "reducef \<Rightarrow> KV list \<Rightarrow> nat \<Rightarrow> KV list \<Rightarrow> string \<Rightarrow> string outcome" where
  "reduce_loop f imdKVs i chan out =
     (if i < length imdKVs
      then (let j = group_end imdKVs i (i + 1);
                values = map (\<lambda>k. Value (imdKVs ! k)) [i..<j];
                chan' = chan @ f (Key (imdKVs ! i)) values
            in if reduce_chan_cap < length chan' then Blocks
               else (case chan' of
                       [] \<Rightarrow> Blocks
                     | output # rest \<Rightarrow> reduce_loop f imdKVs j rest (out @ out_line output)))
      else Done out)"
  by pat_completeness auto
termination
proof (relation "measure (\<lambda>(f, xs, i, chan, out). length xs - i)")
  fix f :: reducef and xs i j and chan :: "KV list" and out :: string
    and vals chan' o1 rest
  assume "i < length xs" "j = group_end xs i (i + 1)"
  then show "((f, xs, j, rest, out @ out_line o1), f, xs, i, chan, out)
      \<in> measure (\<lambda>(f, xs, i, chan, out). length xs - i)"
    using group_end_ge [of "i + 1" xs i] by simp
qed simp

declare reduce_loop.simps [simp del]

subsection \<open>The loop as a pass over the groups\<close>

function groups :: "KV list \<Rightarrow> (string \<times> string list) list" where
  "groups [] = []"
| "groups (kv # rest) =
     (Key kv, Value kv # map Value (takeWhile (\<lambda>x. Key x = Key kv) rest)) #
       groups (dropWhile (\<lambda>x. Key x = Key kv) rest)"
  by pat_completeness auto
termination
  by (relation "measure length") (auto intro: le_imp_less_Suc length_dropWhile_le)

fun run_groups :: "reducef \<Rightarrow> (string \<times> string list) list \<Rightarrow> KV list \<Rightarrow> string \<Rightarrow> string outcome" where
  "run_groups f [] chan out = Done out"
| "run_groups f ((k, vs) # gs) chan out =
     (if reduce_chan_cap < length (chan @ f k vs) then Blocks
      else (case chan @ f k vs of
              [] \<Rightarrow> Blocks
            | output # rest \<Rightarrow> run_groups f gs rest (out @ out_line output)))"

lemma group_end_takeWhile:
  "j \<le> length xs \<Longrightarrow>
     group_end xs i j = j + length (takeWhile (\<lambda>x. Key x = Key (xs ! i)) (drop j xs))"
proof (induction xs i j rule: group_end.induct)
  case (1 xs i j)
  show ?case
  proof (cases "j < length xs \<and> Key (xs ! j) = Key (xs ! i)")
    case True
    then have "drop j xs = xs ! j # drop (j + 1) xs" by (simp add: Cons_nth_drop_Suc)
    with True 1 show ?thesis by (simp add: group_end.simps [of xs i j])
  next
    case False
    then have "takeWhile (\<lambda>x. Key x = Key (xs ! i)) (drop j xs) = []"
      by (cases "j < length xs") (auto simp: Cons_nth_drop_Suc [symmetric])
    moreover have "group_end xs i j = j" using False by (subst group_end.simps) auto
    ultimately show ?thesis by simp
  qed
qed

lemma slice_map: "j \<le> length xs \<Longrightarrow> map (\<lambda>k. f (xs ! k)) [i..<j] = map f (take (j - i) (drop i xs))"
  by (intro nth_equalityI) auto

lemma reduce_loop_groups:
  "reduce_loop f xs i chan out = run_groups f (groups (drop i xs)) chan out"
proof (induction "length xs - i" arbitrary: i chan out rule: less_induct)
  case less
  show ?case
  proof (cases "i < length xs")
    case False
    then show ?thesis by (simp add: reduce_loop.simps [of f xs i])
  next
    case True
    let ?same = "takeWhile (\<lambda>x. Key x = Key (xs ! i)) (drop (i + 1) xs)"
    let ?j = "group_end xs i (i + 1)"
    have d: "drop i xs = xs ! i # drop (i + 1) xs" using True by (simp add: Cons_nth_drop_Suc)
    have j: "?j = i + 1 + length ?same" using True by (simp add: group_end_takeWhile)
    have "length ?same \<le> length (drop (i + 1) xs)" by (rule length_takeWhile_le)
    then have "?j \<le> length xs" using True j by simp
    then have "map (\<lambda>k. Value (xs ! k)) [i + 1..<?j] = map Value (take (?j - (i + 1)) (drop (i + 1) xs))"
      by (rule slice_map)
    moreover have "take (?j - (i + 1)) (drop (i + 1) xs) = ?same"
      using j by (metis add_diff_cancel_left' takeWhile_eq_take)
    moreover have "[i..<?j] = i # [i + 1..<?j]" using j by (simp only: upt_conv_Cons) simp
    ultimately have vals: "map (\<lambda>k. Value (xs ! k)) [i..<?j] = Value (xs ! i) # map Value ?same"
      by simp
    have rest: "dropWhile (\<lambda>x. Key x = Key (xs ! i)) (drop (i + 1) xs) = drop ?j xs"
      using j by (simp add: dropWhile_eq_drop add.commute)
    have "length xs - ?j < length xs - i" using True j by simp
    note IH = less.hyps [OF this]
    show ?thesis
      using True d vals rest IH
      by (simp add: reduce_loop.simps [of f xs i] Let_def split: list.splits)
  qed
qed

text \<open>For a list sorted by key the groups are the distinct keys with all their values.\<close>

lemma sorted_dropWhile_filter:
  assumes "sorted (map Key (kv # xs))"
  shows "takeWhile (\<lambda>x. Key x = Key kv) xs = filter (\<lambda>x. Key x = Key kv) xs"
    and "dropWhile (\<lambda>x. Key x = Key kv) xs = filter (\<lambda>x. Key x \<noteq> Key kv) xs"
  using assms
proof (induction xs)
  case (Cons x xs)
  {
    case 1
    show ?case
    proof (cases "Key x = Key kv")
      case True
      with 1 Cons.IH(1) show ?thesis by auto
    next
      case False
      with 1 have "\<forall>y \<in> set xs. Key y \<noteq> Key kv" by force
      with False show ?thesis by (simp add: filter_empty_conv)
    qed
  next
    case 2
    show ?case
    proof (cases "Key x = Key kv")
      case True
      with 2 Cons.IH(2) show ?thesis by auto
    next
      case False
      with 2 have "\<forall>y \<in> set xs. Key y \<noteq> Key kv" by force
      with False show ?thesis by (simp add: filter_id_conv)
    qed
  }
qed simp_all

abbreviation values_of :: "KV list \<Rightarrow> string \<Rightarrow> string list" where
  "values_of kvs k \<equiv> map Value (filter (\<lambda>kv. Key kv = k) kvs)"

lemma remdups_adj_sorted_Cons:
  assumes "sorted (map Key (kv # xs))"
  shows "remdups_adj (map Key (kv # xs)) =
     Key kv # remdups_adj (map Key (filter (\<lambda>x. Key x \<noteq> Key kv) xs))"
  using assms
proof (induction xs)
  case (Cons x xs)
  show ?case
  proof (cases "Key x = Key kv")
    case True
    with Cons show ?thesis by simp
  next
    case False
    with Cons.prems have "\<forall>y \<in> set xs. Key y \<noteq> Key kv" by force
    then have "filter (\<lambda>x. Key x \<noteq> Key kv) xs = xs" by (simp add: filter_id_conv)
    with False show ?thesis by simp
  qed
qed simp

lemma groups_sorted:
  "sorted (map Key xs) \<Longrightarrow>
     groups xs = map (\<lambda>k. (k, values_of xs k)) (remdups_adj (map Key xs))"
proof (induction xs rule: groups.induct)
  case (2 kv rest)
  let ?ne = "filter (\<lambda>x. Key x \<noteq> Key kv) rest"
  note dw = sorted_dropWhile_filter [OF "2.prems"]
  have "sorted (map Key ?ne)" using "2.prems" by (simp add: sorted_filter)
  then have g: "groups ?ne = map (\<lambda>k. (k, values_of ?ne k)) (remdups_adj (map Key ?ne))"
    using "2.IH" dw(2) by simp
  have "values_of ?ne k = values_of (kv # rest) k" if "k \<in> set (remdups_adj (map Key ?ne))" for k
    using that by (auto simp: filter_filter intro!: arg_cong [where f = "map Value"] filter_cong)
  with g have "groups ?ne = map (\<lambda>k. (k, values_of (kv # rest) k)) (remdups_adj (map Key ?ne))"
    by simp
  then show ?case
    unfolding remdups_adj_sorted_Cons [OF "2.prems"] by (simp add: dw)
qed simp

text \<open>A reduce function that emits one pair per call, as the loop expects.\<close>

definition emits_one :: "reducef \<Rightarrow> bool" where
  "emits_one f \<longleftrightarrow> (\<forall>k vs. length (f k vs) = 1)"

lemma run_groups_one:
  "emits_one f \<Longrightarrow>
     run_groups f gs [] out = Done (out @ concat (map (\<lambda>(k, vs). out_line (hd (f k vs))) gs))"
proof (induction gs arbitrary: out)
  case (Cons g gs)
  obtain k vs where g: "g = (k, vs)" by (cases g)
  from Cons.prems have "length (f k vs) = 1" by (simp add: emits_one_def)
  then obtain o1 where "f k vs = [o1]" by (cases "f k vs") auto
  with Cons g show ?case by (simp add: reduce_chan_cap_def)
qed simp

text \<open>
  Values left over shift the output: a function that emits nothing blocks the loop at its
  first key.
\<close>

lemma run_groups_none: "f k vs = [] \<Longrightarrow> run_groups f ((k, vs) # gs) [] out = Blocks"
  by simp

lemma reduce_sorted:
  assumes "emits_one f" "key_sorter srt"
  shows "reduce_loop f (srt kvs) 0 [] [] =
    Done (concat (map (\<lambda>k. out_line (hd (f k (values_of (srt kvs) k))))
      (sorted_list_of_set (Key ` set kvs))))"
proof -
  have s: "sorted (map Key (srt kvs))" using assms(2) by (rule key_sorter.srt_sorted)
  show ?thesis
    using key_sorter.srt_keys [OF assms(2), of kvs]
    by (simp add: reduce_loop_groups groups_sorted [OF s] run_groups_one [OF assms(1)] comp_def)
qed

subsection \<open>Property\<close>

text \<open>
  C17. A reduce task prints one line for each distinct key, in key order, with what the reduce
  function emits for all the values of that key, provided the function emits one pair per call;
  the values are those of the input, in the order the unstable sort leaves them.
\<close>

theorem reduce_output:
  assumes "emits_one f" "key_sorter srt"
  shows "reduce_loop f (srt kvs) 0 [] [] =
      Done (concat (map (\<lambda>k. out_line (hd (f k (values_of (srt kvs) k))))
        (sorted_list_of_set (Key ` set kvs)))) \<and>
    (\<forall>k. mset (values_of (srt kvs) k) = mset (values_of kvs k))"
  using reduce_sorted [OF assms] key_sorter.srt_values [OF assms(2)] by simp

theorem reduce_output_witness:
  "reduce_loop (\<lambda>k vs. [newKV k (itoa (int (length vs)))])
     (sort_key Key [newKV ''b'' ''x'', newKV ''a'' ''y'', newKV ''b'' ''z'']) 0 [] [] =
   Done (''a 1'' @ [NL] @ ''b 2'' @ [NL])"
proof -
  let ?f = "\<lambda>k vs. [newKV k (itoa (int (length (vs :: string list))))]"
  let ?kvs = "[newKV ''b'' ''x'', newKV ''a'' ''y'', newKV ''b'' ''z'']"
  have "emits_one ?f" by (simp add: emits_one_def)
  then have "reduce_loop ?f (sort_key Key ?kvs) 0 [] [] =
      Done (concat (map (\<lambda>k. out_line (hd (?f k (values_of (sort_key Key ?kvs) k))))
        (sorted_list_of_set (Key ` set ?kvs))))"
    using reduce_output stable.key_sorter_axioms by blast
  also have "\<dots> = Done (''a 1'' @ [NL] @ ''b 2'' @ [NL])" by code_simp
  finally show ?thesis .
qed

end
