(* ===== verification/Sink_Lines.thy ===== *)
theory Sink_Lines
  imports Reduce_Task Go_Ints
begin

text \<open>
  How the sinks read the output files of the reduce tasks (\<^verbatim>\<open>batch/mysql_batch/sink.go\<close>,
  \<^verbatim>\<open>batch/redis_batch/sink.go\<close>): line by line with a \<^verbatim>\<open>bufio.Scanner\<close>, the first two fields of each
  line, other lines skipped. For keys and values that are words this reads back what
  \<^verbatim>\<open>Worker.Reduce\<close> printed.
\<close>

definition line_fields :: "string \<Rightarrow> (string \<times> string) option" where
  "line_fields l =
     (let line = trim_space l
      in if line = [] then None
         else (case Go_Strings.fields line of k # v # _ \<Rightarrow> Some (k, v) | _ \<Rightarrow> None))"

text \<open>The pairs of a file and whether the scanner ended with \<^verbatim>\<open>bufio.ErrTooLong\<close>.\<close>

definition file_fields :: "string \<Rightarrow> (string \<times> string) list" where
  "file_fields s = List.map_filter line_fields (fst (scan_lines s))"

lemma word_of_length: "length (word_of s) \<le> length s"
  by (induction s) auto

lemma is_word_no_space: "is_word s \<Longrightarrow> ascii_space c \<Longrightarrow> c \<notin> set s"
proof
  assume w: "is_word s" and c: "ascii_space c" "c \<in> set s"
  then obtain a b where s: "s = a @ c # b" by (meson split_list)
  have "length (word_of s) \<le> length a" using word_of_append_space [OF c(1)] word_of_length [of a] by (simp add: s)
  then show False using w s by (simp add: is_word_def)
qed

lemma ascii_space_consts [simp]: "ascii_space SP" "ascii_space NL" "ascii_space CR" "ascii_space TAB"
  by (simp_all add: ascii_space_def)

lemma drop_cr_word:
  assumes "is_word v"
  shows "drop_cr (s @ v) = s @ v"
proof -
  have "v \<noteq> []" using assms by (simp add: is_word_def)
  then have "last (s @ v) \<noteq> CR" using is_word_no_space [OF assms, of CR] by (metis ascii_space_consts(3) last_appendR last_in_set)
  then show ?thesis by (simp add: drop_cr_def)
qed

text \<open>A value that does not end in white space; every number printed in decimal is one.\<close>

lemma line_fields_pair:
  assumes "is_word k" "is_word v" "ends_clean v"
  shows "line_fields (k @ SP # v) = Some (k, v)"
proof -
  have "trim_space (k @ SP # v) = k @ SP # v"
    using assms by (intro trim_space_clean) (auto simp: starts_clean_append ends_clean_append is_word_starts_clean)
  then show ?thesis using assms by (simp add: line_fields_def fields_word_space fields_word)
qed

definition printed_ok :: "KV \<Rightarrow> bool" where
  "printed_ok kv \<longleftrightarrow> is_word (Key kv) \<and> is_word (Value kv) \<and> ends_clean (Value kv) \<and>
     length (Key kv) + length (Value kv) + 1 < max_scan_token_size"

lemma printed_lines:
  assumes "\<forall>kv \<in> set kvs. printed_ok kv"
  shows "scan_lines (concat (map out_line kvs)) = (map (\<lambda>kv. Key kv @ SP # Value kv) kvs, False)"
proof -
  let ?b = "\<lambda>kv. Key kv @ SP # Value kv"
  have "concat (map out_line kvs) = concat (map (\<lambda>l. l @ [NL]) (map ?b kvs))"
    by (induction kvs) (auto simp: out_line_def)
  moreover have "\<forall>l \<in> set (map ?b kvs). NL \<notin> set l"
    using assms is_word_no_space [where c = NL] by (auto simp: printed_ok_def)
  moreover have "\<forall>l \<in> set (map ?b kvs). length l < max_scan_token_size" using assms by (auto simp: printed_ok_def)
  moreover have "map drop_cr (map ?b kvs) = map ?b kvs"
    using assms drop_cr_word [where s = "_ @ [SP]"] by (auto simp: printed_ok_def)
  ultimately show ?thesis
    using raw_lines_concat [of "map ?b kvs"] scan_tokens_short [of "map ?b kvs"] by (simp only: scan_lines_def)
qed

lemma printed_fields:
  assumes "\<forall>kv \<in> set kvs. printed_ok kv"
  shows "file_fields (concat (map out_line kvs)) = map (\<lambda>kv. (Key kv, Value kv)) kvs"
    and "\<not> snd (scan_lines (concat (map out_line kvs)))"
proof -
  have "List.map_filter line_fields (map (\<lambda>kv. Key kv @ SP # Value kv) kvs) = map (\<lambda>kv. (Key kv, Value kv)) kvs"
    using assms by (induction kvs) (auto simp: line_fields_pair printed_ok_def)
  then show "file_fields (concat (map out_line kvs)) = map (\<lambda>kv. (Key kv, Value kv)) kvs"
    and "\<not> snd (scan_lines (concat (map out_line kvs)))"
    using printed_lines [OF assms] by (simp_all add: file_fields_def)
qed

subsection \<open>Printed numbers\<close>

lemma show_nat_length: "n < 10 ^ d \<Longrightarrow> 0 < d \<Longrightarrow> length (show_nat n) \<le> d"
proof (induction d arbitrary: n)
  case (Suc d)
  show ?case
  proof (cases "n < 10")
    case True
    then show ?thesis by (simp add: show_nat.simps [of n])
  next
    case False
    then have "n div 10 < 10 ^ d" "0 < d" using Suc.prems by (auto simp: less_mult_imp_div_less intro!: Nat.gr0I)
    then show ?thesis using Suc.IH [of "n div 10"] False by (simp add: show_nat.simps [of n])
  qed
qed simp

lemma itoa_length:
  assumes "int64 v"
  shows "length (itoa v) \<le> 20"
proof -
  have "nat v < 10 ^ 19" "nat (- v) < 10 ^ 19" using assms by (auto simp: int64_def)
  then show ?thesis using show_nat_length [of "nat v" 19] show_nat_length [of "nat (- v)" 19] by (simp add: itoa_def)
qed

lemma itoa_ends_clean: "ends_clean (itoa v)"
  using itoa_plain [of v] by (cases "itoa v" rule: rev_cases) (auto simp: ends_clean_plain)

lemma printed_ok_number:
  "is_word k \<Longrightarrow> length k \<le> 65000 \<Longrightarrow> int64 v \<Longrightarrow> printed_ok (newKV k (itoa v))"
  using itoa_length [of v] by (simp add: printed_ok_def is_word_itoa itoa_ends_clean max_scan_token_size_def)

end
