(* ===== verification/Mysql_Sink.thy ===== *)
theory Mysql_Sink
  imports Sink_Lines Mysql_Source
begin

text \<open>
  The import of the reduce outputs into a MySQL table (\<^verbatim>\<open>batch/mysql_batch/sink.go\<close>, \<^verbatim>\<open>config.go\<close>,
  \<^verbatim>\<open>factory.go\<close>). The database is a parameter: a function from statements, with their texts and
  arguments as the code builds them, to an optional error and the next state. The batched load
  is proved equal to a reference that cuts the pairs into batches, for every database; what the
  import leaves in the target table follows for databases that answer the statements as
  documented, stated as the predicate \<open>sink_laws\<close>.
\<close>

subsection \<open>Configuration\<close>

record SinkConfig =
  TargetTable :: string
  SinkKeyColumn :: string
  SinkValColumn :: string
  InputGlob :: string
  Replace :: bool
  BatchSize :: int

definition sink_WithDefaults :: "SinkConfig \<Rightarrow> SinkConfig" where
  "sink_WithDefaults c =
     c\<lparr>SinkKeyColumn := or_default ''biz_key'' (SinkKeyColumn c),
       SinkValColumn := or_default ''metric_sum'' (SinkValColumn c),
       InputGlob := or_default ''mr-out-*.txt'' (InputGlob c),
       BatchSize := (if BatchSize c \<le> 0 then 2000 else BatchSize c)\<rparr>"

definition SinkAdapter_InputGlob :: "SinkConfig \<Rightarrow> string" where
  "SinkAdapter_InputGlob cfg = InputGlob (sink_WithDefaults cfg)"

subsection \<open>Statements\<close>

datatype sql_arg = ArgText string | ArgInt int

datatype sink_stmt = BeginTx | ExecSQL string "sql_arg list" | Commit | Rollback

type_synonym 'db sink_exec = "sink_stmt \<Rightarrow> 'db \<Rightarrow> string option \<times> 'db"

definition createTargetSQL :: "string \<Rightarrow> string \<Rightarrow> string \<Rightarrow> string" where
  "createTargetSQL table keyCol valCol =
     [NL] @ ''CREATE TABLE IF NOT EXISTS '' @ table @ '' ('' @ [NL] @ ''  '' @ keyCol @ '' VARCHAR(255) NOT NULL,'' @ [NL] @
     ''  '' @ valCol @ '' BIGINT NOT NULL,'' @ [NL] @ ''  PRIMARY KEY ('' @ keyCol @ '')'' @ [NL] @ '')''"

definition dropStageIfExistsSQL :: "string \<Rightarrow> string" where
  "dropStageIfExistsSQL stageTable = ''DROP TABLE IF EXISTS '' @ stageTable"

definition createStageSQL :: "string \<Rightarrow> string \<Rightarrow> string \<Rightarrow> string" where
  "createStageSQL stageTable keyCol valCol =
     [NL] @ ''CREATE TABLE '' @ stageTable @ '' ('' @ [NL] @ ''  '' @ keyCol @ '' VARCHAR(255) NOT NULL,'' @ [NL] @
     ''  '' @ valCol @ '' BIGINT NOT NULL,'' @ [NL] @ ''  KEY idx_key ('' @ keyCol @ '')'' @ [NL] @ '')''"

definition truncateSQL :: "string \<Rightarrow> string" where
  "truncateSQL table = ''TRUNCATE TABLE '' @ table"

definition upsertSQL :: "string \<Rightarrow> string \<Rightarrow> string \<Rightarrow> string \<Rightarrow> string" where
  "upsertSQL table stageTable keyCol valCol =
     [NL] @ ''INSERT INTO '' @ table @ '' ('' @ keyCol @ '', '' @ valCol @ '')'' @ [NL] @
     ''SELECT '' @ keyCol @ '', SUM('' @ valCol @ '') AS total'' @ [NL] @ ''FROM '' @ stageTable @ [NL] @
     ''GROUP BY '' @ keyCol @ [NL] @ ''ON DUPLICATE KEY UPDATE '' @ valCol @ ''=VALUES('' @ valCol @ '')'' @ [NL]"

definition dropStageSQL :: "string \<Rightarrow> string" where
  "dropStageSQL stageTable = ''DROP TABLE '' @ stageTable"

definition insertSQL :: "string \<Rightarrow> string \<Rightarrow> string \<Rightarrow> nat \<Rightarrow> string" where
  "insertSQL stageTable keyCol valCol n =
     ''INSERT INTO '' @ stageTable @ '' ('' @ keyCol @ '', '' @ valCol @ '') VALUES '' @ join '','' (replicate n ''(?, ?)'')"

definition insert_args :: "(string \<times> int) list \<Rightarrow> sql_arg list" where
  "insert_args batch = concat (map (\<lambda>(k, v). [ArgText k, ArgInt v]) batch)"

definition insert_stmt :: "string \<Rightarrow> string \<Rightarrow> string \<Rightarrow> (string \<times> int) list \<Rightarrow> sink_stmt" where
  "insert_stmt stageTable keyCol valCol batch =
     ExecSQL (insertSQL stageTable keyCol valCol (length batch)) (insert_args batch)"

subsection \<open>Loading the staging table\<close>

text \<open>One line: the pair it gives, nothing if it is skipped.\<close>

definition stage_pair :: "string \<Rightarrow> (string \<times> int) option" where
  "stage_pair l =
     (case line_fields l of
        None \<Rightarrow> None
      | Some (k, f) \<Rightarrow> (case parse_int f of (v, None) \<Rightarrow> Some (k, v) | _ \<Rightarrow> None))"

definition stage_flush :: "'db sink_exec \<Rightarrow> ((string \<times> int) list \<Rightarrow> sink_stmt) \<Rightarrow>
    (string \<times> int) list \<Rightarrow> 'db \<Rightarrow> string option \<times> (string \<times> int) list \<times> 'db" where
  "stage_flush ex ins batch db =
     (if batch = [] then (None, batch, db)
      else (case ex (ins batch) db of
              (Some er, db') \<Rightarrow> (Some er, batch, db')
            | (None, db') \<Rightarrow> (None, [], db')))"

fun stage_lines :: "'db sink_exec \<Rightarrow> ((string \<times> int) list \<Rightarrow> sink_stmt) \<Rightarrow> int \<Rightarrow> string list \<Rightarrow>
    (string \<times> int) list \<Rightarrow> 'db \<Rightarrow> string option \<times> (string \<times> int) list \<times> 'db" where
  "stage_lines ex ins n [] batch db = (None, batch, db)"
| "stage_lines ex ins n (l # ls) batch db =
     (case stage_pair l of
        None \<Rightarrow> stage_lines ex ins n ls batch db
      | Some p \<Rightarrow>
          (let batch1 = batch @ [p] in
           if n \<le> int (length batch1)
           then (case stage_flush ex ins batch1 db of
                   (Some er, r) \<Rightarrow> (Some er, r)
                 | (None, batch2, db2) \<Rightarrow> stage_lines ex ins n ls batch2 db2)
           else stage_lines ex ins n ls batch1 db))"

fun stage_files :: "'db sink_exec \<Rightarrow> ((string \<times> int) list \<Rightarrow> sink_stmt) \<Rightarrow> int \<Rightarrow> fs \<Rightarrow> path list \<Rightarrow>
    (string \<times> int) list \<Rightarrow> 'db \<Rightarrow> string option \<times> (string \<times> int) list \<times> 'db" where
  "stage_files ex ins n d [] batch db = (None, batch, db)"
| "stage_files ex ins n d (f # fs) batch db =
     (case d f of
        None \<Rightarrow> (Some (''open '' @ f), batch, db)
      | Some s \<Rightarrow>
          (case stage_lines ex ins n (fst (scan_lines s)) batch db of
             (Some er, r) \<Rightarrow> (Some er, r)
           | (None, batch1, db1) \<Rightarrow>
               (if snd (scan_lines s) then (Some ''bufio.Scanner: token too long'', batch1, db1)
                else stage_files ex ins n d fs batch1 db1)))"

definition loadReduceFilesIntoStage :: "'db sink_exec \<Rightarrow> fs \<Rightarrow> path list \<Rightarrow> string \<Rightarrow> string \<Rightarrow> string \<Rightarrow> int \<Rightarrow>
    'db \<Rightarrow> string option \<times> 'db" where
  "loadReduceFilesIntoStage ex d files stageTable keyCol valCol batchSize db =
     (let ins = insert_stmt stageTable keyCol valCol in
      case stage_files ex ins batchSize d files [] db of
        (Some er, _, db1) \<Rightarrow> (Some er, db1)
      | (None, batch, db1) \<Rightarrow> (case stage_flush ex ins batch db1 of (er, _, db2) \<Rightarrow> (er, db2)))"

subsection \<open>The import\<close>

definition sink_columns :: "SinkConfig \<Rightarrow> (string \<times> string \<times> string) result" where
  "sink_columns c =
     bind_result (quoteIdentifier (TargetTable c)) (\<lambda>table.
     bind_result (quoteIdentifier (SinkKeyColumn c)) (\<lambda>keyCol.
     bind_result (quoteIdentifier (SinkValColumn c)) (\<lambda>valCol. Inr (table, keyCol, valCol))))"

text \<open>A step of the transaction: after an error the deferred \<^verbatim>\<open>tx.Rollback\<close> runs.\<close>

definition tx_then :: "'db sink_exec \<Rightarrow> string option \<times> 'db \<Rightarrow> ('db \<Rightarrow> string option \<times> 'db) \<Rightarrow> string option \<times> 'db" where
  "tx_then ex r k = (case r of (Some er, db) \<Rightarrow> (Some er, snd (ex Rollback db)) | (None, db) \<Rightarrow> k db)"

definition import_tx :: "'db sink_exec \<Rightarrow> fs \<Rightarrow> path list \<Rightarrow> SinkConfig \<Rightarrow> string \<Rightarrow> string \<Rightarrow> string \<Rightarrow> string \<Rightarrow>
    'db \<Rightarrow> string option \<times> 'db" where
  "import_tx ex d files c table stageTable keyCol valCol db0 =
     tx_then ex (ex (ExecSQL (createTargetSQL table keyCol valCol) []) db0) (\<lambda>db1.
     tx_then ex (ex (ExecSQL (dropStageIfExistsSQL stageTable) []) db1) (\<lambda>db2.
     tx_then ex (ex (ExecSQL (createStageSQL stageTable keyCol valCol) []) db2) (\<lambda>db3.
     tx_then ex (loadReduceFilesIntoStage ex d files stageTable keyCol valCol (BatchSize c) db3) (\<lambda>db4.
     tx_then ex (if Replace c then ex (ExecSQL (truncateSQL table) []) db4 else (None, db4)) (\<lambda>db5.
     tx_then ex (ex (ExecSQL (upsertSQL table stageTable keyCol valCol) []) db5) (\<lambda>db6.
     tx_then ex (ex (ExecSQL (dropStageSQL stageTable) []) db6) (\<lambda>db7. ex Commit db7)))))))"

definition ImportReduceOutputs :: "'db sink_exec \<Rightarrow> (string \<Rightarrow> fs \<Rightarrow> path list result) \<Rightarrow> fs \<Rightarrow> SinkConfig \<Rightarrow>
    'db \<Rightarrow> string option \<times> 'db" where
  "ImportReduceOutputs ex glb d cfg db =
     (let c = sink_WithDefaults cfg in
      if TargetTable c = [] then (Some ''target table is required'', db)
      else (case sink_columns c of
         Inl er \<Rightarrow> (Some er, db)
       | Inr (table, keyCol, valCol) \<Rightarrow>
           (case glb (InputGlob c) d of
              Inl er \<Rightarrow> (Some er, db)
            | Inr files \<Rightarrow>
                (if files = [] then (Some (''no reduce output files matched: '' @ InputGlob c), db)
                 else (case quoteIdentifier (TargetTable c @ ''_staging_tmp'') of
                    Inl er \<Rightarrow> (Some er, db)
                  | Inr stageTable \<Rightarrow>
                      (case ex BeginTx db of
                         (Some er, db') \<Rightarrow> (Some er, db')
                       | (None, db0) \<Rightarrow> import_tx ex d files c table stageTable keyCol valCol db0))))))"

subsection \<open>The load as a sequence of batches\<close>

text \<open>The reference: the pairs of all files, cut into batches, one insert after the other.\<close>

definition stage_file_pairs :: "fs \<Rightarrow> path list \<Rightarrow> (string \<times> int) list" where
  "stage_file_pairs d files = concat (map (\<lambda>f. List.map_filter stage_pair (fst (scan_lines (the (d f))))) files)"

function chunks :: "nat \<Rightarrow> 'a list \<Rightarrow> 'a list list" where
  "chunks n xs = (if n = 0 \<or> xs = [] then [] else take n xs # chunks n (drop n xs))"
  by pat_completeness auto
termination
  by (relation "measure (\<lambda>(n, xs). length xs)") auto

declare chunks.simps [simp del]

fun insert_all :: "'db sink_exec \<Rightarrow> ('b \<Rightarrow> sink_stmt) \<Rightarrow> 'b list \<Rightarrow> 'db \<Rightarrow> string option \<times> 'db" where
  "insert_all ex ins [] db = (None, db)"
| "insert_all ex ins (b # bs) db =
     (case ex (ins b) db of (Some er, db') \<Rightarrow> (Some er, db') | (None, db') \<Rightarrow> insert_all ex ins bs db')"

definition finish :: "'db sink_exec \<Rightarrow> ((string \<times> int) list \<Rightarrow> sink_stmt) \<Rightarrow>
    string option \<times> (string \<times> int) list \<times> 'db \<Rightarrow> string option \<times> 'db" where
  "finish ex ins r =
     (case r of (Some er, _, db) \<Rightarrow> (Some er, db)
      | (None, batch, db) \<Rightarrow> (case stage_flush ex ins batch db of (er, _, db2) \<Rightarrow> (er, db2)))"

lemma chunks_Nil [simp]: "chunks n [] = []"
  by (simp add: chunks.simps)

lemma chunks_append: "xs \<noteq> [] \<Longrightarrow> chunks (length xs) (xs @ ys) = xs # chunks (length xs) ys"
  by (simp add: chunks.simps [of "length xs" "xs @ ys"])

lemma chunks_short: "xs \<noteq> [] \<Longrightarrow> length xs \<le> n \<Longrightarrow> chunks n xs = [xs]"
  using chunks.simps [of n xs] by (cases n) auto

lemma concat_chunks: "0 < n \<Longrightarrow> concat (chunks n xs) = xs"
  by (induction n xs rule: chunks.induct) (subst chunks.simps, auto)

lemma chunks_sizes: "b \<in> set (chunks n xs) \<Longrightarrow> b \<noteq> [] \<and> length b \<le> n \<and> set b \<subseteq> set xs"
proof (induction n xs rule: chunks.induct)
  case (1 n xs)
  show ?case
  proof (cases "n = 0 \<or> xs = []")
    case True
    then show ?thesis using 1 by (auto simp: chunks.simps [of n xs])
  next
    case False
    then have "b = take n xs \<or> b \<in> set (chunks n (drop n xs))" using 1 by (auto simp: chunks.simps [of n xs])
    then show ?thesis using False 1(1) by (auto dest: in_set_takeD in_set_dropD)
  qed
qed

lemma flush_insert:
  "stage_flush ex ins batch db = (case insert_all ex ins (if batch = [] then [] else [batch]) db of
     (Some er, db') \<Rightarrow> (Some er, batch, db') | (None, db') \<Rightarrow> (None, [], db'))"
  by (auto simp: stage_flush_def split: prod.splits option.splits)

lemma finish_flush: "length batch \<le> n \<Longrightarrow> finish ex ins (None, batch, db) = insert_all ex ins (chunks n batch) db"
  by (cases "batch = []") (auto simp: finish_def stage_flush_def chunks_short split: prod.splits option.splits)

text \<open>The lines after the batch so far, as batches; an error keeps what was inserted before.\<close>

lemma stage_lines_split:
  assumes "length batch < n"
  shows "\<exists>er batch' db'. stage_lines ex ins (int n) ls batch db = (er, batch', db') \<and> (er = None \<longrightarrow> length batch' < n) \<and>
    (\<forall>ps. (case er of Some e \<Rightarrow> (Some e, db') | None \<Rightarrow> insert_all ex ins (chunks n (batch' @ ps)) db') =
      insert_all ex ins (chunks n (batch @ List.map_filter stage_pair ls @ ps)) db)"
  using assms
proof (induction ls arbitrary: batch db)
  case Nil
  then show ?case by simp
next
  case (Cons l ls)
  show ?case
  proof (cases "stage_pair l")
    case None
    then show ?thesis using Cons by simp
  next
    case (Some p)
    let ?b = "batch @ [p]"
    have mf: "List.map_filter stage_pair (l # ls) = p # List.map_filter stage_pair ls" using Some by simp
    show ?thesis
    proof (cases "n \<le> length ?b")
      case True
      then have n: "n = length ?b" using Cons.prems by simp
      have ch: "chunks n (batch @ (p # zs)) = ?b # chunks n zs" for zs
        using chunks_append [of ?b zs] unfolding n by simp
      obtain er db1 where e: "ex (ins ?b) db = (er, db1)" by (cases "ex (ins ?b) db")
      show ?thesis
      proof (cases er)
        case None
        obtain er' batch' db' where IH: "stage_lines ex ins (int n) ls [] db1 = (er', batch', db')" "er' = None \<longrightarrow> length batch' < n"
          "\<forall>ps. (case er' of Some e \<Rightarrow> (Some e, db') | None \<Rightarrow> insert_all ex ins (chunks n (batch' @ ps)) db') =
            insert_all ex ins (chunks n ([] @ List.map_filter stage_pair ls @ ps)) db1"
          using Cons.IH [of "[]" db1] Cons.prems by auto
        then show ?thesis using True Some e None by (simp add: stage_flush_def ch mf del: List.map_filter_simps)
      next
        case (Some e')
        then show ?thesis using True \<open>stage_pair l = Some p\<close> e
          by (simp add: stage_flush_def ch mf del: List.map_filter_simps)
      qed
    next
      case False
      then have "length ?b < n" by simp
      from Cons.IH [OF this, of db] show ?thesis using False Some by (simp add: mf del: List.map_filter_simps)
    qed
  qed
qed

lemma stage_files_split:
  assumes "\<forall>f \<in> set files. \<exists>s. d f = Some s \<and> \<not> snd (scan_lines s)" "length batch < n"
  shows "\<exists>er batch' db'. stage_files ex ins (int n) d files batch db = (er, batch', db') \<and> (er = None \<longrightarrow> length batch' < n) \<and>
    (case er of Some e \<Rightarrow> (Some e, db') | None \<Rightarrow> insert_all ex ins (chunks n batch') db') =
      insert_all ex ins (chunks n (batch @ stage_file_pairs d files)) db"
  using assms
proof (induction files arbitrary: batch db)
  case Nil
  then show ?case by (simp add: stage_file_pairs_def)
next
  case (Cons f files)
  obtain s where s: "d f = Some s" "\<not> snd (scan_lines s)" using Cons.prems by auto
  let ?ls = "fst (scan_lines s)"
  obtain er batch1 db1 where l: "stage_lines ex ins (int n) ?ls batch db = (er, batch1, db1)" "er = None \<longrightarrow> length batch1 < n"
    "\<And>ps. (case er of Some e \<Rightarrow> (Some e, db1) | None \<Rightarrow> insert_all ex ins (chunks n (batch1 @ ps)) db1) =
      insert_all ex ins (chunks n (batch @ List.map_filter stage_pair ?ls @ ps)) db"
    using stage_lines_split [OF Cons.prems(2), of ex ins ?ls db] by blast
  have ps: "stage_file_pairs d (f # files) = List.map_filter stage_pair ?ls @ stage_file_pairs d files"
    using s by (simp add: stage_file_pairs_def)
  show ?case
  proof (cases er)
    case None
    then have "length batch1 < n" using l(2) by simp
    from Cons.IH [OF _ this, of db1] show ?thesis
      using Cons.prems(1) l(1) l(3) [of "stage_file_pairs d files"] s None unfolding ps by simp
  next
    case (Some e)
    then show ?thesis using l(1) l(3) [of "stage_file_pairs d files"] s unfolding ps by simp
  qed
qed

lemma load_as_batches:
  assumes files: "\<forall>f \<in> set files. \<exists>s. d f = Some s \<and> \<not> snd (scan_lines s)" and n: "0 < n"
  shows "loadReduceFilesIntoStage ex d files stageTable keyCol valCol n db =
    insert_all ex (insert_stmt stageTable keyCol valCol) (chunks (nat n) (stage_file_pairs d files)) db"
proof -
  let ?ins = "insert_stmt stageTable keyCol valCol"
  obtain er batch' db' where r: "stage_files ex ?ins (int (nat n)) d files [] db = (er, batch', db')"
    "er = None \<longrightarrow> length batch' < nat n"
    "(case er of Some e \<Rightarrow> (Some e, db') | None \<Rightarrow> insert_all ex ?ins (chunks (nat n) batch') db') =
      insert_all ex ?ins (chunks (nat n) ([] @ stage_file_pairs d files)) db"
    using stage_files_split [OF files, of "[]" "nat n" ex ?ins db] n by auto
  have "loadReduceFilesIntoStage ex d files stageTable keyCol valCol n db = finish ex ?ins (er, batch', db')"
    using r(1) n by (simp add: loadReduceFilesIntoStage_def finish_def Let_def)
  also have "\<dots> = (case er of Some e \<Rightarrow> (Some e, db') | None \<Rightarrow> insert_all ex ?ins (chunks (nat n) batch') db')"
  proof (cases er)
    case None
    then show ?thesis using r(2) finish_flush [of batch' "nat n"] by simp
  qed (simp add: finish_def)
  finally show ?thesis using r(3) by simp
qed

subsection \<open>Databases that answer as documented\<close>

text \<open>
  \<open>tgt\<close> and \<open>stg\<close> read the target table and the rows of the staging table off a state. The staging
  table has no unique key, so its rows are a multiset. The key columns compare byte by byte. A
  key of more than 255 characters, a statement with more than 65535 placeholders and a sum outside
  \<^verbatim>\<open>BIGINT\<close> are outside the laws.
\<close>

definition stage_sum :: "(string \<times> int) multiset \<Rightarrow> string \<Rightarrow> int" where
  "stage_sum S k = sum_mset (image_mset snd (filter_mset (\<lambda>p. fst p = k) S))"

definition upserted :: "(string \<rightharpoonup> int) \<Rightarrow> (string \<times> int) multiset \<Rightarrow> (string \<rightharpoonup> int)" where
  "upserted t S = (\<lambda>k. if k \<in> fst ` set_mset S then Some (stage_sum S k) else t k)"

definition answers :: "'db sink_exec \<Rightarrow> ('db \<Rightarrow> string \<rightharpoonup> int) \<Rightarrow> ('db \<Rightarrow> (string \<times> int) multiset) \<Rightarrow> sink_stmt \<Rightarrow> 'db \<Rightarrow>
    (string \<rightharpoonup> int) \<Rightarrow> (string \<times> int) multiset \<Rightarrow> bool" where
  "answers ex tgt stg st db t S \<longleftrightarrow> (\<exists>db'. ex st db = (None, db') \<and> tgt db' = t \<and> stg db' = S)"

definition storable :: "(string \<times> int) list \<Rightarrow> bool" where
  "storable rows \<longleftrightarrow> (\<forall>(k, v) \<in> set rows. length k \<le> 255 \<and> int64 v)"

definition sink_laws :: "'db sink_exec \<Rightarrow> ('db \<Rightarrow> string \<rightharpoonup> int) \<Rightarrow> ('db \<Rightarrow> (string \<times> int) multiset) \<Rightarrow>
    string \<Rightarrow> string \<Rightarrow> string \<Rightarrow> string \<Rightarrow> bool" where
  "sink_laws ex tgt stg table stageTable keyCol valCol \<longleftrightarrow>
     (\<forall>db.
        answers ex tgt stg BeginTx db (tgt db) (stg db) \<and>
        answers ex tgt stg (ExecSQL (createTargetSQL table keyCol valCol) []) db (tgt db) (stg db) \<and>
        answers ex tgt stg (ExecSQL (dropStageIfExistsSQL stageTable) []) db (tgt db) {#} \<and>
        answers ex tgt stg (ExecSQL (createStageSQL stageTable keyCol valCol) []) db (tgt db) {#} \<and>
        (\<forall>rows. rows \<noteq> [] \<and> 2 * length rows \<le> 65535 \<and> storable rows \<longrightarrow>
           answers ex tgt stg (insert_stmt stageTable keyCol valCol rows) db (tgt db) (stg db + mset rows)) \<and>
        answers ex tgt stg (ExecSQL (truncateSQL table) []) db Map.empty (stg db) \<and>
        ((\<forall>k. int64 (stage_sum (stg db) k)) \<longrightarrow>
           answers ex tgt stg (ExecSQL (upsertSQL table stageTable keyCol valCol) []) db (upserted (tgt db) (stg db)) (stg db)) \<and>
        answers ex tgt stg (ExecSQL (dropStageSQL stageTable) []) db (tgt db) {#} \<and>
        answers ex tgt stg Commit db (tgt db) (stg db))"

lemma sink_lawsD:
  assumes "sink_laws ex tgt stg table stageTable keyCol valCol"
  shows "answers ex tgt stg BeginTx db (tgt db) (stg db)"
    and "answers ex tgt stg (ExecSQL (createTargetSQL table keyCol valCol) []) db (tgt db) (stg db)"
    and "answers ex tgt stg (ExecSQL (dropStageIfExistsSQL stageTable) []) db (tgt db) {#}"
    and "answers ex tgt stg (ExecSQL (createStageSQL stageTable keyCol valCol) []) db (tgt db) {#}"
    and "rows \<noteq> [] \<Longrightarrow> 2 * length rows \<le> 65535 \<Longrightarrow> storable rows \<Longrightarrow>
      answers ex tgt stg (insert_stmt stageTable keyCol valCol rows) db (tgt db) (stg db + mset rows)"
    and "answers ex tgt stg (ExecSQL (truncateSQL table) []) db Map.empty (stg db)"
    and "\<forall>k. int64 (stage_sum (stg db) k) \<Longrightarrow>
      answers ex tgt stg (ExecSQL (upsertSQL table stageTable keyCol valCol) []) db (upserted (tgt db) (stg db)) (stg db)"
    and "answers ex tgt stg (ExecSQL (dropStageSQL stageTable) []) db (tgt db) {#}"
    and "answers ex tgt stg Commit db (tgt db) (stg db)"
  using assms unfolding sink_laws_def by simp_all

lemma insert_all_stage:
  assumes laws: "sink_laws ex tgt stg table stageTable keyCol valCol"
    and bs: "\<forall>b \<in> set bs. b \<noteq> [] \<and> 2 * length b \<le> 65535 \<and> storable b"
  shows "\<exists>db'. insert_all ex (insert_stmt stageTable keyCol valCol) bs db = (None, db') \<and>
    tgt db' = tgt db \<and> stg db' = stg db + mset (concat bs)"
  using bs
proof (induction bs arbitrary: db)
  case (Cons b bs)
  obtain db1 where db1: "ex (insert_stmt stageTable keyCol valCol b) db = (None, db1)" "tgt db1 = tgt db" "stg db1 = stg db + mset b"
    using sink_lawsD(5) [OF laws, of b db] Cons.prems by (auto simp: answers_def)
  then show ?case using Cons.IH [of db1] Cons.prems by (auto simp: add.assoc)
qed simp

lemma load_stage:
  assumes laws: "sink_laws ex tgt stg table stageTable keyCol valCol"
    and files: "\<forall>f \<in> set files. \<exists>s. d f = Some s \<and> \<not> snd (scan_lines s)"
    and n: "0 < n" "2 * n \<le> 65535" and ps: "storable (stage_file_pairs d files)"
  obtains db' where "loadReduceFilesIntoStage ex d files stageTable keyCol valCol n db = (None, db')"
    "tgt db' = tgt db" "stg db' = stg db + mset (stage_file_pairs d files)"
proof -
  have "b \<noteq> [] \<and> 2 * length b \<le> 65535 \<and> storable b" if "b \<in> set (chunks (nat n) (stage_file_pairs d files))" for b
    using chunks_sizes [OF that] n ps by (auto simp: storable_def)
  then obtain db' where "insert_all ex (insert_stmt stageTable keyCol valCol) (chunks (nat n) (stage_file_pairs d files)) db = (None, db')"
    "tgt db' = tgt db" "stg db' = stg db + mset (concat (chunks (nat n) (stage_file_pairs d files)))"
    using insert_all_stage [OF laws] by blast
  then show thesis using that n by (simp add: load_as_batches [OF files n(1)] concat_chunks)
qed

lemma import_tx_result:
  assumes laws: "sink_laws ex tgt stg table stageTable keyCol valCol"
    and files: "\<forall>f \<in> set files. \<exists>s. d f = Some s \<and> \<not> snd (scan_lines s)"
    and n: "0 < BatchSize c" "2 * BatchSize c \<le> 65535" and ps: "storable (stage_file_pairs d files)"
    and sums: "\<forall>k. int64 (stage_sum (mset (stage_file_pairs d files)) k)"
  shows "\<exists>db'. import_tx ex d files c table stageTable keyCol valCol db0 = (None, db') \<and>
    tgt db' = upserted (if Replace c then Map.empty else tgt db0) (mset (stage_file_pairs d files)) \<and> stg db' = {#}"
proof -
  note law = sink_lawsD [OF laws]
  obtain db1 where db1: "tx_then ex (ex (ExecSQL (createTargetSQL table keyCol valCol) []) db0) k = k db1"
    "tgt db1 = tgt db0" for k using law(2) [of db0] by (auto simp: answers_def tx_then_def)
  obtain db2 where db2: "tx_then ex (ex (ExecSQL (dropStageIfExistsSQL stageTable) []) db1) k = k db2"
    "tgt db2 = tgt db1" for k using law(3) [of db1] by (auto simp: answers_def tx_then_def)
  obtain db3 where db3: "tx_then ex (ex (ExecSQL (createStageSQL stageTable keyCol valCol) []) db2) k = k db3"
    "tgt db3 = tgt db2" "stg db3 = {#}" for k using law(4) [of db2] by (auto simp: answers_def tx_then_def)
  obtain db4 where ld: "loadReduceFilesIntoStage ex d files stageTable keyCol valCol (BatchSize c) db3 = (None, db4)"
    "tgt db4 = tgt db3" "stg db4 = stg db3 + mset (stage_file_pairs d files)"
    by (rule load_stage [OF laws files n ps])
  then have db4: "tx_then ex (loadReduceFilesIntoStage ex d files stageTable keyCol valCol (BatchSize c) db3) k = k db4"
    "tgt db4 = tgt db3" "stg db4 = mset (stage_file_pairs d files)" for k
    using db3(3) by (simp_all add: tx_then_def)
  obtain db5 where db5: "tx_then ex (if Replace c then ex (ExecSQL (truncateSQL table) []) db4 else (None, db4)) k = k db5"
    "tgt db5 = (if Replace c then Map.empty else tgt db4)" "stg db5 = stg db4" for k
    using law(6) [of db4] by (cases "Replace c") (auto simp: answers_def tx_then_def)
  obtain db6 where db6: "tx_then ex (ex (ExecSQL (upsertSQL table stageTable keyCol valCol) []) db5) k = k db6"
    "tgt db6 = upserted (tgt db5) (stg db5)" for k
    using law(7) [of db5] sums db5(3) db4(3) by (auto simp: answers_def tx_then_def)
  obtain db7 where db7: "tx_then ex (ex (ExecSQL (dropStageSQL stageTable) []) db6) k = k db7"
    "tgt db7 = tgt db6" "stg db7 = {#}" for k using law(8) [of db6] by (auto simp: answers_def tx_then_def)
  show ?thesis
    using law(9) [of db7] db1(2) db2(2) db3(2) db4(2,3) db5(2,3) db6(2) db7(2,3)
    by (auto simp: import_tx_def answers_def db1(1) db2(1) db3(1) db4(1) db5(1) db6(1) db7(1))
qed

lemma sink_columns_table: "sink_columns c = Inr y \<Longrightarrow> TargetTable c \<noteq> []"
  by (auto simp: sink_columns_def bind_result_Inr_iff quoteIdentifier_def identifierRe_def split: if_splits)

lemma sink_columns_stage:
  assumes "sink_columns c = Inr y"
  shows "quoteIdentifier (TargetTable c @ ''_staging_tmp'') = Inr (backquote # TargetTable c @ ''_staging_tmp'' @ [backquote])"
proof -
  have "identifierRe (TargetTable c)"
    using assms by (auto simp: sink_columns_def bind_result_Inr_iff quoteIdentifier_def split: if_splits)
  then have "identifierRe (TargetTable c @ ''_staging_tmp'')"
    by (cases "TargetTable c") (auto simp: identifierRe_def ident_start_def)
  then show ?thesis by (simp add: quoteIdentifier_def)
qed

lemma import_result:
  assumes col: "sink_columns (sink_WithDefaults cfg) = Inr (table, keyCol, valCol)"
    and laws: "sink_laws ex tgt stg table (backquote # TargetTable cfg @ ''_staging_tmp'' @ [backquote]) keyCol valCol"
    and glb: "glb (InputGlob (sink_WithDefaults cfg)) d = Inr files" "files \<noteq> []"
    and files: "\<forall>f \<in> set files. \<exists>s. d f = Some s \<and> \<not> snd (scan_lines s)"
    and n: "BatchSize cfg \<le> 32767" and ps: "storable (stage_file_pairs d files)"
    and sums: "\<forall>k. int64 (stage_sum (mset (stage_file_pairs d files)) k)"
  shows "\<exists>db'. ImportReduceOutputs ex glb d cfg db = (None, db') \<and>
    tgt db' = upserted (if Replace cfg then Map.empty else tgt db) (mset (stage_file_pairs d files)) \<and> stg db' = {#}"
proof -
  let ?c = "sink_WithDefaults cfg"
  have sel: "TargetTable ?c = TargetTable cfg" "Replace ?c = Replace cfg" by (simp_all add: sink_WithDefaults_def)
  have n': "0 < BatchSize ?c" "2 * BatchSize ?c \<le> 65535" using n by (simp_all add: sink_WithDefaults_def)
  obtain db0 where db0: "ex BeginTx db = (None, db0)" "tgt db0 = tgt db"
    using sink_lawsD(1) [OF laws, of db] by (auto simp: answers_def)
  have "ImportReduceOutputs ex glb d cfg db = import_tx ex d files ?c table
      (backquote # TargetTable cfg @ ''_staging_tmp'' @ [backquote]) keyCol valCol db0"
    using sink_columns_table [OF col] sink_columns_stage [OF col] col glb db0
    by (simp add: ImportReduceOutputs_def Let_def sel)
  then show ?thesis using import_tx_result [OF laws files n' ps sums, of db0] unfolding sel db0(2) by metis
qed

subsection \<open>Errors\<close>

lemma tx_then_error:
  "tx_then ex r k = (Some er, db') \<Longrightarrow> (\<exists>db1. db' = snd (ex Rollback db1)) \<or> (\<exists>db1. k db1 = (Some er, db'))"
  by (auto simp: tx_then_def split: prod.splits option.splits)

lemma import_tx_error:
  assumes "import_tx ex d files c table stageTable keyCol valCol db0 = (Some er, db')"
  shows "(\<exists>db1. db' = snd (ex Rollback db1)) \<or> (\<exists>db1. ex Commit db1 = (Some er, db'))"
proof (rule ccontr)
  assume no: "\<not> ?thesis"
  have step: "\<exists>db1. k db1 = (Some er, db')" if "tx_then ex r k = (Some er, db')" for r k
    using tx_then_error [OF that] no by blast
  show False
    using assms no unfolding import_tx_def by (blast dest!: step)
qed

subsection \<open>Files of printed numbers\<close>

definition number_line :: "string \<times> int \<Rightarrow> string" where
  "number_line p = out_line (newKV (fst p) (itoa (snd p)))"

definition number_ok :: "string \<times> int \<Rightarrow> bool" where
  "number_ok p \<longleftrightarrow> is_word (fst p) \<and> length (fst p) \<le> 255 \<and> int64 (snd p)"

lemma number_lines:
  assumes "\<forall>p \<in> set ps. number_ok p"
  shows "List.map_filter stage_pair (fst (scan_lines (concat (map number_line ps)))) = ps"
    and "\<not> snd (scan_lines (concat (map number_line ps)))"
proof -
  let ?kvs = "map (\<lambda>p. newKV (fst p) (itoa (snd p))) ps"
  have ok: "\<forall>kv \<in> set ?kvs. printed_ok kv"
    using assms by (auto simp: number_ok_def intro!: printed_ok_number)
  have e: "map out_line ?kvs = map number_line ps" by (simp add: number_line_def)
  show "\<not> snd (scan_lines (concat (map number_line ps)))" using printed_fields(2) [OF ok] unfolding e .
  have "List.map_filter stage_pair (map (\<lambda>kv. Key kv @ SP # Value kv) ?kvs) = ps"
    using assms
    by (induction ps) (auto simp: stage_pair_def number_ok_def line_fields_pair is_word_itoa itoa_ends_clean atoi_itoa)
  then show "List.map_filter stage_pair (fst (scan_lines (concat (map number_line ps)))) = ps"
    using printed_lines [OF ok] unfolding e by simp
qed

lemma number_files:
  assumes "\<forall>f \<in> set files. d f = Some (concat (map number_line (rows f))) \<and> (\<forall>p \<in> set (rows f). number_ok p)"
  shows "\<forall>f \<in> set files. \<exists>s. d f = Some s \<and> \<not> snd (scan_lines s)"
    and "stage_file_pairs d files = concat (map rows files)" and "storable (stage_file_pairs d files)"
proof -
  show "\<forall>f \<in> set files. \<exists>s. d f = Some s \<and> \<not> snd (scan_lines s)" using assms number_lines(2) by blast
  show e: "stage_file_pairs d files = concat (map rows files)"
    using assms by (auto simp: stage_file_pairs_def number_lines(1) intro!: arg_cong [where f = concat])
  show "storable (stage_file_pairs d files)" using assms by (fastforce simp: e storable_def number_ok_def)
qed

section \<open>Properties\<close>

text \<open>
  C26. The batched load of the staging table is the unbatched one, for every database: where the files can
  be read, it is the same as to take the pairs of all files in order, to cut them into batches of at most
  the batch size, none empty, and to insert one batch after the other up to the first error.
  No pair is lost at the end of a file or of a batch, and none is inserted twice.
\<close>

theorem load_batches_equiv:
  assumes "\<forall>f \<in> set files. \<exists>s. d f = Some s \<and> \<not> snd (scan_lines s)" "0 < n"
  shows "\<exists>bs. loadReduceFilesIntoStage ex d files stageTable keyCol valCol n db =
      insert_all ex (insert_stmt stageTable keyCol valCol) bs db \<and>
    concat bs = stage_file_pairs d files \<and> (\<forall>b \<in> set bs. b \<noteq> [] \<and> int (length b) \<le> n)"
proof -
  let ?bs = "chunks (nat n) (stage_file_pairs d files)"
  have "\<forall>b \<in> set ?bs. b \<noteq> [] \<and> int (length b) \<le> n"
  proof
    fix b assume "b \<in> set ?bs"
    then show "b \<noteq> [] \<and> int (length b) \<le> n" using chunks_sizes [of b "nat n"] assms(2) by (simp add: le_nat_iff)
  qed
  moreover have "concat ?bs = stage_file_pairs d files" using assms(2) by (intro concat_chunks) simp
  ultimately show ?thesis by (intro exI [of _ ?bs]) (simp add: load_as_batches [OF assms])
qed

definition batch_disk :: fs where
  "batch_disk = [''f'' \<mapsto> ''a 1'', ''g'' \<mapsto> []]"

definition log_exec :: "sink_stmt list sink_exec" where
  "log_exec st db = (None, db @ [st])"

theorem load_batches_equiv_witness:
  "\<exists>bs. loadReduceFilesIntoStage log_exec batch_disk [''f'', ''g''] ''s'' ''k'' ''v'' 2 [] =
      insert_all log_exec (insert_stmt ''s'' ''k'' ''v'') bs [] \<and> concat bs = stage_file_pairs batch_disk [''f'', ''g'']"
proof -
  have "\<not> snd (scan_lines ''a 1'')" "\<not> snd (scan_lines [])"
    by (simp_all add: scan_lines_def raw_lines_def max_scan_token_size_def)
  then have "\<forall>f \<in> set [''f'', ''g'']. \<exists>s. batch_disk f = Some s \<and> \<not> snd (scan_lines s)" by (simp add: batch_disk_def)
  from load_batches_equiv [OF this, of 2 log_exec "''s''" "''k''" "''v''" "[]"] show ?thesis by auto
qed


text \<open>A database for the witness: a pair of target table and staging rows.\<close>

type_synonym two_tables = "(string \<rightharpoonup> int) \<times> (string \<times> int) multiset"

fun args_rows :: "sql_arg list \<Rightarrow> (string \<times> int) list" where
  "args_rows (ArgText k # ArgInt v # as) = (k, v) # args_rows as"
| "args_rows _ = []"

definition table_exec :: "string \<Rightarrow> string \<Rightarrow> string \<Rightarrow> string \<Rightarrow> two_tables sink_exec" where
  "table_exec table stageTable keyCol valCol st db =
     (case (st, db) of
        (ExecSQL q as, (t, S)) \<Rightarrow>
          (None,
           (if as \<noteq> [] then (t, S + mset (args_rows as))
            else if q = createTargetSQL table keyCol valCol then (t, S)
            else if q = truncateSQL table then (Map.empty, S)
            else if q = upsertSQL table stageTable keyCol valCol then (upserted t S, S)
            else (t, {#})))
      | _ \<Rightarrow> (None, db))"

lemma args_rows_insert: "args_rows (insert_args rows) = rows"
  by (induction rows) (auto simp: insert_args_def)

lemma table_exec_laws: "sink_laws (table_exec table stageTable keyCol valCol) fst snd table stageTable keyCol valCol"
proof -
  have "insert_args rows \<noteq> []" if "rows \<noteq> []" for rows using that by (cases rows) (auto simp: insert_args_def)
  then show ?thesis
    by (auto simp: sink_laws_def answers_def table_exec_def insert_stmt_def args_rows_insert createTargetSQL_def
        truncateSQL_def upsertSQL_def dropStageSQL_def dropStageIfExistsSQL_def createStageSQL_def)
qed

definition sample_sink :: SinkConfig where
  "sample_sink = \<lparr>TargetTable = ''t'', SinkKeyColumn = [], SinkValColumn = [], InputGlob = [], Replace = True, BatchSize = 0\<rparr>"

lemma sample_sink_columns: "sink_columns (sink_WithDefaults sample_sink) =
    Inr (backquote # ''t'' @ [backquote], backquote # ''biz_key'' @ [backquote], backquote # ''metric_sum'' @ [backquote])"
  by (simp add: sink_columns_def sample_sink_def sink_WithDefaults_def or_default_def quoteIdentifier_def identifierRe_def ident_start_def)

definition sample_exec :: "two_tables sink_exec" where
  "sample_exec = table_exec (backquote # ''t'' @ [backquote]) (backquote # ''t_staging_tmp'' @ [backquote])
     (backquote # ''biz_key'' @ [backquote]) (backquote # ''metric_sum'' @ [backquote])"

definition sample_disk :: fs where
  "sample_disk = [''o'' \<mapsto> concat (map number_line [(''a'', 5), (''b'', 7)])]"


text \<open>
  C27. Errors of the import, for every database: an error before the transaction executes no statement;
  an error inside it is followed by a rollback, and the only other errors are those of the begin
  and of the commit. A missing table name and a pattern that matches no file are errors of the first kind.
\<close>

theorem import_errors:
  assumes "ImportReduceOutputs ex glb d cfg db = (Some er, db')"
  shows "(db' = db \<or> ex BeginTx db = (Some er, db') \<or>
      (\<exists>db1. db' = snd (ex Rollback db1)) \<or> (\<exists>db1. ex Commit db1 = (Some er, db'))) \<and>
    (TargetTable cfg = [] \<longrightarrow> er = ''target table is required'' \<and> db' = db) \<and>
    ((\<exists>cols. sink_columns (sink_WithDefaults cfg) = Inr cols) \<and> glb (InputGlob (sink_WithDefaults cfg)) d = Inr [] \<longrightarrow>
      er = ''no reduce output files matched: '' @ InputGlob (sink_WithDefaults cfg) \<and> db' = db)"
proof -
  let ?c = "sink_WithDefaults cfg"
  have t: "TargetTable ?c = TargetTable cfg" by (simp add: sink_WithDefaults_def)
  have run: "db' = db \<or> ex BeginTx db = (Some er, db') \<or>
      (\<exists>files table stageTable keyCol valCol db0. import_tx ex d files ?c table stageTable keyCol valCol db0 = (Some er, db'))"
    using assms unfolding ImportReduceOutputs_def Let_def
    by (auto split: if_splits sum.splits prod.splits option.splits)
  have req: "TargetTable cfg = [] \<Longrightarrow> er = ''target table is required'' \<and> db' = db"
    using assms by (simp add: ImportReduceOutputs_def t)
  have none: "er = ''no reduce output files matched: '' @ InputGlob ?c \<and> db' = db"
    if "sink_columns ?c = Inr cols" "glb (InputGlob ?c) d = Inr []" for cols
    using assms that sink_columns_table [OF that(1)] by (cases cols) (simp add: ImportReduceOutputs_def)
  show ?thesis
  proof (intro conjI impI)
    show "db' = db \<or> ex BeginTx db = (Some er, db') \<or>
        (\<exists>db1. db' = snd (ex Rollback db1)) \<or> (\<exists>db1. ex Commit db1 = (Some er, db'))"
      using run import_tx_error [of ex] by blast
  qed (use req none in auto)
qed

theorem import_errors_witness:
  "ImportReduceOutputs sample_exec (\<lambda>g d. Inr []) sample_disk sample_sink (Map.empty, {#}) =
     (Some ''no reduce output files matched: mr-out-*.txt'', (Map.empty, {#}))"
proof -
  obtain er db' where r: "ImportReduceOutputs sample_exec (\<lambda>g d. Inr []) sample_disk sample_sink (Map.empty, {#}) = (Some er, db')"
    using sink_columns_table [OF sample_sink_columns] by (simp add: ImportReduceOutputs_def Let_def sample_sink_columns)
  have "InputGlob (sink_WithDefaults sample_sink) = ''mr-out-*.txt''"
    by (simp add: sample_sink_def sink_WithDefaults_def or_default_def)
  then show ?thesis using import_errors [OF r] sample_sink_columns r by simp
qed

end
