(* ===== verification/Batch_Config.thy ===== *)
theory Batch_Config
  imports Mysql_Sink
begin

text \<open>
  Connections, synthetic tables and the check of a result (\<^verbatim>\<open>batch/types.go\<close>, \<^verbatim>\<open>batch/prepare_validate.go\<close>):
  the data source name, the batches of generated rows, and the row by row comparison of the source
  aggregation with the target table.
\<close>

subsection \<open>Connections\<close>

text \<open>The parameters are a Go map: pairs with distinct keys, in the order of one iteration.\<close>

record DBConfig =
  DbHost :: string
  DbPort :: int
  DbUser :: string
  DbPassword :: string
  DbDatabase :: string
  DbParams :: "(string \<times> string) list"

definition dsn_params :: "DBConfig \<Rightarrow> string \<rightharpoonup> string" where
  "dsn_params c = [''parseTime'' \<mapsto> ''true'', ''charset'' \<mapsto> ''utf8mb4''] ++ map_of (DbParams c)"

definition dsn_keys :: "DBConfig \<Rightarrow> string list" where
  "dsn_keys c = sort (remdups ([''parseTime'', ''charset''] @ map fst (DbParams c)))"

definition dsn :: "DBConfig \<Rightarrow> string" where
  "dsn c =
     (let host = or_default ''127.0.0.1'' (DbHost c); port = (if DbPort c = 0 then 3306 else DbPort c);
          parts = map (\<lambda>k. k @ ''='' @ the (dsn_params c k)) (dsn_keys c)
      in DbUser c @ '':'' @ DbPassword c @ ''@tcp('' @ host @ '':'' @ itoa port @ '')/'' @ DbDatabase c @ ''?'' @ join ''&'' parts)"

text \<open>\<open>ping\<close> is what \<^verbatim>\<open>sql.Open\<close> and \<^verbatim>\<open>Ping\<close> answer for a data source name.\<close>

definition openDB :: "(string \<Rightarrow> string option) \<Rightarrow> DBConfig \<Rightarrow> string option" where
  "openDB ping cfg =
     (if DbUser cfg = [] then Some ''db user is required''
      else if DbDatabase cfg = [] then Some ''db database is required''
      else ping (dsn cfg))"

lemma dsn_keys_set: "set (dsn_keys c) = {''parseTime'', ''charset''} \<union> fst ` set (DbParams c)"
  by (auto simp: dsn_keys_def)

lemma dsn_keys_sorted: "sorted (dsn_keys c)" "distinct (dsn_keys c)"
  by (simp_all add: dsn_keys_def)

lemma dsn_keys_cong: "set (DbParams c) = set (DbParams c') \<Longrightarrow> dsn_keys c = dsn_keys c'"
  by (rule sorted_distinct_set_unique) (simp_all add: dsn_keys_sorted dsn_keys_set)

subsection \<open>Synthetic rows\<close>

record PrepareConfig =
  PrepTable :: string
  PrepRows :: int
  PrepKeyMod :: int

definition prepare_WithDefaults :: "PrepareConfig \<Rightarrow> PrepareConfig" where
  "prepare_WithDefaults c =
     c\<lparr>PrepTable := or_default ''source_events'' (PrepTable c),
       PrepRows := (if PrepRows c \<le> 0 then 10000000 else PrepRows c),
       PrepKeyMod := (if PrepKeyMod c \<le> 0 then 100000 else PrepKeyMod c)\<rparr>"

definition synth_row :: "int \<Rightarrow> nat \<Rightarrow> sql_arg list" where
  "synth_row keyMod i = [ArgInt (int i + 1), ArgText (''key_'' @ pad5 (nat (int i mod keyMod))), ArgInt (1 + int i mod 5)]"

definition synth_insert :: "string \<Rightarrow> int \<Rightarrow> nat list \<Rightarrow> sink_stmt" where
  "synth_insert table keyMod is =
     ExecSQL (''INSERT INTO '' @ table @ '' (id, biz_key, metric) VALUES '' @ join '','' (replicate (length is) ''(?, ?, ?)''))
       (concat (map (synth_row keyMod) is))"

definition createSourceSQL :: "string \<Rightarrow> string" where
  "createSourceSQL table =
     [NL] @ ''CREATE TABLE '' @ table @ '' ('' @ [NL] @ ''  id BIGINT NOT NULL,'' @ [NL] @ ''  biz_key VARCHAR(64) NOT NULL,'' @ [NL] @
     ''  metric INT NOT NULL,'' @ [NL] @ ''  PRIMARY KEY (id),'' @ [NL] @ ''  KEY idx_biz_key (biz_key)'' @ [NL] @ '') ENGINE=InnoDB'' @ [NL]"

text \<open>The loop over the batches; the row numbers stay far below the 64-bit limit for every table that can be filled.\<close>

function prepare_loop :: "'db sink_exec \<Rightarrow> string \<Rightarrow> int \<Rightarrow> nat \<Rightarrow> nat \<Rightarrow> 'db \<Rightarrow> string option \<times> 'db" where
  "prepare_loop ex table keyMod rows start db =
     (if start < rows
      then (let en = (if rows < start + 5000 then rows else start + 5000)
            in case ex (synth_insert table keyMod [start..<en]) db of
                 (Some er, db') \<Rightarrow> (Some er, db')
               | (None, db') \<Rightarrow> prepare_loop ex table keyMod rows (start + 5000) db')
      else (None, db))"
  by pat_completeness auto
termination
  by (relation "measure (\<lambda>(ex, t, k, rows, start, db). rows - start)") auto

declare prepare_loop.simps [simp del]

definition exec_then :: "string option \<times> 'db \<Rightarrow> ('db \<Rightarrow> string option \<times> 'db) \<Rightarrow> string option \<times> 'db" where
  "exec_then r k = (case r of (Some er, db) \<Rightarrow> (Some er, db) | (None, db) \<Rightarrow> k db)"

definition PrepareSyntheticSource :: "'db sink_exec \<Rightarrow> PrepareConfig \<Rightarrow> 'db \<Rightarrow> string option \<times> 'db" where
  "PrepareSyntheticSource ex cfg db =
     (let c = prepare_WithDefaults cfg in
      case quoteIdentifier (PrepTable c) of
        Inl er \<Rightarrow> (Some er, db)
      | Inr table \<Rightarrow>
          exec_then (ex (ExecSQL (''DROP TABLE IF EXISTS '' @ table) []) db) (\<lambda>db1.
          exec_then (ex (ExecSQL (createSourceSQL table) []) db1) (\<lambda>db2.
          exec_then (prepare_loop ex table (PrepKeyMod c) (nat (PrepRows c)) 0 db2) (\<lambda>db3.
          ex (ExecSQL (''ANALYZE TABLE '' @ table) []) db3))))"

lemma drop_upt_chunk: "drop 5000 [start..<rows] = [start + 5000..<rows]"
  by simp

lemma prepare_loop_chunks:
  "prepare_loop ex table keyMod rows start db =
     insert_all ex (synth_insert table keyMod) (chunks 5000 [start..<rows]) db"
proof (induction ex table keyMod rows start db rule: prepare_loop.induct)
  case (1 ex table keyMod rows start db)
  show ?case
  proof (cases "start < rows")
    case True
    define en where "en = (if rows < start + 5000 then rows else start + 5000)"
    have tk: "take 5000 [start..<rows] = [start..<en]" using True by (simp add: en_def)
    have "chunks 5000 [start..<rows] = [start..<en] # chunks 5000 [start + 5000..<rows]"
      using True by (simp add: chunks.simps [of 5000 "[start..<rows]"] tk)
    then show ?thesis using True 1 unfolding en_def
      by (subst prepare_loop.simps) (auto simp: Let_def split: prod.splits option.splits)
  next
    case False
    then show ?thesis by (subst prepare_loop.simps) simp
  qed
qed

subsection \<open>Validation\<close>

record ValidateConfig =
  SourceTable :: string
  SourceKey :: string
  SourceVal :: string
  ValTargetTable :: string
  TargetKey :: string
  TargetVal :: string

definition validate_WithDefaults :: "ValidateConfig \<Rightarrow> ValidateConfig" where
  "validate_WithDefaults c =
     c\<lparr>SourceKey := or_default ''biz_key'' (SourceKey c), SourceVal := or_default ''metric'' (SourceVal c),
       TargetKey := or_default ''biz_key'' (TargetKey c), TargetVal := or_default ''metric_sum'' (TargetVal c)\<rparr>"

definition expectedSQL :: "string \<Rightarrow> string \<Rightarrow> string \<Rightarrow> string" where
  "expectedSQL srcTable srcKey srcVal =
     [NL] @ ''SELECT '' @ srcKey @ '', SUM('' @ srcVal @ '') AS total'' @ [NL] @ ''FROM '' @ srcTable @ [NL] @
     ''GROUP BY '' @ srcKey @ [NL] @ ''ORDER BY '' @ srcKey"

definition actualSQL :: "string \<Rightarrow> string \<Rightarrow> string \<Rightarrow> string" where
  "actualSQL tgtTable tgtKey tgtVal =
     [NL] @ ''SELECT '' @ tgtKey @ '', '' @ tgtVal @ [NL] @ ''FROM '' @ tgtTable @ [NL] @ ''ORDER BY '' @ tgtKey"

text \<open>The rows of a query, each as it scans into a string and an \<^verbatim>\<open>int64\<close>, or the error of its scan, and the error of the iteration.\<close>

type_synonym scanned = "(string \<times> int) result"
type_synonym row_set = "scanned list \<times> string option"

fun compare_rows :: "nat \<Rightarrow> scanned list \<Rightarrow> scanned list \<Rightarrow> string option" where
  "compare_rows idx (e # es) (a # as) =
     (case e of
        Inl er \<Rightarrow> Some er
      | Inr (ek, ev) \<Rightarrow>
          (case a of
             Inl er \<Rightarrow> Some er
           | Inr (ak, av) \<Rightarrow>
               if ek \<noteq> ak \<or> ev \<noteq> av
               then Some (''validation mismatch at row '' @ itoa (int idx + 1) @ '': expected ('' @ ek @ '','' @ itoa ev @ ''), actual ('' @ ak @ '','' @ itoa av @ '')'')
               else compare_rows (idx + 1) es as))"
| "compare_rows idx [] [] = None"
| "compare_rows idx _ _ = Some ''row count mismatch in validation''"

definition validate_names :: "ValidateConfig \<Rightarrow> (string \<times> string) result" where
  "validate_names c =
     bind_result (quoteIdentifier (SourceTable c)) (\<lambda>srcTable.
     bind_result (quoteIdentifier (SourceKey c)) (\<lambda>srcKey.
     bind_result (quoteIdentifier (SourceVal c)) (\<lambda>srcVal.
     bind_result (quoteIdentifier (ValTargetTable c)) (\<lambda>tgtTable.
     bind_result (quoteIdentifier (TargetKey c)) (\<lambda>tgtKey.
     bind_result (quoteIdentifier (TargetVal c)) (\<lambda>tgtVal.
       Inr (expectedSQL srcTable srcKey srcVal, actualSQL tgtTable tgtKey tgtVal)))))))"

definition first_err :: "string option \<Rightarrow> string option \<Rightarrow> string option" where
  "first_err a b = (case a of Some er \<Rightarrow> Some er | None \<Rightarrow> b)"

definition ValidateAggregation :: "(string \<Rightarrow> row_set result) \<Rightarrow> ValidateConfig \<Rightarrow> string option" where
  "ValidateAggregation query cfg =
     (let c = validate_WithDefaults cfg in
      if SourceTable c = [] \<or> ValTargetTable c = [] then Some ''source table and target table are required''
      else (case validate_names c of
         Inl er \<Rightarrow> Some er
       | Inr (eSQL, aSQL) \<Rightarrow>
           (case query eSQL of
              Inl er \<Rightarrow> Some er
            | Inr (es, eErr) \<Rightarrow>
                (case query aSQL of
                   Inl er \<Rightarrow> Some er
                 | Inr (as, aErr) \<Rightarrow> first_err (compare_rows 0 es as) (first_err eErr aErr)))))"

lemma compare_rows_None:
  "compare_rows idx es as = None \<longleftrightarrow> es = as \<and> (\<forall>r \<in> set es. \<exists>p. r = Inr p)"
proof (induction idx es as rule: compare_rows.induct)
  case (1 idx e es a as)
  then show ?case by (cases e; cases a) (auto split: prod.splits)
qed auto

lemma first_err_None: "first_err a b = None \<longleftrightarrow> a = None \<and> b = None"
  by (simp add: first_err_def split: option.splits)

section \<open>Properties\<close>

text \<open>
  The synthetic source is complete: for every database, the function drops and creates the table,
  inserts the rows 1 to \<open>n\<close> in order, in batches of at most 5000 rows with no row twice and no
  empty batch, and analyses the table, stopping at the first error.
\<close>

theorem prepare_complete:
  assumes "quoteIdentifier (PrepTable (prepare_WithDefaults cfg)) = Inr table"
  shows "\<exists>bs. PrepareSyntheticSource ex cfg db =
      exec_then (ex (ExecSQL (''DROP TABLE IF EXISTS '' @ table) []) db) (\<lambda>db1.
      exec_then (ex (ExecSQL (createSourceSQL table) []) db1) (\<lambda>db2.
      exec_then (insert_all ex (synth_insert table (PrepKeyMod (prepare_WithDefaults cfg))) bs db2) (\<lambda>db3.
      ex (ExecSQL (''ANALYZE TABLE '' @ table) []) db3))) \<and>
    concat bs = [0..<nat (PrepRows (prepare_WithDefaults cfg))] \<and> (\<forall>b \<in> set bs. b \<noteq> [] \<and> length b \<le> 5000)"
proof -
  let ?bs = "chunks 5000 [0..<nat (PrepRows (prepare_WithDefaults cfg))]"
  have "concat ?bs = [0..<nat (PrepRows (prepare_WithDefaults cfg))]" by (rule concat_chunks) simp
  moreover have "\<forall>b \<in> set ?bs. b \<noteq> [] \<and> length b \<le> 5000" using chunks_sizes [where n = 5000] by blast
  ultimately show ?thesis using assms by (intro exI [of _ ?bs]) (simp add: PrepareSyntheticSource_def Let_def prepare_loop_chunks)
qed

theorem prepare_complete_witness:
  "\<exists>bs. concat bs = [0..<7] \<and>
     PrepareSyntheticSource (\<lambda>st (db :: sink_stmt list). (None, db @ [st])) \<lparr>PrepTable = ''t'', PrepRows = 7, PrepKeyMod = 3\<rparr> [] =
       exec_then (insert_all (\<lambda>st (db :: sink_stmt list). (None, db @ [st])) (synth_insert (backquote # ''t'' @ [backquote]) 3) bs
         [ExecSQL (''DROP TABLE IF EXISTS '' @ backquote # ''t'' @ [backquote]) [], ExecSQL (createSourceSQL (backquote # ''t'' @ [backquote])) []])
         (\<lambda>db. (None, db @ [ExecSQL (''ANALYZE TABLE '' @ backquote # ''t'' @ [backquote]) []]))"
proof -
  have d: "prepare_WithDefaults \<lparr>PrepTable = ''t'', PrepRows = 7, PrepKeyMod = 3\<rparr> = \<lparr>PrepTable = ''t'', PrepRows = 7, PrepKeyMod = 3\<rparr>"
    by (simp add: prepare_WithDefaults_def or_default_def)
  have "quoteIdentifier (PrepTable (prepare_WithDefaults \<lparr>PrepTable = ''t'', PrepRows = 7, PrepKeyMod = 3\<rparr>)) = Inr (backquote # ''t'' @ [backquote])"
    by (simp add: d quoteIdentifier_def identifierRe_def ident_start_def)
  from prepare_complete [OF this, of "\<lambda>st db. (None, db @ [st])" "[]"] show ?thesis unfolding d by (auto simp: exec_then_def)
qed

text \<open>
  C36. The validation is exact: it returns no error if and only if both tables are named, the names are
  identifiers, both queries run to their end, every row can be read, and the two sequences of rows are equal.
\<close>

theorem validate_exact:
  "ValidateAggregation query cfg = None \<longleftrightarrow>
     (\<exists>eSQL aSQL rows. SourceTable cfg \<noteq> [] \<and> ValTargetTable cfg \<noteq> [] \<and>
        validate_names (validate_WithDefaults cfg) = Inr (eSQL, aSQL) \<and>
        query eSQL = Inr (map Inr rows, None) \<and> query aSQL = Inr (map Inr rows, None))"
proof -
  have "(\<exists>rows. es = map Inr rows) \<longleftrightarrow> (\<forall>r \<in> set es. \<exists>p. r = Inr p)" for es :: "scanned list"
    by (metis ex_map_conv)
  then show ?thesis
    by (auto simp: ValidateAggregation_def Let_def validate_WithDefaults_def compare_rows_None first_err_None
        split: sum.splits prod.splits)
qed

text \<open>
  The data source name does not depend on the order in which Go iterates over the parameter
  map, and a parameter given by the user replaces the default of the same name.
\<close>

theorem dsn_deterministic:
  assumes "distinct (map fst (DbParams c))" "set (DbParams c) = set ps" "distinct (map fst ps)"
  shows "dsn (c\<lparr>DbParams := ps\<rparr>) = dsn c \<and> (\<forall>(k, v) \<in> set ps. dsn_params c k = Some v)"
proof -
  have "map_of ps = map_of (DbParams c)" using map_of_inject_set [OF assms(3,1)] assms(2) by simp
  moreover have "dsn_keys (c\<lparr>DbParams := ps\<rparr>) = dsn_keys c" by (rule dsn_keys_cong) (simp add: assms(2))
  ultimately show ?thesis
    using assms(1,2) by (auto simp: dsn_def dsn_params_def Let_def)
qed

theorem dsn_deterministic_witness:
  "dsn \<lparr>DbHost = [], DbPort = 0, DbUser = ''u'', DbPassword = ''p'', DbDatabase = ''d'', DbParams = [(''charset'', ''utf8''), (''a'', ''1'')]\<rparr> =
   dsn \<lparr>DbHost = [], DbPort = 0, DbUser = ''u'', DbPassword = ''p'', DbDatabase = ''d'', DbParams = [(''a'', ''1''), (''charset'', ''utf8'')]\<rparr>"
  using dsn_deterministic [of "\<lparr>DbHost = [], DbPort = 0, DbUser = ''u'', DbPassword = ''p'', DbDatabase = ''d'', DbParams = [(''a'', ''1''), (''charset'', ''utf8'')]\<rparr>"
    "[(''charset'', ''utf8''), (''a'', ''1'')]"] by auto

end
