(* ===== verification/Map_Task.thy ===== *)
theory Map_Task
  imports Partition
begin

text \<open>
  The event loop of the map handler (\<^verbatim>\<open>Worker.Map\<close> of \<^verbatim>\<open>worker/worker.go\<close>). One goroutine per
  input file runs the user's map function, which sends its pairs into the channel
  \<^verbatim>\<open>mapChan\<close>, and then sends one value into \<^verbatim>\<open>done\<close>; the handler receives from both, puts each
  pair into the bucket of its reducer, closes \<^verbatim>\<open>mapChan\<close> when it has counted as many \<^verbatim>\<open>done\<close>
  values as there are files, and leaves the loop when the closed channel is drained. Both
  channels hold 100 elements. The scheduler chooses the order of the steps: a run is a list
  of labels, and the theorems hold for every run.
\<close>

subsection \<open>State and steps\<close>

text \<open>\<^verbatim>\<open>newMrContext\<close> and the channel \<^verbatim>\<open>done\<close>: buffers of 100 elements.\<close>

definition chan_cap :: nat where
  "chan_cap = 100"

text \<open>
  \<open>feeds ! i\<close> is what goroutine \<open>i\<close> still has to send, \<^term>\<open>None\<close> after its \<^verbatim>\<open>done <- 1\<close>.
\<close>

record map_st =
  feeds :: "KV list option list"
  buf :: "KV list"
  buf_closed :: bool
  done_n :: nat
  count :: nat
  imdKV :: "KV list list"
  exited :: bool
  crashed :: "panic option"

datatype map_label = MEmit nat | MFinish nat | MRecvKV | MRecvDone | MRecvClosed

definition map_init :: "nat \<Rightarrow> KV list list \<Rightarrow> map_st" where
  "map_init n es =
     \<lparr>feeds = map Some es, buf = [], buf_closed = False, done_n = 0, count = 0,
      imdKV = replicate n [], exited = False, crashed = None\<rparr>"

text \<open>
  One step; \<^term>\<open>None\<close> when the step is not possible (a send into a full channel, a receive
  from an empty one, a goroutine that has ended). A send into the closed channel and a second
  \<^verbatim>\<open>close\<close> panic; a panic ends the process.
\<close>

fun map_step :: "nat \<Rightarrow> map_label \<Rightarrow> map_st \<Rightarrow> map_st option" where
  "map_step n (MEmit i) s =
     (if crashed s \<noteq> None \<or> length (feeds s) \<le> i then None
      else (case feeds s ! i of
              Some (kv # rest) \<Rightarrow>
                if buf_closed s then Some (s\<lparr>crashed := Some SendOnClosedChannel\<rparr>)
                else if length (buf s) < chan_cap
                then Some (s\<lparr>feeds := (feeds s)[i := Some rest], buf := buf s @ [kv]\<rparr>)
                else None
            | _ \<Rightarrow> None))"
| "map_step n (MFinish i) s =
     (if crashed s \<noteq> None \<or> length (feeds s) \<le> i then None
      else if feeds s ! i = Some [] \<and> done_n s < chan_cap
      then Some (s\<lparr>feeds := (feeds s)[i := None], done_n := done_n s + 1\<rparr>)
      else None)"
| "map_step n MRecvKV s =
     (if crashed s \<noteq> None \<or> exited s then None
      else (case buf s of
              [] \<Rightarrow> None
            | kv # rest \<Rightarrow>
                (case reducerForKey (Key kv) (int n) of
                   Done r \<Rightarrow>
                     Some (s\<lparr>buf := rest,
                             imdKV := (imdKV s)[nat r := imdKV s ! nat r @ [kv]]\<rparr>)
                 | Panics p \<Rightarrow> Some (s\<lparr>crashed := Some p\<rparr>)
                 | Blocks \<Rightarrow> None)))"
| "map_step n MRecvDone s =
     (if crashed s \<noteq> None \<or> exited s \<or> done_n s = 0 then None
      else if count s + 1 = length (feeds s)
      then (if buf_closed s then Some (s\<lparr>crashed := Some SendOnClosedChannel\<rparr>)
            else Some (s\<lparr>done_n := done_n s - 1, count := count s + 1, buf_closed := True\<rparr>))
      else Some (s\<lparr>done_n := done_n s - 1, count := count s + 1\<rparr>))"
| "map_step n MRecvClosed s =
     (if crashed s \<noteq> None \<or> exited s \<or> \<not> buf_closed s \<or> buf s \<noteq> [] then None
      else Some (s\<lparr>exited := True\<rparr>))"

fun map_exec :: "nat \<Rightarrow> map_label list \<Rightarrow> map_st \<Rightarrow> map_st option" where
  "map_exec n [] s = Some s"
| "map_exec n (l # ls) s =
     (case map_step n l s of None \<Rightarrow> None | Some s' \<Rightarrow> map_exec n ls s')"

text \<open>The reachable states, as an inductive predicate over the steps.\<close>

inductive map_reach :: "nat \<Rightarrow> KV list list \<Rightarrow> map_st \<Rightarrow> bool" for n es where
  start: "map_reach n es (map_init n es)"
| step: "map_reach n es s \<Longrightarrow> map_step n l s = Some s' \<Longrightarrow> map_reach n es s'"

lemma map_exec_reach:
  "map_exec n ls s = Some s' \<Longrightarrow> map_reach n es s \<Longrightarrow> map_reach n es s'"
  by (induction ls arbitrary: s) (auto split: option.splits intro: map_reach.step)

subsection \<open>The invariant\<close>

fun pending :: "KV list option \<Rightarrow> KV multiset" where
  "pending None = {#}"
| "pending (Some kvs) = mset kvs"

text \<open>Nothing is lost or invented: what was sent, is buffered, or is still to be sent.\<close>

definition map_ledger :: "map_st \<Rightarrow> KV multiset" where
  "map_ledger s = sum_list (map mset (imdKV s)) + mset (buf s) + sum_list (map pending (feeds s))"

abbreviation ended :: "KV list option list \<Rightarrow> nat" where
  "ended fs \<equiv> length (filter (\<lambda>f. f = None) fs)"

definition map_inv :: "nat \<Rightarrow> KV list list \<Rightarrow> map_st \<Rightarrow> bool" where
  "map_inv n es s \<longleftrightarrow>
     crashed s = None \<and>
     length (imdKV s) = n \<and>
     length (feeds s) = length es \<and>
     map_ledger s = sum_list (map mset es) \<and>
     (\<forall>r < n. \<forall>kv \<in> set (imdKV s ! r). reducer_index n (Key kv) = r) \<and>
     done_n s + count s = ended (feeds s) \<and>
     (buf_closed s \<longleftrightarrow> count s = length es \<and> es \<noteq> []) \<and>
     (exited s \<longrightarrow> buf_closed s \<and> buf s = [])"

lemma ended_le: "ended fs \<le> length fs"
  by simp

lemma ended_all: "ended fs = length fs \<Longrightarrow> i < length fs \<Longrightarrow> fs ! i = None"
  by (metis (mono_tags, lifting) filter_id_conv length_filter_less nat_neq_iff nth_mem)

lemma ended_update:
  assumes "i < length fs" "fs ! i = Some kvs"
  shows "ended (fs[i := Some kvs']) = ended fs" "ended (fs[i := None]) = ended fs + 1"
  using assms
  by (induction fs arbitrary: i) (auto split: nat.splits simp: nth_Cons')

lemma map_inv_init: "map_inv n es (map_init n es)"
proof -
  have "ended (map Some es) = 0" by (simp add: filter_empty_conv)
  moreover have "pending \<circ> Some = mset" by (rule ext) simp
  ultimately show ?thesis
    by (auto simp: map_inv_def map_init_def map_ledger_def)
qed


text \<open>Every step keeps the invariant; one lemma per kind of step.\<close>

lemma map_inv_closed_ended:
  assumes "map_inv n es s" "buf_closed s" "i < length (feeds s)"
  shows "feeds s ! i = None"
proof -
  have "ended (feeds s) = length (feeds s)"
    using assms ended_le [of "feeds s"] by (auto simp: map_inv_def)
  then show ?thesis using assms(3) by (rule ended_all)
qed

lemma map_inv_emit:
  assumes inv: "map_inv n es s" and st: "map_step n (MEmit i) s = Some s'"
  shows "map_inv n es s'"
proof -
  from st obtain kv rest where i: "i < length (feeds s)" and f: "feeds s ! i = Some (kv # rest)"
    by (auto split: if_splits option.splits list.splits)
  then have "\<not> buf_closed s" using map_inv_closed_ended [OF inv] by auto
  with st i f have s': "s' = s\<lparr>feeds := (feeds s)[i := Some rest], buf := buf s @ [kv]\<rparr>"
    by (auto split: if_splits)
  have "sum_list (map pending (feeds s)) =
      {#kv#} + sum_list (map pending ((feeds s)[i := Some rest]))"
    using i f by (intro sum_list_mset_update) auto
  then have "map_ledger s' = map_ledger s" by (simp add: map_ledger_def s')
  then show ?thesis
    using inv i f \<open>\<not> buf_closed s\<close> by (simp add: map_inv_def s' ended_update)
qed

lemma map_inv_finish:
  assumes inv: "map_inv n es s" and st: "map_step n (MFinish i) s = Some s'"
  shows "map_inv n es s'"
proof -
  from st have i: "i < length (feeds s)" and f: "feeds s ! i = Some []"
    and s': "s' = s\<lparr>feeds := (feeds s)[i := None], done_n := done_n s + 1\<rparr>"
    by (auto split: if_splits)
  have "sum_list (map pending (feeds s)) = {#} + sum_list (map pending ((feeds s)[i := None]))"
    using i f by (intro sum_list_mset_update) auto
  then have "map_ledger s' = map_ledger s" by (simp add: map_ledger_def s')
  then show ?thesis
    using inv i f map_inv_closed_ended [OF inv _ i] by (auto simp: map_inv_def s' ended_update)
qed

lemma map_inv_recv_kv:
  assumes n: "0 < n" and inv: "map_inv n es s" and st: "map_step n MRecvKV s = Some s'"
  shows "map_inv n es s'"
proof -
  from st obtain kv rest where b: "buf s = kv # rest" and ne: "\<not> exited s"
    by (auto split: if_splits list.splits)
  let ?r = "reducer_index n (Key kv)"
  have r: "?r < length (imdKV s)" using fnv.part_less [OF n] inv by (simp add: map_inv_def)
  from st b have s': "s' = s\<lparr>buf := rest, imdKV := (imdKV s)[?r := imdKV s ! ?r @ [kv]]\<rparr>"
    by (auto simp: reducerForKey_eq [OF n] split: if_splits)
  have "sum_list (map mset ((imdKV s)[?r := imdKV s ! ?r @ [kv]])) =
      {#kv#} + sum_list (map mset (imdKV s))"
    using sum_list_mset_update [of ?r "(imdKV s)[?r := imdKV s ! ?r @ [kv]]" mset "{#kv#}" "imdKV s ! ?r"] r
    by simp
  then have "map_ledger s' = map_ledger s" by (simp add: map_ledger_def s' b)
  then show ?thesis
    using inv r ne by (auto simp: map_inv_def s' nth_list_update_cases)
qed

lemma map_inv_recv_done:
  assumes inv: "map_inv n es s" and st: "map_step n MRecvDone s = Some s'"
  shows "map_inv n es s'"
proof -
  have e: "done_n s + count s \<le> length es"
    using inv ended_le [of "feeds s"] by (simp add: map_inv_def)
  from st have d: "0 < done_n s" by (auto split: if_splits)
  with e have "\<not> buf_closed s" using inv by (auto simp: map_inv_def)
  with st d e inv show ?thesis
    by (auto simp: map_inv_def map_ledger_def split: if_splits)
qed

lemma map_inv_step:
  assumes "0 < n" "map_inv n es s" "map_step n l s = Some s'"
  shows "map_inv n es s'"
proof (cases l)
  case (MEmit i)
  then show ?thesis using assms map_inv_emit by blast
next
  case (MFinish i)
  then show ?thesis using assms map_inv_finish by blast
next
  case MRecvKV
  then show ?thesis using assms map_inv_recv_kv by blast
next
  case MRecvDone
  then show ?thesis using assms map_inv_recv_done by blast
next
  case MRecvClosed
  then show ?thesis using assms
    by (auto simp: map_inv_def map_ledger_def split: if_splits)
qed

lemma map_reach_inv:
  assumes "0 < n" "map_reach n es s"
  shows "map_inv n es s"
  using assms(2) by induction (auto intro: map_inv_init map_inv_step assms(1))

subsection \<open>Results, progress and termination\<close>

text \<open>At the exit every bucket holds exactly the emitted pairs of its reducer.\<close>

lemma map_exit_buckets:
  assumes n: "0 < n" and s: "map_reach n es s" "exited s" and r: "r < n"
  shows "mset (imdKV s ! r) = filter_mset (\<lambda>kv. reducer_index n (Key kv) = r) (mset (concat es))"
proof -
  have inv: "map_inv n es s" using map_reach_inv [OF n s(1)] .
  then have cl: "buf_closed s" "buf s = []" and len: "length (imdKV s) = n"
    and own: "\<And>i kv. i < n \<Longrightarrow> kv \<in># map mset (imdKV s) ! i \<Longrightarrow> reducer_index n (Key kv) = i"
    using s(2) by (auto simp: map_inv_def)
  have "map pending (feeds s) = replicate (length (feeds s)) {#}"
    using map_inv_closed_ended [OF inv cl(1)] by (intro nth_equalityI) auto
  then have "sum_list (map pending (feeds s)) = {#}" by simp
  then have "sum_list (map mset (imdKV s)) = mset (concat es)"
    using inv cl by (simp add: map_inv_def map_ledger_def mset_concat)
  then show ?thesis
    using fnv.buckets_unique [where key = Key and bs = "map mset (imdKV s)", OF _ r own] r len
    by simp
qed

text \<open>With at least one file the handler can always move until it leaves the loop.\<close>

lemma map_progress:
  assumes n: "0 < n" and es: "es \<noteq> []" and s: "map_reach n es s" "\<not> exited s"
  shows "\<exists>l. map_step n l s \<noteq> None"
proof -
  have inv: "map_inv n es s" using map_reach_inv [OF n s(1)] .
  then have nc: "crashed s = None" by (simp add: map_inv_def)
  consider "buf s \<noteq> []" | "done_n s \<noteq> 0" | "buf_closed s" "buf s = []"
    | "buf s = []" "done_n s = 0" "\<not> buf_closed s" by blast
  then show ?thesis
  proof cases
    case 1
    then have "map_step n MRecvKV s \<noteq> None"
      using nc s(2) by (cases "buf s") (auto simp: reducerForKey_eq [OF n])
    then show ?thesis ..
  next
    case 2
    then have "map_step n MRecvDone s \<noteq> None" using nc s(2) by simp
    then show ?thesis ..
  next
    case 3
    then have "map_step n MRecvClosed s \<noteq> None" using nc s(2) by simp
    then show ?thesis ..
  next
    case 4
    then have "ended (feeds s) \<noteq> length (feeds s)" using inv es by (auto simp: map_inv_def)
    then obtain f where "f \<in> set (feeds s)" "f \<noteq> None"
      by (metis (mono_tags, lifting) filter_True)
    then obtain i kvs where i: "i < length (feeds s)" "feeds s ! i = Some kvs"
      by (auto simp: in_set_conv_nth)
    have "map_step n (case kvs of [] \<Rightarrow> MFinish i | _ \<Rightarrow> MEmit i) s \<noteq> None"
      using 4 i nc by (auto split: list.splits simp: chan_cap_def)
    then show ?thesis ..
  qed
qed

text \<open>Every step decreases a measure, so every run is finite.\<close>

fun feed_work :: "KV list option \<Rightarrow> nat" where
  "feed_work None = 0"
| "feed_work (Some kvs) = 2 * length kvs + 2"

definition map_work :: "map_st \<Rightarrow> nat" where
  "map_work s =
     (if crashed s \<noteq> None then 0
      else sum_list (map feed_work (feeds s)) + length (buf s) + done_n s +
        (if exited s then 0 else 1) + 1)"

lemma map_work_step: "map_step n l s = Some s' \<Longrightarrow> map_work s' < map_work s"
proof (cases l)
  case (MEmit i)
  assume st: "map_step n l s = Some s'"
  show ?thesis
  proof (cases "feeds s ! i")
    case None
    then show ?thesis using st MEmit by (auto split: if_splits)
  next
    case (Some kvs)
    with st MEmit sum_list_nat_update [of i "feeds s" feed_work "Some (tl kvs)"] show ?thesis
      by (cases kvs) (auto simp: map_work_def split: if_splits)
  qed
next
  case (MFinish i)
  assume "map_step n l s = Some s'"
  with MFinish sum_list_nat_update [of i "feeds s" feed_work None] show ?thesis
    by (auto simp: map_work_def split: if_splits)
qed (auto simp: map_work_def split: if_splits list.splits outcome.splits)

lemma map_exec_bound: "map_exec n ls s = Some s' \<Longrightarrow> length ls + map_work s' \<le> map_work s"
proof (induction ls arbitrary: s)
  case (Cons l ls)
  then obtain t where t: "map_step n l s = Some t" "map_exec n ls t = Some s'"
    by (auto split: option.splits)
  from Cons.IH [OF t(2)] map_work_step [OF t(1)] show ?case by simp
qed simp

lemma map_work_init: "map_work (map_init n es) = (\<Sum>e\<leftarrow>es. 2 * length e + 2) + 2"
  by (simp add: map_work_def map_init_def comp_def)

lemma map_runs_on:
  assumes "0 < n" "es \<noteq> []" "map_reach n es s"
  shows "\<exists>ls s'. map_exec n ls s = Some s' \<and> exited s'"
  using assms(3)
proof (induction "map_work s" arbitrary: s rule: less_induct)
  case less
  show ?case
  proof (cases "exited s")
    case True
    then show ?thesis by (intro exI [of _ "[]"]) auto
  next
    case False
    then obtain l t where t: "map_step n l s = Some t"
      using map_progress [OF assms(1,2) less.prems] by blast
    from less.hyps [OF map_work_step [OF t] map_reach.step [OF less.prems t]]
    obtain ls s' where "map_exec n ls t = Some s'" "exited s'" by blast
    with t show ?thesis by (intro exI [of _ "l # ls"]) auto
  qed
qed

subsection \<open>Properties\<close>

text \<open>
  C15. Whatever the order in which the goroutines of a map task send, finish and are received, the
  event loop never panics, and when it is left every bucket holds exactly the emitted pairs of
  its reducer.
\<close>

theorem map_loop_buckets:
  assumes "0 < n" "map_reach n es s"
  shows "crashed s = None \<and>
    (exited s \<longrightarrow> length (imdKV s) = n \<and>
      (\<forall>r < n. mset (imdKV s ! r) = filter_mset (\<lambda>kv. reducer_index n (Key kv) = r) (mset (concat es))))"
  using map_reach_inv [OF assms] map_exit_buckets [OF assms] by (simp add: map_inv_def)

theorem map_loop_buckets_witness:
  "\<exists>s. map_reach 2 [[newKV ''a'' ''1''], []] s \<and> exited s \<and> crashed s = None \<and>
     mset (imdKV s ! 0) + mset (imdKV s ! 1) = {#newKV ''a'' ''1''#}"
proof -
  obtain ls s where s: "map_exec 2 ls (map_init 2 [[newKV ''a'' ''1''], []]) = Some s" "exited s"
    using map_runs_on [of 2 "[[newKV ''a'' ''1''], []]"] map_reach.start by force
  have r: "map_reach 2 [[newKV ''a'' ''1''], []] s" using map_exec_reach [OF s(1) map_reach.start] .
  have "reducer_index 2 ''a'' < 2" by (rule fnv.part_less) simp
  then show ?thesis
    using map_loop_buckets [OF _ r] s(2) r by (intro exI [of _ s]) (auto simp: less_2_cases_iff)
qed

text \<open>
  C16. A map task with at least one file always finishes: an execution of its goroutines and its
  event loop has at most two steps per pair and per file and two more, it is never stuck before
  the loop is left, and it can always be continued until the loop is left.
\<close>

theorem map_loop_ends:
  assumes "0 < n" "es \<noteq> []" "map_exec n ls (map_init n es) = Some s"
  shows "length ls \<le> (\<Sum>e\<leftarrow>es. 2 * length e + 2) + 2 \<and>
    (exited s \<or> (\<exists>l. map_step n l s \<noteq> None)) \<and>
    (\<exists>ls' s'. map_exec n ls' s = Some s' \<and> exited s')"
proof -
  have r: "map_reach n es s" using map_exec_reach [OF assms(3) map_reach.start] .
  show ?thesis
    using map_exec_bound [OF assms(3)] map_work_init [of n es] map_progress [OF assms(1,2) r]
      map_runs_on [OF assms(1,2) r] by auto
qed

theorem map_loop_ends_witness:
  "\<exists>ls s. map_exec 1 ls (map_init 1 [[newKV ''a'' ''1'']]) = Some s \<and> exited s"
  using map_loop_ends [of 1 "[[newKV ''a'' ''1'']]" "[]" "map_init 1 [[newKV ''a'' ''1'']]"] by simp

lemma map_reach_no_files: "map_reach n [] s \<Longrightarrow> s = map_init n []"
proof (induction rule: map_reach.induct)
  case (step s l s')
  then show ?case by (cases l) (auto simp: map_init_def)
qed simp

text \<open>
  A map task with no file never finishes: nobody sends on the channel that ends its event loop.
\<close>

theorem map_no_files_blocks:
  assumes "map_reach n [] s"
  shows "\<not> exited s \<and> (\<forall>l. map_step n l s = None)"
proof -
  have "map_step n l (map_init n []) = None" for l by (cases l) (simp_all add: map_init_def)
  then show ?thesis using map_reach_no_files [OF assms] by (simp add: map_init_def)
qed

theorem map_no_files_blocks_witness: "\<not> exited (map_init 3 [])"
  using map_no_files_blocks [OF map_reach.start] by simp

end
