(* ===== verification/Worker_Node.thy ===== *)
theory Worker_Node
  imports Map_Task Reduce_Task
begin

text \<open>
  A worker process (\<^verbatim>\<open>worker/worker.go\<close>): its state, the reading of a byte range of an input
  file, the intermediate files, and the handlers of the remote calls \<^verbatim>\<open>Map\<close>, \<^verbatim>\<open>Reduce\<close>,
  \<^verbatim>\<open>GetIMDData\<close>, \<^verbatim>\<open>Health\<close> and \<^verbatim>\<open>End\<close>. The user's plugin, the sorting function of the library
  and the machine (its disk, which paths can be created, the temporary directory) are
  parameters.
\<close>

subsection \<open>State\<close>

datatype worker_state = W_IDLE | W_BUSY

record Worker =
  wUUID :: uuid
  wID :: int
  wNReduce :: int
  storeInRAM :: bool
  wState :: worker_state

record MapFileInfo =
  FileName :: path
  From :: int
  To :: int

record ReduceFileInfo =
  Ip :: addr
  Filename :: path

text \<open>The uuid is drawn by the library; it is an argument.\<close>

definition newWorker :: "uuid \<Rightarrow> int \<Rightarrow> bool \<Rightarrow> Worker" where
  "newWorker u nReduce inRAM =
     \<lparr>wUUID = u, wID = 0, wNReduce = nReduce, storeInRAM = inRAM, wState = W_IDLE\<rparr>"

definition setID :: "int \<Rightarrow> Worker \<Rightarrow> Worker" where
  "setID i w = w\<lparr>wID := i\<rparr>"

definition setWorkerState :: "worker_state \<Rightarrow> Worker \<Rightarrow> Worker" where
  "setWorkerState st w = w\<lparr>wState := st\<rparr>"

definition Worker_Health :: "Worker \<Rightarrow> worker_state" where
  "Worker_Health w = wState w"

record host =
  disk :: fs
  writable :: "path \<Rightarrow> bool"
  shm_is_dir :: bool
  temp_dir :: path

subsection \<open>partialContent\<close>

text \<open>
  The bytes \<open>[From, To)\<close> of a file. The buffer has the requested size whatever the file holds:
  a read past the end of the file leaves zero bytes, because \<^verbatim>\<open>io.EOF\<close> and
  \<^verbatim>\<open>io.ErrUnexpectedEOF\<close> are accepted. \<^verbatim>\<open>make\<close> panics beyond the address space of the run time.
\<close>

definition max_alloc :: int where
  "max_alloc = 2 ^ 48"

definition read_full :: "string \<Rightarrow> nat \<Rightarrow> nat \<Rightarrow> string" where
  "read_full content start sz =
     (let got = take sz (drop start content)
      in got @ replicate (sz - length got) (CHR 0x00))"

definition partialContent :: "fs \<Rightarrow> MapFileInfo \<Rightarrow> string outcome" where
  "partialContent d fInfo =
     (case d (FileName fInfo) of
        None \<Rightarrow> Panics (PanicErr ''open'')
      | Some content \<Rightarrow>
          (if To fInfo < From fInfo then Done []
           else if From fInfo < 0 then Panics (PanicErr ''seek'')
           else if To fInfo - From fInfo \<le> 0 then Done []
           else if max_alloc < To fInfo - From fInfo then Panics MakeSliceOutOfRange
           else Done (read_full content (nat (From fInfo)) (nat (To fInfo - From fInfo)))))"

lemma partialContent_inside:
  assumes "d (FileName fi) = Some content" "From fi = int a" "To fi = int b"
    "a \<le> b" "b \<le> length content" "int (length content) \<le> max_alloc"
  shows "partialContent d fi = Done (take (b - a) (drop a content))"
proof (cases "a = b")
  case True
  then show ?thesis using assms by (simp add: partialContent_def)
next
  case False
  have "nat (int b - int a) = b - a" using assms(4) by simp
  then show ?thesis
    using assms False by (simp add: partialContent_def read_full_def)
qed

subsection \<open>The intermediate files\<close>

definition imd_name :: "uuid \<Rightarrow> nat \<Rightarrow> path" where
  "imd_name u t = ''imd-'' @ u @ ''-'' @ show_nat t @ ''.txt''"

text \<open>\<^verbatim>\<open>/dev/shm\<close> if it is a directory, else the temporary directory; or \<^verbatim>\<open>output\<close>.\<close>

definition imd_path :: "host \<Rightarrow> bool \<Rightarrow> uuid \<Rightarrow> nat \<Rightarrow> path" where
  "imd_path h inRAM u t =
     (if inRAM
      then (if shm_is_dir h then ''/dev/shm'' else temp_dir h) @ ''/'' @ imd_name u t
      else ''output/'' @ imd_name u t)"

definition writeIMDToLocalFileParallel ::
  "host \<Rightarrow> nat \<Rightarrow> KV list \<Rightarrow> uuid \<Rightarrow> bool \<Rightarrow> (host \<times> path) outcome" where
  "writeIMDToLocalFileParallel h t kvs u inRAM =
     (let content = encodeIMDKVs kvs; fname = imd_path h inRAM u t
      in if writable h fname then Done (h\<lparr>disk := (disk h)(fname \<mapsto> content)\<rparr>, fname)
         else Panics (PanicErr ''create''))"

text \<open>
  One goroutine per bucket; \<open>order\<close> is the order in which they happen to write. Each stores
  its file name at its own index.
\<close>

fun write_in_order ::
  "KV list list \<Rightarrow> uuid \<Rightarrow> bool \<Rightarrow> nat list \<Rightarrow> host \<Rightarrow> path list \<Rightarrow> (host \<times> path list) outcome" where
  "write_in_order imd u inRAM [] h filenames = Done (h, filenames)"
| "write_in_order imd u inRAM (t # ts) h filenames =
     (case writeIMDToLocalFileParallel h t (imd ! t) u inRAM of
        Done (h', f) \<Rightarrow> write_in_order imd u inRAM ts h' (filenames[t := f])
      | Panics p \<Rightarrow> Panics p
      | Blocks \<Rightarrow> Blocks)"

definition writeIMDToLocalFile ::
  "host \<Rightarrow> KV list list \<Rightarrow> uuid \<Rightarrow> bool \<Rightarrow> nat list \<Rightarrow> (host \<times> path list) outcome" where
  "writeIMDToLocalFile h imd u inRAM order =
     write_in_order imd u inRAM order h (replicate (length imd) [])"

lemma digit_char_inj: "a < 10 \<Longrightarrow> b < 10 \<Longrightarrow> digit_char a = digit_char b \<Longrightarrow> a = b"
  by (metis digit_char_props(2))

lemma show_nat_inj: "show_nat a = show_nat b \<Longrightarrow> a = b"
proof (induction a arbitrary: b rule: show_nat.induct)
  case (1 a)
  have sn: "show_nat n = (if n < 10 then [digit_char n] else show_nat (n div 10) @ [digit_char (n mod 10)])"
    for n by (rule show_nat.simps)
  show ?case
  proof (cases "a < 10")
    case True
    with "1.prems" have "b < 10" by (metis append_eq_Cons_conv list.discI show_nat_not_Nil sn snoc_eq_iff_butlast)
    with True "1.prems" show ?thesis by (simp add: sn digit_char_inj)
  next
    case False
    with "1.prems" have b: "\<not> b < 10" by (metis append_eq_Cons_conv list.discI show_nat_not_Nil sn snoc_eq_iff_butlast)
    with False "1.prems" have "show_nat (a div 10) = show_nat (b div 10)"
      "digit_char (a mod 10) = digit_char (b mod 10)"
      by (simp_all add: sn [of a] sn [of b])
    with "1.IH" [OF False] have "a div 10 = b div 10" "a mod 10 = b mod 10"
      by (auto intro: digit_char_inj)
    then show ?thesis by (metis div_mult_mod_eq)
  qed
qed

lemma imd_path_inj: "imd_path h inRAM u s = imd_path h inRAM u t \<longleftrightarrow> s = t"
  by (auto simp: imd_path_def imd_name_def dest: show_nat_inj)

lemma imd_path_disk [simp]: "imd_path (h\<lparr>disk := d\<rparr>) inRAM u t = imd_path h inRAM u t"
  by (simp add: imd_path_def)

text \<open>
  Whatever the order of the goroutines, the disk ends up with the buckets under their paths,
  and nothing else is touched.
\<close>

lemma write_in_order_Done:
  assumes "\<forall>t \<in> set ts. writable h (imd_path h inRAM u t)"
    and "\<forall>t \<in> set ts. t < length fs" "distinct ts"
  shows "\<exists>h' fs'. write_in_order imd u inRAM ts h fs = Done (h', fs') \<and>
      h' = h\<lparr>disk := disk h'\<rparr> \<and> length fs' = length fs \<and>
      (\<forall>t < length fs. fs' ! t = (if t \<in> set ts then imd_path h inRAM u t else fs ! t)) \<and>
      (\<forall>t \<in> set ts. disk h' (imd_path h inRAM u t) = Some (encodeIMDKVs (imd ! t))) \<and>
      (\<forall>p. p \<notin> imd_path h inRAM u ` set ts \<longrightarrow> disk h' p = disk h p)"
  using assms
proof (induction ts arbitrary: h fs)
  case Nil
  then show ?case by auto
next
  case (Cons t ts)
  let ?p = "imd_path h inRAM u t"
  let ?h = "h\<lparr>disk := (disk h)(?p \<mapsto> encodeIMDKVs (imd ! t))\<rparr>"
  have "\<exists>h' fs'. write_in_order imd u inRAM ts ?h (fs[t := ?p]) = Done (h', fs') \<and>
      h' = ?h\<lparr>disk := disk h'\<rparr> \<and> length fs' = length (fs[t := ?p]) \<and>
      (\<forall>i < length (fs[t := ?p]). fs' ! i = (if i \<in> set ts then imd_path ?h inRAM u i else fs[t := ?p] ! i)) \<and>
      (\<forall>i \<in> set ts. disk h' (imd_path ?h inRAM u i) = Some (encodeIMDKVs (imd ! i))) \<and>
      (\<forall>p. p \<notin> imd_path ?h inRAM u ` set ts \<longrightarrow> disk h' p = disk ?h p)"
    using Cons.prems by (intro Cons.IH) auto
  then obtain h' fs' where w: "write_in_order imd u inRAM ts ?h (fs[t := ?p]) = Done (h', fs')"
    and h': "h' = h\<lparr>disk := disk h'\<rparr>" and len: "length fs' = length fs"
    and fs': "\<forall>i < length fs. fs' ! i = (if i \<in> set ts then imd_path h inRAM u i else fs[t := ?p] ! i)"
    and on: "\<forall>i \<in> set ts. disk h' (imd_path h inRAM u i) = Some (encodeIMDKVs (imd ! i))"
    and off: "\<forall>p. p \<notin> imd_path h inRAM u ` set ts \<longrightarrow> disk h' p = disk ?h p"
    by auto
  have st: "write_in_order imd u inRAM (t # ts) h fs = Done (h', fs')"
    using w Cons.prems(1) by (simp add: writeIMDToLocalFileParallel_def Let_def)
  have "?p \<notin> imd_path h inRAM u ` set ts" using Cons.prems(3) by (auto simp: imd_path_inj)
  then have "disk h' ?p = Some (encodeIMDKVs (imd ! t))" using off by simp
  moreover have "\<forall>i < length fs. fs' ! i = (if i \<in> set (t # ts) then imd_path h inRAM u i else fs ! i)"
    using fs' Cons.prems by (auto simp: nth_list_update)
  ultimately show ?case using st h' len on off by auto
qed

lemma writeIMDToLocalFile_Done:
  assumes "distinct order" "set order = {0..<length imd}"
    and "\<forall>t < length imd. writable h (imd_path h inRAM u t)"
  shows "\<exists>d. writeIMDToLocalFile h imd u inRAM order =
        Done (h\<lparr>disk := d\<rparr>, map (imd_path h inRAM u) [0..<length imd]) \<and>
      (\<forall>t < length imd. d (imd_path h inRAM u t) = Some (encodeIMDKVs (imd ! t))) \<and>
      (\<forall>p. (\<forall>t. p \<noteq> imd_path h inRAM u t) \<longrightarrow> d p = disk h p)"
proof -
  obtain h' fs' where w: "write_in_order imd u inRAM order h (replicate (length imd) []) = Done (h', fs')"
    and h': "h' = h\<lparr>disk := disk h'\<rparr>" and len: "length fs' = length imd"
    and fs': "\<forall>t < length imd. fs' ! t = imd_path h inRAM u t"
    and on: "\<forall>t < length imd. disk h' (imd_path h inRAM u t) = Some (encodeIMDKVs (imd ! t))"
    and off: "\<forall>p. p \<notin> imd_path h inRAM u ` {0..<length imd} \<longrightarrow> disk h' p = disk h p"
    using write_in_order_Done [of order h inRAM u "replicate (length imd) []" imd] assms by auto
  have "fs' = map (imd_path h inRAM u) [0..<length imd]"
    using len fs' by (intro nth_equalityI) auto
  with w h' have "writeIMDToLocalFile h imd u inRAM order =
      Done (h\<lparr>disk := disk h'\<rparr>, map (imd_path h inRAM u) [0..<length imd])"
    by (simp add: writeIMDToLocalFile_def)
  then show ?thesis using on off by blast
qed

subsection \<open>The Map handler\<close>

text \<open>What the plugin's map function emits for a file name and a text.\<close>

type_synonym mapf = "string \<Rightarrow> string \<Rightarrow> KV list outcome"

text \<open>The loop that reads the ranges and starts one goroutine per range.\<close>

fun map_feeds :: "mapf \<Rightarrow> fs \<Rightarrow> MapFileInfo list \<Rightarrow> KV list list outcome" where
  "map_feeds f d [] = Done []"
| "map_feeds f d (fi # fis) =
     bind_outcome (partialContent d fi) (\<lambda>content.
     bind_outcome (f (FileName fi) content) (\<lambda>kvs.
     bind_outcome (map_feeds f d fis) (\<lambda>rest. Done (kvs # rest))))"

text \<open>
  The handler. A panic of a goroutine ends the process, so it is the outcome of the call. An
  empty list of files never leaves the event loop: no \<^verbatim>\<open>done\<close> value is ever sent. \<open>upd\<close> is the
  outcome of the call to the master: \<^verbatim>\<open>masterClient.UpdateIMDInfo\<close> returns true or panics.
\<close>

inductive Worker_Map ::
  "mapf \<Rightarrow> bool \<Rightarrow> host \<Rightarrow> Worker \<Rightarrow> MapFileInfo list \<Rightarrow> (Worker \<times> host \<times> path list) outcome \<Rightarrow> bool"
  for f upd h w files where
  feed_panic: "map_feeds f (disk h) files = Panics p \<Longrightarrow> Worker_Map f upd h w files (Panics p)"
| feed_block: "map_feeds f (disk h) files = Blocks \<Longrightarrow> Worker_Map f upd h w files Blocks"
| make_panic: "map_feeds f (disk h) files = Done es \<Longrightarrow> wNReduce w < 0 \<Longrightarrow>
    Worker_Map f upd h w files (Panics MakeSliceOutOfRange)"
| loop_panic: "map_feeds f (disk h) files = Done es \<Longrightarrow> 0 \<le> wNReduce w \<Longrightarrow>
    map_reach (nat (wNReduce w)) es s \<Longrightarrow> crashed s = Some p \<Longrightarrow>
    Worker_Map f upd h w files (Panics p)"
| loop_block: "map_feeds f (disk h) files = Done es \<Longrightarrow> 0 \<le> wNReduce w \<Longrightarrow>
    map_reach (nat (wNReduce w)) es s \<Longrightarrow> crashed s = None \<Longrightarrow> \<not> exited s \<Longrightarrow>
    (\<And>l. map_step (nat (wNReduce w)) l s = None) \<Longrightarrow> Worker_Map f upd h w files Blocks"
| write_panic: "map_feeds f (disk h) files = Done es \<Longrightarrow> 0 \<le> wNReduce w \<Longrightarrow>
    map_reach (nat (wNReduce w)) es s \<Longrightarrow> exited s \<Longrightarrow>
    distinct order \<Longrightarrow> set order = {0..<length (imdKV s)} \<Longrightarrow>
    writeIMDToLocalFile h (imdKV s) (wUUID w) (storeInRAM w) order = Panics p \<Longrightarrow>
    Worker_Map f upd h w files (Panics p)"
| update_panic: "map_feeds f (disk h) files = Done es \<Longrightarrow> 0 \<le> wNReduce w \<Longrightarrow>
    map_reach (nat (wNReduce w)) es s \<Longrightarrow> exited s \<Longrightarrow>
    distinct order \<Longrightarrow> set order = {0..<length (imdKV s)} \<Longrightarrow>
    writeIMDToLocalFile h (imdKV s) (wUUID w) (storeInRAM w) order = Done (h', filenames) \<Longrightarrow>
    \<not> upd \<Longrightarrow> Worker_Map f upd h w files (Panics (PanicErr ''UpdateIMDInfo''))"
| finish: "map_feeds f (disk h) files = Done es \<Longrightarrow> 0 \<le> wNReduce w \<Longrightarrow>
    map_reach (nat (wNReduce w)) es s \<Longrightarrow> exited s \<Longrightarrow>
    distinct order \<Longrightarrow> set order = {0..<length (imdKV s)} \<Longrightarrow>
    writeIMDToLocalFile h (imdKV s) (wUUID w) (storeInRAM w) order = Done (h', filenames) \<Longrightarrow>
    upd \<Longrightarrow>
    Worker_Map f upd h w files
      (Done (setWorkerState W_IDLE (setWorkerState W_BUSY w), h', filenames))"

inductive_cases Worker_Map_DoneE: "Worker_Map f upd h w files (Done r)"

text \<open>
  A successful call leaves, under the path of every reducer, the text of a bucket that holds
  exactly the emitted pairs of that reducer, and reports the paths in the reducers' order.
\<close>

lemma Worker_Map_buckets:
  assumes run: "Worker_Map f upd h w files (Done (w', h', filenames))"
    and n: "wNReduce w = int n" "0 < n"
    and wr: "\<forall>t < n. writable h (imd_path h (storeInRAM w) (wUUID w) t)"
  shows "\<exists>es imd. map_feeds f (disk h) files = Done es \<and> length imd = n \<and>
      filenames = map (imd_path h (storeInRAM w) (wUUID w)) [0..<n] \<and>
      (\<forall>t < n. disk h' (imd_path h (storeInRAM w) (wUUID w) t) = Some (encodeIMDKVs (imd ! t))) \<and>
      (\<forall>t < n. mset (imd ! t) =
         filter_mset (\<lambda>kv. reducer_index n (Key kv) = t) (mset (concat es))) \<and>
      (\<forall>p. (\<forall>t. p \<noteq> imd_path h (storeInRAM w) (wUUID w) t) \<longrightarrow> disk h' p = disk h p) \<and>
      wState w' = W_IDLE \<and> h' = h\<lparr>disk := disk h'\<rparr>"
  using run
proof (rule Worker_Map_DoneE)
  fix es s order h'' names
  assume res: "(w', h', filenames) =
      (setWorkerState W_IDLE (setWorkerState W_BUSY w), h'', names)"
    and es: "map_feeds f (disk h) files = Done es"
    and s: "map_reach (nat (wNReduce w)) es s" "exited s"
    and ord: "distinct order" "set order = {0..<length (imdKV s)}"
    and out: "writeIMDToLocalFile h (imdKV s) (wUUID w) (storeInRAM w) order = Done (h'', names)"
  have inv: "map_inv n es s" using map_reach_inv [of n es s] s n by simp
  then have len: "length (imdKV s) = n" by (simp add: map_inv_def)
  obtain d where d: "writeIMDToLocalFile h (imdKV s) (wUUID w) (storeInRAM w) order =
        Done (h\<lparr>disk := d\<rparr>, map (imd_path h (storeInRAM w) (wUUID w)) [0..<n])"
    and on: "\<forall>t < n. d (imd_path h (storeInRAM w) (wUUID w) t) = Some (encodeIMDKVs (imdKV s ! t))"
    and off: "\<forall>p. (\<forall>t. p \<noteq> imd_path h (storeInRAM w) (wUUID w) t) \<longrightarrow> d p = disk h p"
    using writeIMDToLocalFile_Done [OF ord, of h "storeInRAM w" "wUUID w"] wr len by blast
  have "disk h' = d" "h' = h\<lparr>disk := disk h'\<rparr>" "filenames = map (imd_path h (storeInRAM w) (wUUID w)) [0..<n]"
    using res out d by auto
  moreover have "\<forall>t < n. mset (imdKV s ! t) =
      filter_mset (\<lambda>kv. reducer_index n (Key kv) = t) (mset (concat es))"
    using map_exit_buckets [of n es s] s n by simp
  moreover have "wState w' = W_IDLE" using res by (simp add: setWorkerState_def)
  ultimately show ?thesis using es len on off by blast
qed

text \<open>The call returns when the plugin does, every path can be created, and the master answers.\<close>

lemma Worker_Map_returns:
  assumes es: "map_feeds f (disk h) files = Done es" "files \<noteq> []"
    and n: "wNReduce w = int n" "0 < n"
    and wr: "\<forall>t < n. writable h (imd_path h (storeInRAM w) (wUUID w) t)" and upd: "upd"
  shows "\<exists>r. Worker_Map f upd h w files (Done r)"
proof -
  have "length es = length files"
    using es(1) by (induction files arbitrary: es) (auto simp: bind_outcome_Done_iff)
  then have ne: "es \<noteq> []" using es(2) by auto
  obtain ls s where ex: "map_exec n ls (map_init n es) = Some s" "exited s"
    using map_runs_on [OF n(2) ne map_reach.start] by blast
  have s: "map_reach n es s" using map_exec_reach [OF ex(1)] map_reach.start by blast
  have len: "length (imdKV s) = n" using map_reach_inv [OF n(2) s] by (simp add: map_inv_def)
  obtain d where "writeIMDToLocalFile h (imdKV s) (wUUID w) (storeInRAM w) [0..<n] =
      Done (h\<lparr>disk := d\<rparr>, map (imd_path h (storeInRAM w) (wUUID w)) [0..<n])"
    using writeIMDToLocalFile_Done [of "[0..<n]" "imdKV s" h "storeInRAM w" "wUUID w"] wr len
    by force
  then have "Worker_Map f upd h w files
      (Done (setWorkerState W_IDLE (setWorkerState W_BUSY w), h\<lparr>disk := d\<rparr>,
        map (imd_path h (storeInRAM w) (wUUID w)) [0..<n]))"
    using es(1) s ex(2) n len upd by (intro Worker_Map.finish [of f h files es w s "[0..<n]"]) auto
  then show ?thesis ..
qed

subsection \<open>GetIMDData and the Reduce handler\<close>

text \<open>\<^verbatim>\<open>generateIMDKV\<close>: the text of a file, trimmed; a missing file panics.\<close>

definition generateIMDKV :: "fs \<Rightarrow> path \<Rightarrow> string outcome" where
  "generateIMDKV d file =
     (case d file of None \<Rightarrow> Panics (PanicErr ''read'') | Some b \<Rightarrow> Done (trim_space b))"

text \<open>
  \<^verbatim>\<open>masterClient.GetIMDData\<close>: ask the worker at \<open>ip\<close>. \<open>net ip\<close> is the disk of the worker that
  answers there, if one does; a failed call panics.
\<close>

definition GetIMDData :: "(addr \<Rightarrow> fs option) \<Rightarrow> addr \<Rightarrow> path \<Rightarrow> KV list outcome" where
  "GetIMDData net ip filename =
     (case net ip of
        None \<Rightarrow> Panics (PanicErr ''GetIMDData'')
      | Some d \<Rightarrow> bind_outcome (generateIMDKV d filename) (\<lambda>raw. Done (decodeIMDKVs raw)))"

fun gather_imd :: "(addr \<Rightarrow> fs option) \<Rightarrow> ReduceFileInfo list \<Rightarrow> KV list outcome" where
  "gather_imd net [] = Done []"
| "gather_imd net (fi # fis) =
     bind_outcome (GetIMDData net (Ip fi) (Filename fi)) (\<lambda>kvs.
     bind_outcome (gather_imd net fis) (\<lambda>rest. Done (kvs @ rest)))"

definition mr_out_path :: "int \<Rightarrow> path" where
  "mr_out_path i = ''mr-out-'' @ itoa i @ ''.txt''"

text \<open>
  The handler. The output file is created, and so truncated, whatever it held; an error of
  \<^verbatim>\<open>os.Create\<close> is ignored, and then every write fails silently.
\<close>

definition Worker_Reduce ::
  "(KV list \<Rightarrow> KV list) \<Rightarrow> reducef \<Rightarrow> (addr \<Rightarrow> fs option) \<Rightarrow> host \<Rightarrow> Worker \<Rightarrow>
   ReduceFileInfo list \<Rightarrow> (Worker \<times> host) outcome" where
  "Worker_Reduce srt f net h w files =
     bind_outcome (gather_imd net files) (\<lambda>imdKVs.
     bind_outcome (reduce_loop f (srt imdKVs) 0 [] []) (\<lambda>out.
       Done (setWorkerState W_IDLE (setWorkerState W_BUSY w),
             if writable h (mr_out_path (wID w))
             then h\<lparr>disk := (disk h)(mr_out_path (wID w) \<mapsto> out)\<rparr> else h)))"

lemma trim_space_idem [simp]: "trim_space (trim_space s) = trim_space s"
proof -
  let ?t = "trim_left s" let ?r = "trim_right ?t"
  obtain w where w: "?t = ?r @ w" using trim_right_prefix by blast
  have "lead_width space_runes ?t = 0" by (simp add: trim_left_def trim_lead_width)
  then have "lead_width space_runes ?r = 0"
    using w by (metis (no_types, lifting) Nil_notin_space_runes(1) append.assoc has_prefix_iff lead_width_eq_0_iff)
  then have "trim_left ?r = ?r" by (simp add: trim_left_def trim_lead_id)
  moreover have "trim_right ?r = ?r"
    by (simp add: trim_right_def trim_lead_id trim_lead_width)
  ultimately show ?thesis by (simp add: trim_space_def)
qed

lemma decode_trimmed [simp]: "decodeIMDKVs (trim_space raw) = decodeIMDKVs raw"
  by (simp add: decodeIMDKVs_def)

lemma GetIMDData_written:
  assumes "net ip = Some d" "d p = Some (encodeIMDKVs kvs)" "imd_ok kvs"
  shows "GetIMDData net ip p = Done kvs"
  using assms by (simp add: GetIMDData_def generateIMDKV_def imd.dec_enc)

lemma gather_imd_written:
  assumes "list_all2 (\<lambda>fi kvs. \<exists>d. net (Ip fi) = Some d \<and>
      d (Filename fi) = Some (encodeIMDKVs kvs) \<and> imd_ok kvs) fis kvss"
  shows "gather_imd net fis = Done (concat kvss)"
  using assms by induction (auto simp: GetIMDData_written)

subsection \<open>Properties\<close>

lemma map_feeds_length: "map_feeds f d files = Done es \<Longrightarrow> length es = length files"
  by (induction files arbitrary: es) (auto simp: bind_outcome_Done_iff)

lemma Worker_Map_no_failure:
  assumes es: "map_feeds f (disk h) files = Done es" "files \<noteq> []"
    and n: "wNReduce w = int n" "0 < n"
    and wr: "\<forall>t < n. writable h (imd_path h (storeInRAM w) (wUUID w) t)" and upd: "upd"
    and run: "Worker_Map f upd h w files out"
  shows "\<exists>r. out = Done r"
proof -
  have nn: "nat (wNReduce w) = n" using n by simp
  have ne: "es \<noteq> []" using es(2) map_feeds_length [OF es(1)] by auto
  have safe: "crashed s = None" if "map_reach n es s" for s
    using map_reach_inv [OF n(2) that] by (simp add: map_inv_def)
  have go: "exited s" if "map_reach n es s" "\<And>l. map_step n l s = None" for s
    using map_progress [OF n(2) ne that(1)] that(2) by auto
  have ok: "\<exists>r. writeIMDToLocalFile h (imdKV s) (wUUID w) (storeInRAM w) order = Done r"
    if "map_reach n es s" "distinct order" "set order = {0..<length (imdKV s)}" for s order
  proof -
    have "length (imdKV s) = n" using map_reach_inv [OF n(2) that(1)] by (simp add: map_inv_def)
    then show ?thesis
      using writeIMDToLocalFile_Done [OF that(2,3), of h "storeInRAM w" "wUUID w"] wr by auto
  qed
  show ?thesis
    using run
  proof cases
    case (loop_panic es' s p) with es safe nn show ?thesis by auto
  next
    case (loop_block es' s) with es go nn show ?thesis by auto
  next
    case (write_panic es' s order p) with es ok [of s order] nn show ?thesis by auto
  qed (use es n upd in auto)
qed

text \<open>
  C9. A map call on at least one file, whose plugin returns on every chunk, with its output paths
  writable and the master answering, returns and cannot fail. Each possible result has, under
  the path of every reducer, a file with exactly the pairs of that reducer, reports the paths
  in the order of the reducers, and touches no other file.
\<close>

theorem Worker_Map_correct:
  assumes es: "map_feeds f (disk h) files = Done es" "files \<noteq> []"
    and n: "wNReduce w = int n" "0 < n"
    and wr: "\<forall>t < n. writable h (imd_path h (storeInRAM w) (wUUID w) t)"
  shows "(\<exists>r. Worker_Map f True h w files (Done r)) \<and>
    (\<forall>out. Worker_Map f True h w files out \<longrightarrow> (\<exists>w' h' filenames imd. out = Done (w', h', filenames) \<and>
       wState w' = W_IDLE \<and> length imd = n \<and>
       filenames = map (imd_path h (storeInRAM w) (wUUID w)) [0..<n] \<and>
       (\<forall>t < n. disk h' (imd_path h (storeInRAM w) (wUUID w) t) = Some (encodeIMDKVs (imd ! t)) \<and>
          mset (imd ! t) = filter_mset (\<lambda>kv. reducer_index n (Key kv) = t) (mset (concat es))) \<and>
       (\<forall>p. (\<forall>t. p \<noteq> imd_path h (storeInRAM w) (wUUID w) t) \<longrightarrow> disk h' p = disk h p)))"
proof (intro conjI allI impI)
  show "\<exists>r. Worker_Map f True h w files (Done r)"
    using Worker_Map_returns [OF es n wr] by simp
  fix out assume run: "Worker_Map f True h w files out"
  obtain w' h' filenames where out: "out = Done (w', h', filenames)"
    using Worker_Map_no_failure [OF es n wr _ run] by auto
  then show "\<exists>w' h' filenames imd. out = Done (w', h', filenames) \<and>
       wState w' = W_IDLE \<and> length imd = n \<and>
       filenames = map (imd_path h (storeInRAM w) (wUUID w)) [0..<n] \<and>
       (\<forall>t < n. disk h' (imd_path h (storeInRAM w) (wUUID w) t) = Some (encodeIMDKVs (imd ! t)) \<and>
          mset (imd ! t) = filter_mset (\<lambda>kv. reducer_index n (Key kv) = t) (mset (concat es))) \<and>
       (\<forall>p. (\<forall>t. p \<noteq> imd_path h (storeInRAM w) (wUUID w) t) \<longrightarrow> disk h' p = disk h p)"
    using Worker_Map_buckets [OF run [unfolded out] n wr] es(1) by auto
qed

theorem Worker_Map_correct_witness:
  "\<exists>r. Worker_Map (\<lambda>fn c. Done [newKV fn c]) True
     \<lparr>disk = [''in'' \<mapsto> ''xy''], writable = (\<lambda>_. True), shm_is_dir = True, temp_dir = ''/tmp''\<rparr>
     (newWorker ''u'' 2 True) [\<lparr>FileName = ''in'', From = 0, To = 2\<rparr>] (Done r)"
proof -
  let ?h = "\<lparr>disk = [''in'' \<mapsto> ''xy''], writable = (\<lambda>_. True), shm_is_dir = True, temp_dir = ''/tmp''\<rparr>"
  have "map_feeds (\<lambda>fn c. Done [newKV fn c]) (disk ?h) [\<lparr>FileName = ''in'', From = 0, To = 2\<rparr>] =
      Done [[newKV ''in'' ''xy'']]"
    by (simp add: partialContent_def max_alloc_def read_full_def)
  then show ?thesis
    using Worker_Map_correct [of "\<lambda>fn c. Done [newKV fn c]" ?h _ _ "newWorker ''u'' 2 True" 2]
    by (simp add: newWorker_def)
qed

end
