(* ===== verification/Redis_Resp.thy ===== *)
theory Redis_Resp
  imports Go_Ints Worker_Node
begin

text \<open>
  The Redis client of \<^verbatim>\<open>batch/redis_batch/config.go\<close>: the RESP text of a command, the reader of
  replies with its errors and panics, and the exchange of a command for a reply. The server is
  a parameter. The reader is proved to read back every well-formed reply, whatever follows it,
  and to end on every input.
\<close>

record ConnConfig =
  Host :: string
  Port :: int
  Password :: string
  DB :: int

definition conn_WithDefaults :: "ConnConfig \<Rightarrow> ConnConfig" where
  "conn_WithDefaults c =
     c\<lparr>Host := (if Host c = [] then ''127.0.0.1'' else Host c), Port := (if Port c = 0 then 6379 else Port c)\<rparr>"

subsection \<open>Commands\<close>

abbreviation CRLF :: string where "CRLF \<equiv> [CR, NL]"

text \<open>\<^verbatim>\<open>strings.ToUpper\<close> of the command names, which are ASCII words.\<close>

definition ascii_upper :: "char \<Rightarrow> char" where
  "ascii_upper c =
     (if 97 \<le> (of_char c :: nat) \<and> of_char c \<le> (122 :: nat) then char_of (of_char c - 32 :: nat) else c)"

definition bulk :: "string \<Rightarrow> string" where
  "bulk p = ''$'' @ itoa (int (length p)) @ CRLF @ p @ CRLF"

definition command_text :: "string \<Rightarrow> string list \<Rightarrow> string" where
  "command_text cmd args =
     (let parts = map ascii_upper cmd # args
      in ''*'' @ itoa (int (length parts)) @ CRLF @ concat (map bulk parts))"

subsection \<open>Replies\<close>

text \<open>
  What \<^verbatim>\<open>readResp\<close> returns: \<^verbatim>\<open>nil\<close>, a string, a \<^verbatim>\<open>respErr\<close>, an \<^verbatim>\<open>int64\<close> or a slice. The reader works on the bytes the connection
  will deliver; where they end, the reads give an error. \<open>Server e\<close> is the error
  \<^verbatim>\<open>fmt.Errorf(string(e))\<close>.
\<close>

datatype resp = RNil | RStr string | RErr string | RInt int | RArr "resp list"

datatype redis_err = NetErr | NumErr num_error | Server string | UnknownType char | Msg string

datatype 'a reading = ROk 'a string | RFail redis_err string | RPanic panic | RFuel

definition read_string :: "string \<Rightarrow> (string \<times> string) option" where
  "read_string s =
     (if NL \<in> set s then Some (takeWhile (\<lambda>c. c \<noteq> NL) s @ [NL], tl (dropWhile (\<lambda>c. c \<noteq> NL) s)) else None)"

definition trim_crlf :: "string \<Rightarrow> string" where
  "trim_crlf s = trim_suffix1 CR (trim_suffix1 NL s)"

fun read_text :: "(string \<Rightarrow> resp) \<Rightarrow> string \<Rightarrow> resp reading" where
  "read_text f s = (case read_string s of None \<Rightarrow> RFail NetErr [] | Some (l, r) \<Rightarrow> ROk (f (trim_crlf l)) r)"

fun read_number :: "string \<Rightarrow> int reading" where
  "read_number s =
     (case read_string s of
        None \<Rightarrow> RFail NetErr []
      | Some (l, r) \<Rightarrow>
          (case parse_int (trim_space l) of (n, None) \<Rightarrow> ROk n r | (_, Some e) \<Rightarrow> RFail (NumErr e) r))"

text \<open>The body of a bulk string: \<^verbatim>\<open>make([]byte, n+2)\<close> with the 64-bit sum, then \<^verbatim>\<open>io.ReadFull\<close>.\<close>

definition read_bulk :: "int \<Rightarrow> string \<Rightarrow> resp reading" where
  "read_bulk n s =
     (let m = wrap64 (n + 2)
      in if m < 0 \<or> max_alloc < m then RPanic MakeSliceOutOfRange
         else if int (length s) < m then RFail NetErr []
         else ROk (RStr (take (nat n) s)) (drop (nat m) s))"

text \<open>The recursion over nested arrays, with the number of nested calls as fuel.\<close>

fun read_resp :: "nat \<Rightarrow> string \<Rightarrow> resp reading"
and read_items :: "nat \<Rightarrow> nat \<Rightarrow> string \<Rightarrow> resp list reading" where
  "read_resp 0 s = RFuel"
| "read_resp (Suc k) [] = RFail NetErr []"
| "read_resp (Suc k) (c # s) =
     (if c = CHR ''+'' then read_text RStr s
      else if c = CHR ''-'' then read_text RErr s
      else if c = CHR '':'' then (case read_number s of ROk n r \<Rightarrow> ROk (RInt n) r | RFail e r \<Rightarrow> RFail e r | RPanic p \<Rightarrow> RPanic p | RFuel \<Rightarrow> RFuel)
      else if c = CHR ''$'' then
        (case read_number s of
           ROk n r \<Rightarrow> (if n < 0 then ROk RNil r else read_bulk n r)
         | RFail e r \<Rightarrow> RFail e r | RPanic p \<Rightarrow> RPanic p | RFuel \<Rightarrow> RFuel)
      else if c = CHR ''*'' then
        (case read_number s of
           ROk n r \<Rightarrow>
             (if n < 0 then ROk RNil r
              else if max_alloc < 16 * n then RPanic MakeSliceOutOfRange
              else (case read_items k (nat n) r of
                      ROk vs r' \<Rightarrow> ROk (RArr vs) r'
                    | RFail e r \<Rightarrow> RFail e r | RPanic p \<Rightarrow> RPanic p | RFuel \<Rightarrow> RFuel))
         | RFail e r \<Rightarrow> RFail e r | RPanic p \<Rightarrow> RPanic p | RFuel \<Rightarrow> RFuel)
      else RFail (UnknownType c) s)"
| "read_items k 0 s = ROk [] s"
| "read_items k (Suc n) s =
     (case read_resp k s of
        ROk v r \<Rightarrow>
          (case read_items k n r of
             ROk vs r' \<Rightarrow> ROk (v # vs) r'
           | RFail e r \<Rightarrow> RFail e r | RPanic p \<Rightarrow> RPanic p | RFuel \<Rightarrow> RFuel)
      | RFail e r \<Rightarrow> RFail e r | RPanic p \<Rightarrow> RPanic p | RFuel \<Rightarrow> RFuel)"

definition readResp :: "string \<Rightarrow> resp reading" where
  "readResp s = read_resp (length s + 1) s"

fun resp_sprint :: "resp \<Rightarrow> string" where
  "resp_sprint RNil = ''<nil>''"
| "resp_sprint (RStr s) = s"
| "resp_sprint (RErr s) = s"
| "resp_sprint (RInt n) = itoa n"
| "resp_sprint (RArr vs) = ''['' @ join '' '' (map resp_sprint vs) @ '']''"

definition toString :: "resp \<Rightarrow> string" where
  "toString v = (if v = RNil then [] else resp_sprint v)"

subsection \<open>A command and its reply\<close>

text \<open>
  The server takes the bytes of a request and gives the bytes it sends back, \<open>None\<close> when the write
  fails. A connection is the state of the server and the bytes received and not yet read.
\<close>

type_synonym 's serve = "string \<Rightarrow> 's \<Rightarrow> string option \<times> 's"
type_synonym 's conn = "'s \<times> string"
type_synonym 'a rres = "redis_err + 'a"

definition client_do :: "'s serve \<Rightarrow> string \<Rightarrow> string list \<Rightarrow> 's conn \<Rightarrow> (resp rres \<times> 's conn) outcome" where
  "client_do serve cmd args c =
     (case c of (s, pend) \<Rightarrow>
        (case serve (command_text cmd args) s of
           (None, s') \<Rightarrow> Done (Inl NetErr, (s', pend))
         | (Some bytes, s') \<Rightarrow>
             (case readResp (pend @ bytes) of
                ROk v r \<Rightarrow> Done (case v of RErr e \<Rightarrow> Inl (Server e) | _ \<Rightarrow> Inr v, (s', r))
              | RFail e r \<Rightarrow> Done (Inl e, (s', r))
              | RPanic p \<Rightarrow> Panics p
              | RFuel \<Rightarrow> Blocks)))"

text \<open>\<^verbatim>\<open>openRedis\<close>: dial, authenticate, select the database, ping; the address is what \<^verbatim>\<open>Sprintf\<close> makes.\<close>

definition redis_addr :: "ConnConfig \<Rightarrow> string" where
  "redis_addr c = Host c @ '':'' @ itoa (Port c)"

definition do_check :: "'s serve \<Rightarrow> bool \<Rightarrow> string \<Rightarrow> string list \<Rightarrow> 's conn \<Rightarrow> (unit rres \<times> 's conn) outcome" where
  "do_check serve need cmd args c =
     (if \<not> need then Done (Inr (), c)
      else bind_outcome (client_do serve cmd args c) (\<lambda>(r, c'). Done (map_sum id (\<lambda>_. ()) r, c')))"

definition openRedis :: "'s serve \<Rightarrow> (string \<Rightarrow> 's rres) \<Rightarrow> ConnConfig \<Rightarrow> ('s conn rres) outcome" where
  "openRedis serve dial cfg =
     (let c = conn_WithDefaults cfg in
      case dial (redis_addr c) of
        Inl e \<Rightarrow> Done (Inl e)
      | Inr s \<Rightarrow>
          bind_outcome (do_check serve (Password c \<noteq> []) ''AUTH'' [Password c] (s, [])) (\<lambda>(r1, c1).
          case r1 of Inl e \<Rightarrow> Done (Inl e) | Inr _ \<Rightarrow>
          bind_outcome (do_check serve (0 < DB c) ''SELECT'' [itoa (DB c)] c1) (\<lambda>(r2, c2).
          case r2 of Inl e \<Rightarrow> Done (Inl e) | Inr _ \<Rightarrow>
          bind_outcome (do_check serve True ''PING'' [] c2) (\<lambda>(r3, c3).
          case r3 of Inl e \<Rightarrow> Done (Inl e) | Inr _ \<Rightarrow> Done (Inr c3)))))"

subsection \<open>Reading back what was written\<close>

text \<open>The text of a reply, as the protocol defines it, and which replies have one that the reader takes.\<close>

fun resp_text :: "resp \<Rightarrow> string" where
  "resp_text RNil = ''$-1'' @ CRLF"
| "resp_text (RStr s) = bulk s"
| "resp_text (RErr s) = ''-'' @ s @ CRLF"
| "resp_text (RInt n) = '':'' @ itoa n @ CRLF"
| "resp_text (RArr vs) = ''*'' @ itoa (int (length vs)) @ CRLF @ concat (map resp_text vs)"

fun resp_ok :: "resp \<Rightarrow> bool" where
  "resp_ok RNil = True"
| "resp_ok (RStr s) = (int (length s) + 2 \<le> max_alloc)"
| "resp_ok (RErr s) = (NL \<notin> set s)"
| "resp_ok (RInt n) = int64 n"
| "resp_ok (RArr vs) = (16 * int (length vs) \<le> max_alloc \<and> (\<forall>v \<in> set vs. resp_ok v))"

lemma read_string_line: "NL \<notin> set l \<Longrightarrow> read_string (l @ NL # r) = Some (l @ [NL], r)"
proof -
  assume "NL \<notin> set l"
  then have "takeWhile (\<lambda>c. c \<noteq> NL) (l @ NL # r) = l" "dropWhile (\<lambda>c. c \<noteq> NL) (l @ NL # r) = NL # r"
    by (induction l) auto
  then show ?thesis by (simp add: read_string_def)
qed

lemma read_number_itoa:
  assumes "int64 n"
  shows "read_number (itoa n @ CR # NL # r) = ROk n r"
proof -
  have "NL \<notin> set (itoa n @ [CR])" using itoa_no_sep [of NL n] by (simp add: ascii_space_def)
  from read_string_line [OF this, of r] have "read_string (itoa n @ CR # NL # r) = Some (itoa n @ [CR, NL], r)" by simp
  moreover have "trim_space (itoa n @ [CR, NL]) = itoa n"
  proof -
    have sp: "ascii_space CR" "ascii_space NL" by (simp_all add: ascii_space_def)
    have "starts_clean (itoa n)" using itoa_plain [of n] by (cases "itoa n") (auto simp: starts_clean_plain)
    then have "starts_clean (itoa n @ [CR, NL])" by (simp add: starts_clean_append)
    moreover have "trim_right (itoa n @ [CR, NL]) = trim_right (itoa n)"
      using trim_right_snoc_space [OF sp(2), of "itoa n @ [CR]"] trim_right_snoc_space [OF sp(1), of "itoa n"] by simp
    moreover have "trim_right (itoa n) = itoa n"
      using itoa_plain [of n] by (cases "itoa n" rule: rev_cases) (auto simp: ends_clean_plain)
    ultimately show ?thesis by (simp add: trim_space_def)
  qed
  ultimately show ?thesis using assms by (simp add: atoi_itoa)
qed

lemma int64_small: "0 \<le> n \<Longrightarrow> n \<le> max_alloc \<Longrightarrow> int64 n"
  by (simp add: int64_def max_alloc_def)

lemma read_bulk_text:
  "int (length s) + 2 \<le> max_alloc \<Longrightarrow> read_bulk (int (length s)) (s @ CR # NL # r) = ROk (RStr s) r"
  using wrap64_id [of "int (length s) + 2"] int64_small [of "int (length s) + 2"]
  by (simp add: read_bulk_def Let_def nat_add_distrib)

lemma read_resp_bulk:
  assumes "int (length s) + 2 \<le> max_alloc"
  shows "read_resp (Suc k) (bulk s @ r) = ROk (RStr s) r"
proof -
  have "int64 (int (length s))" using assms int64_small by simp
  then have "read_number (itoa (int (length s)) @ CR # NL # s @ CR # NL # r) = ROk (int (length s)) (s @ CR # NL # r)"
    by (rule read_number_itoa)
  then show ?thesis using read_bulk_text [OF assms] by (simp add: bulk_def del: read_number.simps)
qed

lemma read_items_text:
  assumes "\<And>v r. v \<in> set vs \<Longrightarrow> read_resp k (resp_text v @ r) = ROk v r"
  shows "read_items k (length vs) (concat (map resp_text vs) @ r) = ROk vs r"
  using assms by (induction vs) auto

lemma read_resp_text: "resp_ok v \<Longrightarrow> length (resp_text v) \<le> k \<Longrightarrow> read_resp k (resp_text v @ r) = ROk v r"
proof (induction v arbitrary: k r)
  case RNil
  have "itoa (- 1) = ''-1''" by code_simp
  then have "read_number (''-1'' @ CR # NL # r) = ROk (- 1) r" using read_number_itoa [of "- 1" r] by (simp add: int64_def)
  then show ?case using RNil by (cases k) (auto simp del: read_number.simps)
next
  case (RStr s)
  then show ?case using read_resp_bulk by (cases k) (auto simp: bulk_def)
next
  case (RErr s)
  have "NL \<notin> set (s @ [CR])" using RErr.prems by simp
  from read_string_line [OF this, of r] have "read_string (s @ CR # NL # r) = Some (s @ [CR, NL], r)" by simp
  moreover have "trim_crlf (s @ [CR, NL]) = s"
    using trim_suffix1_snoc [of NL "s @ [CR]"] trim_suffix1_snoc [of CR s] by (simp add: trim_crlf_def)
  ultimately show ?case using RErr.prems by (cases k) auto
next
  case (RInt n)
  then show ?case using read_number_itoa [of n r] by (cases k) (auto simp del: read_number.simps)
next
  case (RArr vs)
  then obtain j where k: "k = Suc j" by (cases k) auto
  have n: "16 * int (length vs) \<le> max_alloc" "int64 (int (length vs))"
    using RArr.prems(1) int64_small [of "int (length vs)"] by simp_all
  have "read_resp j (resp_text v @ q) = ROk v q" if v: "v \<in> set vs" for v q
  proof (rule RArr.IH [OF v])
    show "resp_ok v" using RArr.prems(1) v by simp
    have "length (resp_text v) \<le> length (concat (map resp_text vs))"
      using v member_le_sum_list [of "length (resp_text v)" "map (length \<circ> resp_text) vs"] by (auto simp: length_concat comp_def)
    then show "length (resp_text v) \<le> j" using RArr.prems(2) k by simp
  qed
  then have "read_items j (length vs) (concat (map resp_text vs) @ r) = ROk vs r" by (rule read_items_text)
  then show ?case using n read_number_itoa [OF n(2), of "concat (map resp_text vs) @ r"] k
    by (simp del: read_number.simps)
qed

lemma readResp_text: "resp_ok v \<Longrightarrow> readResp (resp_text v @ r) = ROk v r"
  unfolding readResp_def by (rule read_resp_text) simp_all

lemma command_text_resp: "command_text cmd args = resp_text (RArr (map RStr (map ascii_upper cmd # args)))"
  by (simp add: command_text_def Let_def comp_def)

subsection \<open>The reader ends\<close>

definition shorter :: "string \<Rightarrow> 'a reading \<Rightarrow> bool" where
  "shorter s x = (case x of ROk v r \<Rightarrow> length r < length s | RFail e r \<Rightarrow> length r \<le> length s | RPanic p \<Rightarrow> True | RFuel \<Rightarrow> False)"

definition no_longer :: "string \<Rightarrow> 'a reading \<Rightarrow> bool" where
  "no_longer s x = (case x of ROk v r \<Rightarrow> length r \<le> length s | RFail e r \<Rightarrow> length r \<le> length s | RPanic p \<Rightarrow> True | RFuel \<Rightarrow> False)"

lemma read_string_shorter: "read_string s = Some (l, r) \<Longrightarrow> length r < length s"
  using length_dropWhile_le [of "\<lambda>c. c \<noteq> NL" s] by (cases s) (auto simp: read_string_def split: if_splits)

lemma read_text_shorter: "no_longer s (read_text f s)"
  using read_string_shorter by (auto simp: no_longer_def dest: less_imp_le split: option.splits)

lemma read_number_shorter: "no_longer s (read_number s)"
  using read_string_shorter by (auto simp: no_longer_def dest: less_imp_le split: option.splits prod.splits)

lemma read_bulk_shorter: "no_longer s (read_bulk n s)"
  by (simp add: no_longer_def read_bulk_def Let_def)

lemma no_longer_simps:
  "no_longer s (ROk v r) \<longleftrightarrow> length r \<le> length s" "no_longer s (RFail e r) \<longleftrightarrow> length r \<le> length s"
  "no_longer s (RPanic p)" "\<not> no_longer s RFuel"
  by (simp_all add: no_longer_def)

lemma shorter_Cons: "no_longer s x \<Longrightarrow> shorter (c # s) x"
  by (cases x) (simp_all add: shorter_def no_longer_def)

lemma no_longer_trans: "no_longer r x \<Longrightarrow> length r \<le> length s \<Longrightarrow> no_longer s x"
  by (cases x) (simp_all add: no_longer_def)

lemma read_resp_ends:
  "(length s < k \<longrightarrow> shorter s (read_resp k s))" "(length t < j \<longrightarrow> no_longer t (read_items j n t))"
proof (induction k s and j n t rule: read_resp_read_items.induct)
  case (3 k c s)
  show ?case
  proof
    assume k: "length (c # s) < Suc k"
    note rn = read_number_shorter [of s]
    have items: "no_longer r (read_items k (nat n) r)"
      if "c = CHR ''*''" "read_number s = ROk n r" "\<not> n < 0" "\<not> max_alloc < 16 * n" for n r
      using 3 that rn k by (simp add: no_longer_def del: read_number.simps read_items.simps)
    consider "c = CHR ''+''" | "c = CHR ''-''" | "c = CHR '':''" | "c = CHR ''$''" | "c = CHR ''*''" |
      "c \<notin> {CHR ''+'', CHR ''-'', CHR '':'', CHR ''$'', CHR ''*''}" by blast
    then have "no_longer s (read_resp (Suc k) (c # s))"
    proof cases
      case 3
      then show ?thesis using rn by (cases "read_number s") (simp_all add: no_longer_def del: read_number.simps)
    next
      case 4
      then show ?thesis using rn read_bulk_shorter
        by (cases "read_number s") (auto simp: no_longer_simps simp del: read_number.simps intro: no_longer_trans)
    next
      case 5
      show ?thesis
      proof (cases "read_number s")
        case (ROk n r)
        then show ?thesis using 5 rn items [OF 5 ROk]
          by (cases "read_items k (nat n) r") (auto simp: no_longer_def simp del: read_number.simps)
      qed (use 5 rn in \<open>simp_all add: no_longer_def del: read_number.simps\<close>)
    qed (use read_text_shorter in \<open>simp_all add: no_longer_simps del: read_text.simps\<close>)
    then show "shorter (c # s) (read_resp (Suc k) (c # s))" by (rule shorter_Cons)
  qed
next
  case (5 k n s)
  then show ?case by (fastforce simp: shorter_def no_longer_def split: reading.splits)
qed (auto simp: shorter_def no_longer_def)

section \<open>Properties\<close>



text \<open>
  The reader returns on every input, with a reply, an error or a panic, and never takes a byte
  twice: what is left of the input is never longer than the input, and shorter after a reply.
\<close>

theorem readResp_ends:
  "case readResp s of ROk v r \<Rightarrow> length r < length s | RFail e r \<Rightarrow> length r \<le> length s | RPanic p \<Rightarrow> True | RFuel \<Rightarrow> False"
  using read_resp_ends(1) [of s "length s + 1"] by (simp add: readResp_def shorter_def)


end
