(* ===== verification/Redis_Batch.thy ===== *)
theory Redis_Batch
  imports Redis_Resp Sink_Lines Go_Paths
begin

text \<open>
  The Redis source and sink (\<^verbatim>\<open>batch/redis_batch/source.go\<close>, \<^verbatim>\<open>sink.go\<close>, \<^verbatim>\<open>factory.go\<close>): both page through
  the keys with \<^verbatim>\<open>SCAN\<close>, the source writes one line per hash, the sink sets one hash field per line of
  the reduce outputs. A loop over pages ends when the server hands out the cursor 0, which it
  need not; the loops are partial functions and \<^verbatim>\<open>None\<close> means that they do not return.
\<close>

subsection \<open>Pages of keys\<close>

text \<open>One \<^verbatim>\<open>SCAN\<close>: the next cursor and the keys of the page.\<close>

definition scan_page :: "'s serve \<Rightarrow> string \<Rightarrow> string \<Rightarrow> string \<Rightarrow> 's conn \<Rightarrow> ((string \<times> resp list) rres \<times> 's conn) outcome" where
  "scan_page serve cursor pattern cnt c =
     bind_outcome (client_do serve ''SCAN'' [cursor, ''MATCH'', pattern, ''COUNT'', cnt] c) (\<lambda>(r, c').
       Done (case r of
               Inl e \<Rightarrow> Inl e
             | Inr v \<Rightarrow> (case v of
                 RArr [cur, keys] \<Rightarrow>
                   (case keys of RArr ks \<Rightarrow> Inr (toString cur, ks) | _ \<Rightarrow> Inl (Msg ''unexpected SCAN keys response''))
               | _ \<Rightarrow> Inl (Msg ''unexpected SCAN response'')), c'))"

subsection \<open>Source\<close>

record RedisSourceConfig =
  KeyPattern :: string
  KeyField :: string
  ValField :: string
  ScanCount :: int
  RedisOutputDir :: string
  RedisFilePrefix :: string

definition redis_source_WithDefaults :: "RedisSourceConfig \<Rightarrow> RedisSourceConfig" where
  "redis_source_WithDefaults c =
     c\<lparr>KeyPattern := or_default ''event:*'' (KeyPattern c), KeyField := or_default ''biz_key'' (KeyField c),
       ValField := or_default ''metric'' (ValField c), ScanCount := (if ScanCount c \<le> 0 then 500 else ScanCount c),
       RedisOutputDir := or_default ''txt/redis_source'' (RedisOutputDir c),
       RedisFilePrefix := or_default ''chunk'' (RedisFilePrefix c)\<rparr>"

text \<open>The text written so far and the number of the next line, an \<^verbatim>\<open>int64\<close>.\<close>

type_synonym export_acc = "string \<times> int"

definition source_line :: "int \<Rightarrow> string \<Rightarrow> string \<Rightarrow> string" where
  "source_line i k m = itoa i @ [TAB] @ k @ [TAB] @ m @ [NL]"

definition export_key :: "'s serve \<Rightarrow> RedisSourceConfig \<Rightarrow> resp \<Rightarrow> export_acc \<Rightarrow> 's conn \<Rightarrow> (export_acc \<times> 's conn) outcome" where
  "export_key serve cfg kv acc c =
     (let keyName = toString kv in
      if keyName = [] then Done (acc, c)
      else bind_outcome (client_do serve ''HMGET'' [keyName, KeyField cfg, ValField cfg] c) (\<lambda>(r, c').
        Done (case r of
                Inr (RArr (h0 # h1 # hs)) \<Rightarrow>
                  (let bizKey = (if toString h0 = [] then keyName else toString h0); metric = toString h1
                   in if metric = [] then acc
                      else (fst acc @ source_line (snd acc) bizKey metric, wrap64 (snd acc + 1)))
              | _ \<Rightarrow> acc, c')))"

fun export_keys :: "'s serve \<Rightarrow> RedisSourceConfig \<Rightarrow> resp list \<Rightarrow> export_acc \<Rightarrow> 's conn \<Rightarrow> (export_acc \<times> 's conn) outcome" where
  "export_keys serve cfg [] acc c = Done (acc, c)"
| "export_keys serve cfg (kv # kvs) acc c =
     bind_outcome (export_key serve cfg kv acc c) (\<lambda>(acc', c'). export_keys serve cfg kvs acc' c')"

partial_function (option) export_scan ::
  "'s serve \<Rightarrow> RedisSourceConfig \<Rightarrow> string \<Rightarrow> export_acc \<Rightarrow> 's conn \<Rightarrow> (redis_err option \<times> export_acc) outcome option" where
  "export_scan serve cfg cursor acc c =
     (case scan_page serve cursor (KeyPattern cfg) (itoa (ScanCount cfg)) c of
        Panics p \<Rightarrow> Some (Panics p)
      | Blocks \<Rightarrow> Some Blocks
      | Done (Inl e, c') \<Rightarrow> Some (Done (Some e, acc))
      | Done (Inr (cursor', ks), c') \<Rightarrow>
          (case export_keys serve cfg ks acc c' of
             Panics p \<Rightarrow> Some (Panics p)
           | Blocks \<Rightarrow> Some Blocks
           | Done (acc', c'') \<Rightarrow>
               (if cursor' = ''0'' then Some (Done (None, acc')) else export_scan serve cfg cursor' acc' c'')))"

text \<open>The function: \<open>None\<close> if it does not return, else the result and the disk.\<close>

record redis_host =
  rh_mkdir :: "path \<Rightarrow> bool"
  rh_glob :: "string \<Rightarrow> fs \<Rightarrow> path list rres"
  rh_create :: "path \<Rightarrow> bool"
  rh_remove :: "path \<Rightarrow> bool"

definition redis_out_file :: "RedisSourceConfig \<Rightarrow> path" where
  "redis_out_file c = path_join [RedisOutputDir c, RedisFilePrefix c @ ''-'' @ pad5 0 @ ''.txt'']"

definition ExportSource :: "'s serve \<Rightarrow> (string \<Rightarrow> 's rres) \<Rightarrow> redis_host \<Rightarrow> ConnConfig \<Rightarrow> RedisSourceConfig \<Rightarrow> fs \<Rightarrow>
    (path list rres \<times> fs) outcome option" where
  "ExportSource serve dial h connCfg cfg0 d =
     (let cfg = redis_source_WithDefaults cfg0 in
      case openRedis serve dial connCfg of
        Panics p \<Rightarrow> Some (Panics p)
      | Blocks \<Rightarrow> Some Blocks
      | Done (Inl e) \<Rightarrow> Some (Done (Inl e, d))
      | Done (Inr c) \<Rightarrow>
          (if \<not> rh_mkdir h (RedisOutputDir cfg) then Some (Done (Inl (Msg ''mkdir''), d))
           else (case rh_glob h (path_join [RedisOutputDir cfg, RedisFilePrefix cfg @ ''-*.txt'']) d of
              Inl e \<Rightarrow> Some (Done (Inl e, d))
            | Inr olds \<Rightarrow>
                (let d1 = (\<lambda>p. if p \<in> set olds \<and> rh_remove h p then None else d p); out = redis_out_file cfg in
                 if \<not> rh_create h out then Some (Done (Inl (Msg ''create''), d1))
                 else map_option (\<lambda>r. bind_outcome r (\<lambda>(er, text, lineID).
                        Done (case er of Some e \<Rightarrow> Inl e | None \<Rightarrow> Inr (if lineID = 1 then [] else [out]), d1(out \<mapsto> text))))
                      (export_scan serve cfg ''0'' ([], 1) c)))))"

subsection \<open>Sink\<close>

record RedisSinkConfig =
  KeyPrefix :: string
  ValueField :: string
  RedisInputGlob :: string
  RedisReplace :: bool

definition redis_sink_WithDefaults :: "RedisSinkConfig \<Rightarrow> RedisSinkConfig" where
  "redis_sink_WithDefaults c =
     c\<lparr>KeyPrefix := or_default ''mr:result:'' (KeyPrefix c), ValueField := or_default ''metric_sum'' (ValueField c),
       RedisInputGlob := or_default ''mr-out-*.txt'' (RedisInputGlob c)\<rparr>"

definition redis_InputGlob :: "RedisSinkConfig \<Rightarrow> string" where
  "redis_InputGlob cfg = RedisInputGlob (redis_sink_WithDefaults cfg)"

fun delete_keys :: "'s serve \<Rightarrow> resp list \<Rightarrow> 's conn \<Rightarrow> 's conn outcome" where
  "delete_keys serve [] c = Done c"
| "delete_keys serve (kv # kvs) c =
     (let k = toString kv in
      if k \<noteq> [] then bind_outcome (client_do serve ''DEL'' [k] c) (\<lambda>(_, c'). delete_keys serve kvs c')
      else delete_keys serve kvs c)"

partial_function (option) delete_scan :: "'s serve \<Rightarrow> string \<Rightarrow> string \<Rightarrow> 's conn \<Rightarrow> ('s conn rres) outcome option" where
  "delete_scan serve pattern cursor c =
     (case scan_page serve cursor pattern ''1000'' c of
        Panics p \<Rightarrow> Some (Panics p)
      | Blocks \<Rightarrow> Some Blocks
      | Done (Inl e, c') \<Rightarrow> Some (Done (Inl e))
      | Done (Inr (cursor', ks), c') \<Rightarrow>
          (case delete_keys serve ks c' of
             Panics p \<Rightarrow> Some (Panics p)
           | Blocks \<Rightarrow> Some Blocks
           | Done c'' \<Rightarrow> (if cursor' = ''0'' then Some (Done (Inr c'')) else delete_scan serve pattern cursor' c'')))"

fun put_pairs :: "'s serve \<Rightarrow> RedisSinkConfig \<Rightarrow> (string \<times> string) list \<Rightarrow> 's conn \<Rightarrow> ('s conn rres) outcome" where
  "put_pairs serve cfg [] c = Done (Inr c)"
| "put_pairs serve cfg ((k, v) # ps) c =
     bind_outcome (client_do serve ''HSET'' [KeyPrefix cfg @ k, ValueField cfg, v] c) (\<lambda>(r, c').
       case r of Inl e \<Rightarrow> Done (Inl e) | Inr _ \<Rightarrow> put_pairs serve cfg ps c')"

fun put_files :: "'s serve \<Rightarrow> RedisSinkConfig \<Rightarrow> fs \<Rightarrow> path list \<Rightarrow> 's conn \<Rightarrow> ('s conn rres) outcome" where
  "put_files serve cfg d [] c = Done (Inr c)"
| "put_files serve cfg d (f # fs) c =
     (case d f of
        None \<Rightarrow> Done (Inl (Msg (''open '' @ f)))
      | Some s \<Rightarrow>
          bind_outcome (put_pairs serve cfg (file_fields s) c) (\<lambda>r.
            case r of
              Inl e \<Rightarrow> Done (Inl e)
            | Inr c' \<Rightarrow>
                (if snd (scan_lines s) then Done (Inl (Msg ''bufio.Scanner: token too long''))
                 else put_files serve cfg d fs c')))"

text \<open>The import: \<open>None\<close> if it does not return, else an error or the connection at the end.\<close>

definition redis_ImportReduceOutputs :: "'s serve \<Rightarrow> (string \<Rightarrow> 's rres) \<Rightarrow> (string \<Rightarrow> fs \<Rightarrow> path list rres) \<Rightarrow> ConnConfig \<Rightarrow>
    RedisSinkConfig \<Rightarrow> fs \<Rightarrow> ('s conn rres) outcome option" where
  "redis_ImportReduceOutputs serve dial glb connCfg cfg0 d =
     (let cfg = redis_sink_WithDefaults cfg0 in
      case openRedis serve dial connCfg of
        Panics p \<Rightarrow> Some (Panics p)
      | Blocks \<Rightarrow> Some Blocks
      | Done (Inl e) \<Rightarrow> Some (Done (Inl e))
      | Done (Inr c) \<Rightarrow>
          (case glb (RedisInputGlob cfg) d of
             Inl e \<Rightarrow> Some (Done (Inl e))
           | Inr files \<Rightarrow>
               (if files = [] then Some (Done (Inl (Msg (''no reduce output files matched: '' @ RedisInputGlob cfg))))
                else Option.bind
                  (if RedisReplace cfg then delete_scan serve (KeyPrefix cfg @ ''*'') ''0'' c else Some (Done (Inr c)))
                  (\<lambda>o1. Some (bind_outcome o1 (\<lambda>r. case r of Inl e \<Rightarrow> Done (Inl e) | Inr c' \<Rightarrow> put_files serve cfg d files c'))))))"

subsection \<open>Servers that speak the protocol\<close>

text \<open>
  In the states the server can be in, \<open>good\<close>, every request that fits in memory is answered with one
  well-formed reply. \<open>decoding\<close> is a server over a function on commands that reads the bytes of
  the request.
\<close>

definition small :: "string \<Rightarrow> bool" where
  "small s \<longleftrightarrow> int (length s) + 2 \<le> max_alloc"

definition request :: "string list \<Rightarrow> bool" where
  "request ps \<longleftrightarrow> ps \<noteq> [] \<and> length ps \<le> 8 \<and> map ascii_upper (hd ps) = hd ps \<and> (\<forall>p \<in> set ps. small p)"

definition speaks :: "'s serve \<Rightarrow> (string list \<Rightarrow> 's \<Rightarrow> resp \<times> 's) \<Rightarrow> ('s \<Rightarrow> bool) \<Rightarrow> bool" where
  "speaks serve reply good \<longleftrightarrow>
     (\<forall>cmd args s. request (cmd # args) \<and> good s \<longrightarrow>
        serve (command_text cmd args) s =
          (Some (resp_text (fst (reply (cmd # args) s))), snd (reply (cmd # args) s)) \<and> resp_ok (fst (reply (cmd # args) s)))"

definition decoding :: "(string list \<Rightarrow> 's \<Rightarrow> resp \<times> 's) \<Rightarrow> 's serve" where
  "decoding reply req s =
     (case readResp req of
        ROk (RArr vs) _ \<Rightarrow> (Some (resp_text (fst (reply (map toString vs) s))), snd (reply (map toString vs) s))
      | _ \<Rightarrow> (None, s))"

definition as_result :: "resp \<Rightarrow> resp rres" where
  "as_result v = (case v of RErr e \<Rightarrow> Inl (Server e) | _ \<Rightarrow> Inr v)"

lemma client_do_speaks:
  assumes sp: "speaks serve reply good" and rq: "request (cmd # args)" and gd: "good s"
  shows "client_do serve cmd args (s, []) = Done (as_result (fst (reply (cmd # args) s)), (snd (reply (cmd # args) s), []))"
    and "resp_ok (fst (reply (cmd # args) s))"
proof -
  have "serve (command_text cmd args) s = (Some (resp_text (fst (reply (cmd # args) s))), snd (reply (cmd # args) s))"
    and ok: "resp_ok (fst (reply (cmd # args) s))" using sp rq gd unfolding speaks_def by blast+
  then show "client_do serve cmd args (s, []) = Done (as_result (fst (reply (cmd # args) s)), (snd (reply (cmd # args) s), []))"
    using readResp_text [OF ok, of "[]"] by (simp add: client_do_def as_result_def)
  show "resp_ok (fst (reply (cmd # args) s))" by (rule ok)
qed

lemma toString_RStr [simp]: "toString (RStr s) = s"
  by (simp add: toString_def)

lemma decoding_speaks:
  assumes "\<And>ps s. request ps \<Longrightarrow> good s \<Longrightarrow> resp_ok (fst (reply ps s))"
  shows "speaks (decoding reply) reply good"
  unfolding speaks_def
proof (intro allI impI)
  fix cmd :: string and args s
  assume rq: "request (cmd # args) \<and> good s"
  then have up: "map ascii_upper cmd = cmd" by (simp add: request_def)
  have "resp_ok (RArr (map RStr (cmd # args)))"
    using rq by (auto simp: request_def small_def max_alloc_def)
  from readResp_text [OF this, of "[]"] have "readResp (command_text cmd args) = ROk (RArr (map RStr (cmd # args))) []"
    unfolding command_text_resp up by simp
  moreover have "map (toString \<circ> RStr) (cmd # args) = cmd # args" by (simp add: map_idI)
  ultimately show "decoding reply (command_text cmd args) s =
      (Some (resp_text (fst (reply (cmd # args) s))), snd (reply (cmd # args) s)) \<and> resp_ok (fst (reply (cmd # args) s))"
    using assms rq by (simp add: decoding_def)
qed

subsection \<open>The pages of an iteration\<close>

inductive pages_from :: "(string \<Rightarrow> string \<times> string list) \<Rightarrow> string \<Rightarrow> string list \<Rightarrow> bool" for pg where
  last_page: "pg cur = (''0'', ks) \<Longrightarrow> pages_from pg cur ks"
| next_page: "pg cur = (cur', ks) \<Longrightarrow> cur' \<noteq> ''0'' \<Longrightarrow> pages_from pg cur' ks' \<Longrightarrow> pages_from pg cur (ks @ ks')"

text \<open>
  A store that does not change during the export: \<open>pg\<close> gives the next cursor and the keys for a
  cursor, \<open>hash\<close> the two fields of a key.
\<close>

definition text_opt :: "string option \<Rightarrow> resp" where
  "text_opt x = (case x of None \<Rightarrow> RNil | Some t \<Rightarrow> RStr t)"

definition serves_hashes :: "(string list \<Rightarrow> 's \<Rightarrow> resp \<times> 's) \<Rightarrow> RedisSourceConfig \<Rightarrow> 's \<Rightarrow>
    (string \<Rightarrow> string \<times> string list) \<Rightarrow> (string \<Rightarrow> string option \<times> string option) \<Rightarrow> bool" where
  "serves_hashes reply cfg s pg hash \<longleftrightarrow>
     (\<forall>cur. reply [''SCAN'', cur, ''MATCH'', KeyPattern cfg, ''COUNT'', itoa (ScanCount cfg)] s =
        (RArr [RStr (fst (pg cur)), RArr (map RStr (snd (pg cur)))], s)) \<and>
     (\<forall>k. reply [''HMGET'', k, KeyField cfg, ValField cfg] s =
        (RArr [text_opt (fst (hash k)), text_opt (snd (hash k))], s))"

text \<open>The rows of a list of keys, and their lines numbered from \<open>i\<close> on.\<close>

definition hash_row :: "(string \<Rightarrow> string option \<times> string option) \<Rightarrow> string \<Rightarrow> (string \<times> string) option" where
  "hash_row hash k =
     (if k = [] then None
      else (case snd (hash k) of
              None \<Rightarrow> None
            | Some m \<Rightarrow> if m = [] then None
                         else Some (case fst (hash k) of None \<Rightarrow> k | Some b \<Rightarrow> if b = [] then k else b, m)))"

fun numbered :: "int \<Rightarrow> (string \<times> string) list \<Rightarrow> string" where
  "numbered i [] = []"
| "numbered i ((k, m) # rs) = source_line i k m @ numbered (i + 1) rs"

definition source_small :: "RedisSourceConfig \<Rightarrow> bool" where
  "source_small cfg \<longleftrightarrow> small (KeyPattern cfg) \<and> small (KeyField cfg) \<and> small (ValField cfg) \<and> int64 (ScanCount cfg)"

lemma small_short: "length s \<le> 1000 \<Longrightarrow> small s"
  by (simp add: small_def max_alloc_def)

lemma size_Cons_le: "length [c] \<le> 1000"
  by simp

lemma small_itoa: "int64 n \<Longrightarrow> small (itoa n)"
  using itoa_length [of n] by (intro small_short) simp

lemma upper_words: "map ascii_upper ''SCAN'' = ''SCAN''" "map ascii_upper ''HMGET'' = ''HMGET''"
  "map ascii_upper ''DEL'' = ''DEL''" "map ascii_upper ''HSET'' = ''HSET''"
  by code_simp+

lemma request_scan:
  "small cur \<Longrightarrow> small pat \<Longrightarrow> small cnt \<Longrightarrow> request [''SCAN'', cur, ''MATCH'', pat, ''COUNT'', cnt]"
  using upper_words by (simp add: request_def small_short)

lemma scan_page_hashes:
  assumes sp: "speaks serve reply (\<lambda>x. x = s)" and sv: "serves_hashes reply cfg s pg hash" and cf: "source_small cfg" and cur: "small cur"
  shows "scan_page serve cur (KeyPattern cfg) (itoa (ScanCount cfg)) (s, []) =
      Done (Inr (fst (pg cur), map RStr (snd (pg cur))), (s, []))"
    and "small (fst (pg cur))" and "\<forall>k \<in> set (snd (pg cur)). small k"
proof -
  have rq: "request [''SCAN'', cur, ''MATCH'', KeyPattern cfg, ''COUNT'', itoa (ScanCount cfg)]"
    using cf cur by (intro request_scan) (auto simp: source_small_def small_itoa)
  have r: "reply [''SCAN'', cur, ''MATCH'', KeyPattern cfg, ''COUNT'', itoa (ScanCount cfg)] s =
      (RArr [RStr (fst (pg cur)), RArr (map RStr (snd (pg cur)))], s)" using sv by (simp add: serves_hashes_def)
  note d = client_do_speaks [OF sp rq refl, unfolded r]
  show "scan_page serve cur (KeyPattern cfg) (itoa (ScanCount cfg)) (s, []) =
      Done (Inr (fst (pg cur), map RStr (snd (pg cur))), (s, []))"
    using d(1) by (simp add: scan_page_def as_result_def)
  show "small (fst (pg cur))" "\<forall>k \<in> set (snd (pg cur)). small k" using d(2) by (auto simp: small_def)
qed

definition add_row :: "export_acc \<Rightarrow> (string \<times> string) option \<Rightarrow> export_acc" where
  "add_row acc r = (case r of None \<Rightarrow> acc | Some (k, m) \<Rightarrow> (fst acc @ source_line (snd acc) k m, wrap64 (snd acc + 1)))"

lemma toString_text_opt: "toString (text_opt x) = (case x of None \<Rightarrow> [] | Some t \<Rightarrow> t)"
  by (auto simp: text_opt_def toString_def split: option.splits)

lemma export_key_hashes:
  assumes sp: "speaks serve reply (\<lambda>x. x = s)" and sv: "serves_hashes reply cfg s pg hash" and cf: "source_small cfg" and k: "small k"
  shows "export_key serve cfg (RStr k) acc (s, []) = Done (add_row acc (hash_row hash k), (s, []))"
proof (cases "k = []")
  case True
  then show ?thesis by (simp add: export_key_def hash_row_def add_row_def)
next
  case False
  have rq: "request [''HMGET'', k, KeyField cfg, ValField cfg]"
    using cf k upper_words by (simp add: request_def source_small_def small_short)
  have r: "reply [''HMGET'', k, KeyField cfg, ValField cfg] s = (RArr [text_opt (fst (hash k)), text_opt (snd (hash k))], s)"
    using sv by (simp add: serves_hashes_def)
  show ?thesis
    using client_do_speaks(1) [OF sp rq refl, unfolded r] False
    by (auto simp: export_key_def as_result_def Let_def toString_text_opt hash_row_def add_row_def split: option.splits)
qed

lemma add_row_rows:
  assumes "0 \<le> i" "i + int (length (List.map_filter f (k # ks))) < 2 ^ 63"
  shows "add_row (t, i) (f k) = (t @ numbered i (case f k of None \<Rightarrow> [] | Some p \<Rightarrow> [p]), i + (case f k of None \<Rightarrow> 0 | Some p \<Rightarrow> 1))"
  using assms by (cases "f k") (auto simp: add_row_def int64_def intro!: wrap64_id)

lemma numbered_append: "numbered i (xs @ ys) = numbered i xs @ numbered (i + int (length xs)) ys"
  by (induction i xs rule: numbered.induct) (auto simp: algebra_simps)

lemma export_keys_hashes:
  assumes sp: "speaks serve reply (\<lambda>x. x = s)" and sv: "serves_hashes reply cfg s pg hash" and cf: "source_small cfg"
    and ks: "\<forall>k \<in> set ks. small k" and i: "0 \<le> i" "i + int (length (List.map_filter (hash_row hash) ks)) < 2 ^ 63"
  shows "export_keys serve cfg (map RStr ks) (t, i) (s, []) =
    Done ((t @ numbered i (List.map_filter (hash_row hash) ks), i + int (length (List.map_filter (hash_row hash) ks))), (s, []))"
  using ks i
proof (induction ks arbitrary: t i)
  case (Cons k ks)
  note a = add_row_rows [of i "hash_row hash" k ks t, OF Cons.prems(2,3)]
  have k: "export_key serve cfg (RStr k) (t, i) (s, []) = Done (add_row (t, i) (hash_row hash k), (s, []))"
    using export_key_hashes [OF sp sv cf] Cons.prems(1) by simp
  show ?case
  proof (cases "hash_row hash k")
    case None
    then show ?thesis using k a Cons by simp
  next
    case (Some p)
    then show ?thesis using k a Cons.prems Cons.IH [of "i + 1" "t @ numbered i [p]"]
      by (cases p) (simp add: algebra_simps)
  qed
qed simp

lemma export_scan_hashes:
  assumes sp: "speaks serve reply (\<lambda>x. x = s)" and sv: "serves_hashes reply cfg s pg hash" and cf: "source_small cfg"
    and pages: "pages_from pg cur ks" and cur: "small cur"
    and i: "0 \<le> i" "i + int (length (List.map_filter (hash_row hash) ks)) < 2 ^ 63"
  shows "export_scan serve cfg cur (t, i) (s, []) =
    Some (Done (None, (t @ numbered i (List.map_filter (hash_row hash) ks), i + int (length (List.map_filter (hash_row hash) ks)))))"
  using pages cur i
proof (induction arbitrary: t i)
  case (last_page cur ks)
  note pg = scan_page_hashes [OF sp sv cf last_page.prems(1)]
  show ?case
    using pg last_page export_keys_hashes [OF sp sv cf pg(3) last_page.prems(2), of t]
    by (subst export_scan.simps) simp
next
  case (next_page cur cur' ks ks')
  note pg = scan_page_hashes [OF sp sv cf next_page.prems(1)]
  have l: "length (List.map_filter (hash_row hash) (ks @ ks')) =
      length (List.map_filter (hash_row hash) ks) + length (List.map_filter (hash_row hash) ks')"
    by (simp add: List.map_filter_def)
  have m: "List.map_filter (hash_row hash) (ks @ ks') = List.map_filter (hash_row hash) ks @ List.map_filter (hash_row hash) ks'"
    by (simp add: List.map_filter_def)
  have "i + int (length (List.map_filter (hash_row hash) ks)) < 2 ^ 63" using next_page.prems(3) l by simp
  note e = export_keys_hashes [OF sp sv cf pg(3) next_page.prems(2), of t, unfolded next_page.hyps(1) snd_conv, OF this]
  show ?case
    using pg e next_page.hyps next_page.prems
      next_page.IH [of "i + int (length (List.map_filter (hash_row hash) ks))" "t @ numbered i (List.map_filter (hash_row hash) ks)"]
    by (subst export_scan.simps) (simp add: m numbered_append algebra_simps)
qed

subsection \<open>The store behind the sink\<close>

text \<open>
  \<open>kv\<close> reads the hashes off the state of the server. \<open>unseen s cur\<close> is what an iteration of \<^verbatim>\<open>SCAN\<close> over the keys with the
  prefix still owes at a cursor, \<open>rounds s cur\<close> a bound of its length: a full iteration returns
  every key that is there from its start to its end, and it ends while the store does not grow.
\<close>

type_synonym hashes = "string \<rightharpoonup> (string \<rightharpoonup> string)"

definition hset :: "string \<Rightarrow> string \<Rightarrow> string \<Rightarrow> hashes \<Rightarrow> hashes" where
  "hset k f v m = m(k \<mapsto> (case m k of None \<Rightarrow> [f \<mapsto> v] | Some h \<Rightarrow> h(f \<mapsto> v)))"

definition store_laws :: "(string list \<Rightarrow> 's \<Rightarrow> resp \<times> 's) \<Rightarrow> ('s \<Rightarrow> bool) \<Rightarrow> ('s \<Rightarrow> hashes) \<Rightarrow> RedisSinkConfig \<Rightarrow>
    (string \<times> string) list \<Rightarrow> ('s \<Rightarrow> string \<Rightarrow> string set) \<Rightarrow> ('s \<Rightarrow> string \<Rightarrow> nat) \<Rightarrow> bool" where
  "store_laws reply good kv cfg ps unseen rounds \<longleftrightarrow>
     (\<forall>s p. good s \<and> p \<in> set ps \<longrightarrow>
        (\<exists>n s'. reply [''HSET'', KeyPrefix cfg @ fst p, ValueField cfg, snd p] s = (RInt n, s') \<and> good s' \<and>
           kv s' = hset (KeyPrefix cfg @ fst p) (ValueField cfg) (snd p) (kv s))) \<and>
     (\<forall>s k. good s \<longrightarrow>
        (\<exists>n s'. reply [''DEL'', k] s = (RInt n, s') \<and> good s' \<and> kv s' = (kv s)(k := None) \<and>
           (\<forall>cur. unseen s cur \<subseteq> insert k (unseen s' cur) \<and> rounds s' cur \<le> rounds s cur))) \<and>
     (\<forall>s cur. good s \<longrightarrow>
        (\<exists>cur' ks s'. reply [''SCAN'', cur, ''MATCH'', KeyPrefix cfg @ ''*'', ''COUNT'', ''1000''] s =
          (RArr [RStr cur', RArr (map RStr ks)], s') \<and> good s' \<and> kv s' = kv s \<and> (\<forall>k \<in> set ks. has_prefix k (KeyPrefix cfg)) \<and>
          (cur' = ''0'' \<longrightarrow> unseen s cur \<subseteq> set ks) \<and>
          (cur' \<noteq> ''0'' \<longrightarrow> unseen s cur \<subseteq> set ks \<union> unseen s' cur' \<and> rounds s' cur' < rounds s cur))) \<and>
     (\<forall>s. good s \<longrightarrow> unseen s ''0'' = {k \<in> dom (kv s). has_prefix k (KeyPrefix cfg)})"

lemma store_lawsD:
  assumes "store_laws reply good kv cfg ps unseen rounds" "good s"
  shows "p \<in> set ps \<Longrightarrow> \<exists>n s'. reply [''HSET'', KeyPrefix cfg @ fst p, ValueField cfg, snd p] s = (RInt n, s') \<and> good s' \<and>
      kv s' = hset (KeyPrefix cfg @ fst p) (ValueField cfg) (snd p) (kv s)"
    and "\<exists>n s'. reply [''DEL'', k] s = (RInt n, s') \<and> good s' \<and> kv s' = (kv s)(k := None) \<and>
      (\<forall>cur. unseen s cur \<subseteq> insert k (unseen s' cur) \<and> rounds s' cur \<le> rounds s cur)"
    and "\<exists>cur' ks s'. reply [''SCAN'', cur, ''MATCH'', KeyPrefix cfg @ ''*'', ''COUNT'', ''1000''] s =
        (RArr [RStr cur', RArr (map RStr ks)], s') \<and> good s' \<and> kv s' = kv s \<and> (\<forall>k \<in> set ks. has_prefix k (KeyPrefix cfg)) \<and>
        (cur' = ''0'' \<longrightarrow> unseen s cur \<subseteq> set ks) \<and>
        (cur' \<noteq> ''0'' \<longrightarrow> unseen s cur \<subseteq> set ks \<union> unseen s' cur' \<and> rounds s' cur' < rounds s cur)"
    and "unseen s ''0'' = {k \<in> dom (kv s). has_prefix k (KeyPrefix cfg)}"
  using assms unfolding store_laws_def by simp_all

lemma delete_keys_store:
  assumes sp: "speaks serve reply good" and lw: "store_laws reply good kv cfg ps unseen rounds" and gd: "good s"
    and ks: "\<forall>k \<in> set ks. small k \<and> k \<noteq> []"
  shows "\<exists>s'. delete_keys serve (map RStr ks) (s, []) = Done (s', []) \<and> good s' \<and> kv s' = (kv s) |` (- set ks) \<and>
    (\<forall>cur. unseen s cur \<subseteq> set ks \<union> unseen s' cur \<and> rounds s' cur \<le> rounds s cur)"
  using ks gd
proof (induction ks arbitrary: s)
  case (Cons k ks)
  have rq: "request [''DEL'', k]" using Cons.prems upper_words by (simp add: request_def small_short)
  obtain n s1 where r: "reply [''DEL'', k] s = (RInt n, s1)" "kv s1 = (kv s)(k := None)"
    "\<forall>cur. unseen s cur \<subseteq> insert k (unseen s1 cur) \<and> rounds s1 cur \<le> rounds s cur" "good s1"
    using store_lawsD(2) [OF lw Cons.prems(2), of k] by blast
  obtain s' where s': "delete_keys serve (map RStr ks) (s1, []) = Done (s', [])" "kv s' = (kv s1) |` (- set ks)"
    "\<forall>cur. unseen s1 cur \<subseteq> set ks \<union> unseen s' cur \<and> rounds s' cur \<le> rounds s1 cur" "good s'"
    using Cons.IH [OF _ r(4)] Cons.prems(1) by auto
  have "kv s' = (kv s) |` (- set (k # ks))" unfolding s'(2) r(2) by (auto simp: restrict_map_def)
  moreover have "\<forall>cur. unseen s cur \<subseteq> set (k # ks) \<union> unseen s' cur \<and> rounds s' cur \<le> rounds s cur"
    using r(3) s'(3) by (fastforce intro: order_trans)
  ultimately show ?case using client_do_speaks(1) [OF sp rq Cons.prems(2)] r(1) s'(1,4) Cons.prems by (simp add: Let_def)
qed (simp add: restrict_map_def)

definition drop_prefix :: "string \<Rightarrow> hashes \<Rightarrow> hashes" where
  "drop_prefix p m = m |` {k. \<not> has_prefix k p}"

lemma delete_scan_store:
  assumes sp: "speaks serve reply good" and lw: "store_laws reply good kv cfg ps unseen rounds"
    and prefix: "prefix = KeyPrefix cfg" and p: "small (prefix @ ''*'')" "prefix \<noteq> []" and cur: "small cur"
    and todo: "\<forall>k \<in> dom (kv s). has_prefix k prefix \<longrightarrow> k \<in> unseen s cur" and gd: "good s"
  shows "\<exists>s'. delete_scan serve (prefix @ ''*'') cur (s, []) = Some (Done (Inr (s', []))) \<and> good s' \<and>
    kv s' = drop_prefix prefix (kv s)"
  using cur todo gd
proof (induction "rounds s cur" arbitrary: s cur rule: less_induct)
  case less
  have rq: "request [''SCAN'', cur, ''MATCH'', prefix @ ''*'', ''COUNT'', ''1000'']"
    using request_scan [OF less.prems(1) p(1)] by (simp add: small_short)
  obtain cur' ks s1 where r: "reply [''SCAN'', cur, ''MATCH'', prefix @ ''*'', ''COUNT'', ''1000''] s = (RArr [RStr cur', RArr (map RStr ks)], s1)"
    "kv s1 = kv s" "\<forall>k \<in> set ks. has_prefix k prefix" "cur' = ''0'' \<longrightarrow> unseen s cur \<subseteq> set ks"
    "cur' \<noteq> ''0'' \<longrightarrow> unseen s cur \<subseteq> set ks \<union> unseen s1 cur' \<and> rounds s1 cur' < rounds s cur" "good s1"
    using store_lawsD(3) [OF lw less.prems(3), of cur] unfolding prefix by blast
  note d = client_do_speaks [OF sp rq less.prems(3), unfolded r(1)]
  have pg: "scan_page serve cur (prefix @ ''*'') ''1000'' (s, []) = Done (Inr (cur', map RStr ks), (s1, []))"
    using d(1) by (simp add: scan_page_def as_result_def)
  have sm: "small cur'" "\<forall>k \<in> set ks. small k \<and> k \<noteq> []"
    using d(2) r(3) p(2) by (auto simp: small_def has_prefix_iff)
  obtain s2 where s2: "delete_keys serve (map RStr ks) (s1, []) = Done (s2, [])" "kv s2 = (kv s1) |` (- set ks)"
    "\<forall>c. unseen s1 c \<subseteq> set ks \<union> unseen s2 c \<and> rounds s2 c \<le> rounds s1 c" "good s2"
    using delete_keys_store [OF sp lw r(6) sm(2)] by blast
  have dr: "drop_prefix prefix (kv s2) = drop_prefix prefix (kv s)"
    using r(3) by (auto simp: drop_prefix_def s2(2) r(2) restrict_map_def)
  show ?case
  proof (cases "cur' = ''0''")
    case True
    have "kv s k = None" if "k \<notin> set ks" "has_prefix k prefix" for k using less.prems(2) r(4) True that by blast
    then have "kv s2 = drop_prefix prefix (kv s)"
      using r(3) unfolding drop_prefix_def s2(2) r(2) by (intro ext) (auto simp: restrict_map_def)
    then show ?thesis using pg s2(1,4) True by (subst delete_scan.simps) simp
  next
    case False
    have "rounds s2 cur' < rounds s cur" using s2(3) r(5) False by (meson order_le_less_trans)
    moreover have "\<forall>k \<in> dom (kv s2). has_prefix k prefix \<longrightarrow> k \<in> unseen s2 cur'"
    proof (intro ballI impI)
      fix k assume "k \<in> dom (kv s2)" "has_prefix k prefix"
      then have "k \<notin> set ks" "k \<in> unseen s cur" using less.prems(2) by (auto simp: s2(2) r(2) restrict_map_def split: if_splits)
      then show "k \<in> unseen s2 cur'" using r(5) False s2(3) by blast
    qed
    ultimately show ?thesis using less.hyps [of s2 cur'] sm(1) pg s2(1,4) False dr by (subst delete_scan.simps) simp
  qed
qed

definition put_all :: "RedisSinkConfig \<Rightarrow> (string \<times> string) list \<Rightarrow> hashes \<Rightarrow> hashes" where
  "put_all cfg ps m = foldl (\<lambda>m p. hset (KeyPrefix cfg @ fst p) (ValueField cfg) (snd p) m) m ps"

lemma put_pairs_store:
  assumes sp: "speaks serve reply good" and lw: "store_laws reply good kv cfg all unseen rounds"
    and ps: "\<forall>p \<in> set ps. small (KeyPrefix cfg @ fst p) \<and> small (snd p)" "set ps \<subseteq> set all" and vf: "small (ValueField cfg)"
    and gd: "good s"
  shows "\<exists>s'. put_pairs serve cfg ps (s, []) = Done (Inr (s', [])) \<and> good s' \<and> kv s' = put_all cfg ps (kv s)"
  using ps gd
proof (induction ps arbitrary: s)
  case (Cons p ps)
  obtain k v where p: "p = (k, v)" by (cases p)
  have rq: "request [''HSET'', KeyPrefix cfg @ k, ValueField cfg, v]"
    using Cons.prems vf p upper_words by (simp add: request_def small_short)
  obtain n s1 where r: "reply [''HSET'', KeyPrefix cfg @ k, ValueField cfg, v] s = (RInt n, s1)"
    "kv s1 = hset (KeyPrefix cfg @ k) (ValueField cfg) v (kv s)" "good s1"
    using store_lawsD(1) [OF lw Cons.prems(3), of p] Cons.prems(2) by (auto simp: p)
  have c: "client_do serve ''HSET'' [KeyPrefix cfg @ k, ValueField cfg, v] (s, []) = Done (Inr (RInt n), (s1, []))"
    using client_do_speaks(1) [OF sp rq Cons.prems(3)] r(1) by (simp add: as_result_def)
  have "\<exists>s'. put_pairs serve cfg ps (s1, []) = Done (Inr (s', [])) \<and> good s' \<and> kv s' = put_all cfg ps (kv s1)"
    using Cons r(3) by simp
  then show ?case using c r(2) by (auto simp: p put_all_def)
qed (simp add: put_all_def)

definition file_pairs :: "fs \<Rightarrow> path list \<Rightarrow> (string \<times> string) list" where
  "file_pairs d files = concat (map (\<lambda>f. file_fields (the (d f))) files)"

lemma put_files_store:
  assumes sp: "speaks serve reply good" and lw: "store_laws reply good kv cfg all unseen rounds" and gd: "good s"
    and files: "\<forall>f \<in> set files. \<exists>s. d f = Some s \<and> \<not> snd (scan_lines s)"
    and ps: "\<forall>p \<in> set (file_pairs d files). small (KeyPrefix cfg @ fst p) \<and> small (snd p)" "set (file_pairs d files) \<subseteq> set all"
    and vf: "small (ValueField cfg)"
  shows "\<exists>s'. put_files serve cfg d files (s, []) = Done (Inr (s', [])) \<and> kv s' = put_all cfg (file_pairs d files) (kv s)"
  using files ps gd
proof (induction files arbitrary: s)
  case Nil
  then show ?case by (simp add: file_pairs_def put_all_def)
next
  case (Cons f files)
  obtain t where t: "d f = Some t" "\<not> snd (scan_lines t)" using Cons.prems(1) by auto
  have fp: "file_pairs d (f # files) = file_fields t @ file_pairs d files" using t by (simp add: file_pairs_def)
  have "\<forall>p \<in> set (file_fields t). small (KeyPrefix cfg @ fst p) \<and> small (snd p)" using Cons.prems(2) fp by simp
  moreover have "set (file_fields t) \<subseteq> set all" using Cons.prems(3) fp by simp
  ultimately obtain s1 where s1: "put_pairs serve cfg (file_fields t) (s, []) = Done (Inr (s1, []))"
    "kv s1 = put_all cfg (file_fields t) (kv s)" "good s1"
    using put_pairs_store [OF sp lw _ _ vf Cons.prems(4)] by blast
  have "\<exists>s'. put_files serve cfg d files (s1, []) = Done (Inr (s', [])) \<and> kv s' = put_all cfg (file_pairs d files) (kv s1)"
    using Cons fp s1(3) by simp
  then show ?case using t s1 by (auto simp: fp put_all_def)
qed

lemma redis_import_result:
  assumes sp: "speaks serve reply good"
    and lw: "store_laws reply good kv (redis_sink_WithDefaults cfg) (file_pairs d files) unseen rounds" and gd: "good s"
    and op: "openRedis serve dial connCfg = Done (Inr (s, []))"
    and gl: "glb (RedisInputGlob (redis_sink_WithDefaults cfg)) d = Inr files" "files \<noteq> []"
    and files: "\<forall>f \<in> set files. \<exists>t. d f = Some t \<and> \<not> snd (scan_lines t)"
    and ps: "\<forall>p \<in> set (file_pairs d files). small (KeyPrefix (redis_sink_WithDefaults cfg) @ fst p) \<and> small (snd p)"
    and cf: "small (KeyPrefix (redis_sink_WithDefaults cfg) @ ''*'')" "small (ValueField (redis_sink_WithDefaults cfg))"
  shows "\<exists>s'. redis_ImportReduceOutputs serve dial glb connCfg cfg d = Some (Done (Inr (s', []))) \<and>
    kv s' = put_all (redis_sink_WithDefaults cfg) (file_pairs d files)
      (if RedisReplace cfg then drop_prefix (KeyPrefix (redis_sink_WithDefaults cfg)) (kv s) else kv s)"
proof -
  let ?c = "redis_sink_WithDefaults cfg"
  have rp: "RedisReplace ?c = RedisReplace cfg" and pn: "KeyPrefix ?c \<noteq> []"
    by (simp_all add: redis_sink_WithDefaults_def or_default_def)
  have un: "\<forall>k \<in> dom (kv s). has_prefix k (KeyPrefix ?c) \<longrightarrow> k \<in> unseen s ''0''"
    using store_lawsD(4) [OF lw gd] by auto
  obtain s1 where s1: "(if RedisReplace ?c then delete_scan serve (KeyPrefix ?c @ ''*'') ''0'' (s, []) else Some (Done (Inr (s, [])))) =
      Some (Done (Inr (s1, [])))"
    "kv s1 = (if RedisReplace cfg then drop_prefix (KeyPrefix ?c) (kv s) else kv s)" "good s1"
    using delete_scan_store [OF sp lw refl cf(1) pn small_short un gd] gd by (cases "RedisReplace cfg") (auto simp: rp)
  obtain s' where "put_files serve ?c d files (s1, []) = Done (Inr (s', []))" "kv s' = put_all ?c (file_pairs d files) (kv s1)"
    using put_files_store [OF sp lw s1(3) files ps subset_refl cf(2)] by blast
  then show ?thesis using s1 op gl by (simp add: redis_ImportReduceOutputs_def Let_def)
qed

text \<open>What a sequence of settings leaves: the last value of a key.\<close>

lemma put_all_lookup:
  "put_all cfg ps m k =
     (case map_of (rev (map (\<lambda>p. (KeyPrefix cfg @ fst p, snd p)) ps)) k of
        None \<Rightarrow> m k
      | Some v \<Rightarrow> Some ((case m k of None \<Rightarrow> Map.empty | Some h \<Rightarrow> h)(ValueField cfg \<mapsto> v)))"
proof (induction ps rule: rev_induct)
  case (snoc p ps)
  have "put_all cfg (ps @ [p]) m = hset (KeyPrefix cfg @ fst p) (ValueField cfg) (snd p) (put_all cfg ps m)"
    by (simp add: put_all_def)
  then show ?case using snoc by (auto simp: hset_def intro!: ext split: option.splits)
qed (simp add: put_all_def)

lemma openRedis_plain:
  assumes sp: "speaks serve reply good" and gd: "good s" and dl: "dial (redis_addr (conn_WithDefaults cc)) = Inr s"
    and cc: "Password cc = []" "DB cc \<le> 0" and rp: "reply [''PING''] s = (RStr t, s')"
  shows "openRedis serve dial cc = Done (Inr (s', []))"
proof -
  have "map ascii_upper ''PING'' = ''PING''" by code_simp
  then have "request [''PING'']" by (simp add: request_def small_short)
  from client_do_speaks(1) [OF sp this gd] show ?thesis
    using dl cc rp by (simp add: openRedis_def Let_def do_check_def conn_WithDefaults_def as_result_def)
qed

lemma export_source_result:
  assumes sp: "speaks serve reply (\<lambda>x. x = s)" and sv: "serves_hashes reply (redis_source_WithDefaults cfg) s pg hash"
    and cf: "source_small (redis_source_WithDefaults cfg)" and pages: "pages_from pg ''0'' ks"
    and op: "openRedis serve dial connCfg = Done (Inr (s, []))"
    and host: "rh_mkdir h (RedisOutputDir (redis_source_WithDefaults cfg))" "rh_create h (redis_out_file (redis_source_WithDefaults cfg))"
      "rh_glob h (path_join [RedisOutputDir (redis_source_WithDefaults cfg), RedisFilePrefix (redis_source_WithDefaults cfg) @ ''-*.txt'']) d = Inr olds"
    and n: "int (length (List.map_filter (hash_row hash) ks)) < 2 ^ 63 - 1"
  shows "ExportSource serve dial h connCfg cfg d =
    Some (Done (Inr (if List.map_filter (hash_row hash) ks = [] then [] else [redis_out_file (redis_source_WithDefaults cfg)]),
      (\<lambda>p. if p \<in> set olds \<and> rh_remove h p then None else d p)
        (redis_out_file (redis_source_WithDefaults cfg) \<mapsto> numbered 1 (List.map_filter (hash_row hash) ks))))"
  using export_scan_hashes [OF sp sv cf pages, of 1 "[]"] n op host by (simp add: ExportSource_def Let_def small_short)

lemma export_keys_done:
  assumes sp: "speaks serve reply (\<lambda>x. x = s)" and sv: "serves_hashes reply cfg s pg hash" and cf: "source_small cfg"
    and ks: "\<forall>k \<in> set ks. small k"
  shows "\<exists>acc'. export_keys serve cfg (map RStr ks) acc (s, []) = Done (acc', (s, []))"
  using ks by (induction ks arbitrary: acc) (simp_all add: export_key_hashes [OF sp sv cf])

text \<open>If the server never hands out the cursor 0, the loop over the pages does not return.\<close>

lemma export_scan_diverges:
  assumes sp: "speaks serve reply (\<lambda>x. x = s)" and sv: "serves_hashes reply cfg s pg hash" and cf: "source_small cfg"
    and no0: "\<forall>cur. fst (pg cur) \<noteq> ''0''" and run: "export_scan serve cfg cur acc c = Some r" and c: "c = (s, [])" "small cur"
  shows False
proof -
  have "serve = serve \<and> cfg = cfg \<and> c = (s, []) \<and> small cur \<longrightarrow> False"
  proof (rule export_scan.raw_induct [where P = "\<lambda>serve' cfg' cur acc c r. serve' = serve \<and> cfg' = cfg \<and> c = (s, []) \<and> small cur \<longrightarrow> False", OF _ run],
      intro impI)
    fix ex serve' cfg' cur acc c r
    assume IH: "\<And>serve' cfg' cur acc c r. ex serve' cfg' cur acc c = Some r \<Longrightarrow>
        serve' = serve \<and> cfg' = cfg \<and> c = (s, []) \<and> small cur \<longrightarrow> False"
      and eq: "(case scan_page serve' cur (KeyPattern cfg') (itoa (ScanCount cfg')) c of
          Done (Inl e, c') \<Rightarrow> Some (Done (Some e, acc))
        | Done (Inr (cursor', ks), c') \<Rightarrow>
            (case export_keys serve' cfg' ks acc c' of
               Done (acc', c'') \<Rightarrow> if cursor' = ''0'' then Some (Done (None, acc')) else ex serve' cfg' cursor' acc' c''
             | Panics p \<Rightarrow> Some (Panics p) | Blocks \<Rightarrow> Some Blocks)
        | Panics p \<Rightarrow> Some (Panics p) | Blocks \<Rightarrow> Some Blocks) = Some r"
      and at: "serve' = serve \<and> cfg' = cfg \<and> c = (s, []) \<and> small cur"
    then have cur: "small cur" by simp
    note pg = scan_page_hashes [OF sp sv cf cur]
    obtain acc' where "export_keys serve cfg (map RStr (snd (pg cur))) acc (s, []) = Done (acc', (s, []))"
      using export_keys_done [OF sp sv cf pg(3)] by blast
    then have "ex serve cfg (fst (pg cur)) acc' (s, []) = Some r" using eq at pg(1) no0 by simp
    then show False using IH pg(2) by blast
  qed
  then show False using c by blast
qed

section \<open>Properties\<close>


definition page_reply :: "(string \<Rightarrow> string \<times> string list) \<Rightarrow> (string \<Rightarrow> string option \<times> string option) \<Rightarrow> string list \<Rightarrow> unit \<Rightarrow> resp \<times> unit" where
  "page_reply pg hash ps s =
     (case ps of
        [_, cur, _, _, _, _] \<Rightarrow> RArr [RStr (fst (pg cur)), RArr (map RStr (snd (pg cur)))]
      | [_, k, _, _] \<Rightarrow> RArr [text_opt (fst (hash k)), text_opt (snd (hash k))]
      | _ \<Rightarrow> RStr ''PONG'', s)"

definition sample_pg :: "string \<Rightarrow> string \<times> string list" where
  "sample_pg cur = (if cur = ''0'' then (''7'', [''event:1'', ''event:2'']) else (''0'', [''event:3'']))"

definition sample_hash :: "string \<Rightarrow> string option \<times> string option" where
  "sample_hash k = (if k = ''event:1'' then (Some ''a'', Some ''5'') else if k = ''event:2'' then (Some ''b'', None) else (None, Some ''6''))"

definition sample_conn :: ConnConfig where
  "sample_conn = \<lparr>Host = [], Port = 0, Password = [], DB = 0\<rparr>"

definition sample_source :: RedisSourceConfig where
  "sample_source = \<lparr>KeyPattern = [], KeyField = [], ValField = [], ScanCount = 0, RedisOutputDir = [], RedisFilePrefix = []\<rparr>"

definition sample_rhost :: redis_host where
  "sample_rhost = \<lparr>rh_mkdir = (\<lambda>p. True), rh_glob = (\<lambda>p d. Inr []), rh_create = (\<lambda>p. True), rh_remove = (\<lambda>p. True)\<rparr>"

lemma page_reply_serves:
  assumes "\<And>cur. small (fst (pg cur)) \<and> length (snd (pg cur)) \<le> 1000 \<and> (\<forall>k \<in> set (snd (pg cur)). small k)"
  shows "speaks (decoding (page_reply pg sample_hash)) (page_reply pg sample_hash) (\<lambda>x. x = ())"
    and "serves_hashes (page_reply pg sample_hash) cfg () pg sample_hash"
    and "openRedis (decoding (page_reply pg sample_hash)) (\<lambda>a. Inr ()) sample_conn = Done (Inr ((), []))"
    and "source_small (redis_source_WithDefaults sample_source)"
proof -
  have h: "resp_ok (text_opt (fst (sample_hash k)))" "resp_ok (text_opt (snd (sample_hash k)))" for k
    by (simp_all add: sample_hash_def text_opt_def max_alloc_def)
  have p: "resp_ok (RStr (fst (pg cur)))" "resp_ok (RArr (map RStr (snd (pg cur))))" for cur
    using assms [of cur] by (auto simp: small_def max_alloc_def)
  have "resp_ok (fst (page_reply pg sample_hash ps s))" for ps s
    using h p by (auto simp: page_reply_def max_alloc_def split: list.splits)
  then show sp: "speaks (decoding (page_reply pg sample_hash)) (page_reply pg sample_hash) (\<lambda>x. x = ())"
    by (intro decoding_speaks)
  show "serves_hashes (page_reply pg sample_hash) cfg () pg sample_hash" by (simp add: serves_hashes_def page_reply_def)
  show "openRedis (decoding (page_reply pg sample_hash)) (\<lambda>a. Inr ()) sample_conn = Done (Inr ((), []))"
    by (rule openRedis_plain [OF sp refl]) (simp_all add: sample_conn_def page_reply_def)
  show "source_small (redis_source_WithDefaults sample_source)"
    by (simp add: source_small_def redis_source_WithDefaults_def sample_source_def or_default_def small_short int64_def)
qed


text \<open>
  The export need not return: if the server never hands out the cursor 0, the loop over the pages runs
  forever, whatever the pages hold; there is no bound on the number of pages.
\<close>

theorem redis_export_never:
  assumes "speaks serve reply (\<lambda>x. x = s)" "serves_hashes reply (redis_source_WithDefaults cfg) s pg hash"
    and "source_small (redis_source_WithDefaults cfg)" "\<forall>cur. fst (pg cur) \<noteq> ''0''"
    and "openRedis serve dial connCfg = Done (Inr (s, []))"
    and "rh_mkdir h (RedisOutputDir (redis_source_WithDefaults cfg))" "rh_create h (redis_out_file (redis_source_WithDefaults cfg))"
      "rh_glob h (path_join [RedisOutputDir (redis_source_WithDefaults cfg), RedisFilePrefix (redis_source_WithDefaults cfg) @ ''-*.txt'']) d = Inr olds"
  shows "ExportSource serve dial h connCfg cfg d = None"
proof -
  have "export_scan serve (redis_source_WithDefaults cfg) ''0'' ([], 1) (s, []) = None"
    using export_scan_diverges [OF assms(1-4) _ refl, of "''0''"] small_short [of "''0''"] by (metis not_Some_eq size_Cons_le)
  then show ?thesis using assms(5-) by (simp add: ExportSource_def Let_def)
qed

theorem redis_export_never_witness:
  "ExportSource (decoding (page_reply (\<lambda>cur. (''1'', [])) sample_hash)) (\<lambda>a. Inr ()) sample_rhost sample_conn sample_source Map.empty = None"
proof -
  have sm: "small (fst ((\<lambda>cur. (''1'', []) :: string \<times> string list) cur)) \<and> length (snd ((\<lambda>cur. (''1'', []) :: string \<times> string list) cur)) \<le> 1000 \<and>
      (\<forall>k \<in> set (snd ((\<lambda>cur. (''1'', []) :: string \<times> string list) cur)). small k)" for cur :: string
    by (simp add: small_short)
  note sv = page_reply_serves [OF sm]
  show ?thesis by (rule redis_export_never [OF sv(1,2,4) _ sv(3)]) (simp_all add: sample_rhost_def)
qed


text \<open>A store for the witness, with three possible keys and one page.\<close>

definition three_keys :: "string list" where
  "three_keys = [''mr:result:a'', ''mr:result:b'', ''mr:result:old'']"

definition hash_reply :: "string list \<Rightarrow> hashes \<Rightarrow> resp \<times> hashes" where
  "hash_reply ps s =
     (case ps of
        [_, k, f, v] \<Rightarrow> (RInt 1, hset k f v s)
      | [_, k] \<Rightarrow> (RInt 1, s(k := None))
      | [_, cur, _, pat, _, _] \<Rightarrow>
          (RArr [RStr ''0'', RArr (map RStr (filter (\<lambda>k. s k \<noteq> None \<and> has_prefix k (butlast pat)) three_keys))], s)
      | _ \<Rightarrow> (RStr ''PONG'', s))"

definition sample_rsink :: RedisSinkConfig where
  "sample_rsink = \<lparr>KeyPrefix = [], ValueField = [], RedisInputGlob = [], RedisReplace = True\<rparr>"

lemma sample_rsink_defaults:
  "KeyPrefix (redis_sink_WithDefaults sample_rsink) = ''mr:result:''" "ValueField (redis_sink_WithDefaults sample_rsink) = ''metric_sum''"
  by (simp_all add: sample_rsink_def redis_sink_WithDefaults_def or_default_def)

lemma hash_reply_laws:
  "store_laws hash_reply (\<lambda>s. dom s \<subseteq> set three_keys) (\<lambda>s. s) (redis_sink_WithDefaults sample_rsink)
     [(''a'', v), (''b'', w)] (\<lambda>s cur. {k \<in> dom s. has_prefix k ''mr:result:''}) (\<lambda>s cur. 0)"
proof -
  have bl: "butlast (''mr:result:'' @ ''*'') = ''mr:result:''" by simp
  show ?thesis
    unfolding store_laws_def sample_rsink_defaults
  proof (intro conjI allI impI)
    fix s :: hashes and p
    assume "dom s \<subseteq> set three_keys \<and> p \<in> set [(''a'', v), (''b'', w)]"
    then show "\<exists>n s'. hash_reply [''HSET'', ''mr:result:'' @ fst p, ''metric_sum'', snd p] s = (RInt n, s') \<and>
        dom s' \<subseteq> set three_keys \<and> s' = hset (''mr:result:'' @ fst p) ''metric_sum'' (snd p) s"
      by (auto simp: hash_reply_def hset_def three_keys_def)
  next
    fix s :: hashes and cur
    assume s: "dom s \<subseteq> set three_keys"
    show "\<exists>cur' ks s'. hash_reply [''SCAN'', cur, ''MATCH'', ''mr:result:'' @ ''*'', ''COUNT'', ''1000''] s =
        (RArr [RStr cur', RArr (map RStr ks)], s') \<and> dom s' \<subseteq> set three_keys \<and> s' = s \<and> (\<forall>k \<in> set ks. has_prefix k ''mr:result:'') \<and>
        (cur' = ''0'' \<longrightarrow> {k \<in> dom s. has_prefix k ''mr:result:''} \<subseteq> set ks) \<and>
        (cur' \<noteq> ''0'' \<longrightarrow> {k \<in> dom s. has_prefix k ''mr:result:''} \<subseteq> set ks \<union> {k \<in> dom s'. has_prefix k ''mr:result:''} \<and> 0 < (0 :: nat))"
      using s by (intro exI [of _ "''0''"] exI [of _ "filter (\<lambda>k. s k \<noteq> None \<and> has_prefix k ''mr:result:'') three_keys"] exI [of _ s])
        (auto simp: hash_reply_def bl simp del: append.simps butlast.simps)
  qed (auto simp: hash_reply_def)
qed

lemma hash_reply_speaks: "speaks (decoding hash_reply) hash_reply (\<lambda>s. dom s \<subseteq> set three_keys)"
proof (rule decoding_speaks)
  fix ps and s :: hashes
  have "length (filter P three_keys) \<le> 17592186044416" for P
    using length_filter_le [of P three_keys] by (simp add: three_keys_def)
  moreover have "\<forall>k \<in> set three_keys. resp_ok (RStr k)" by (simp add: three_keys_def max_alloc_def)
  ultimately show "resp_ok (fst (hash_reply ps s))"
    by (auto simp: hash_reply_def max_alloc_def int64_def split: list.splits)
qed

definition sample_outs :: fs where
  "sample_outs = [''o'' \<mapsto> concat (map out_line [newKV ''a'' (itoa 5), newKV ''b'' (itoa 7)])]"

lemma sample_outs_pairs:
  "file_pairs sample_outs [''o''] = [(''a'', itoa 5), (''b'', itoa 7)]"
  "\<forall>f \<in> set [''o'']. \<exists>t. sample_outs f = Some t \<and> \<not> snd (scan_lines t)"
proof -
  have "is_word ''a''" "is_word ''b''" by code_simp+
  then have "\<forall>kv \<in> set [newKV ''a'' (itoa 5), newKV ''b'' (itoa 7)]. printed_ok kv"
    by (simp add: printed_ok_number int64_def)
  note pf = printed_fields [OF this]
  show "file_pairs sample_outs [''o''] = [(''a'', itoa 5), (''b'', itoa 7)]" using pf(1) by (simp add: file_pairs_def sample_outs_def)
  show "\<forall>f \<in> set [''o'']. \<exists>t. sample_outs f = Some t \<and> \<not> snd (scan_lines t)" using pf(2) by (simp add: sample_outs_def)
qed

definition old_store :: hashes where
  "old_store = [''mr:result:old'' \<mapsto> Map.empty]"


end
