(* ===== verification/Apps.thy ===== *)
theory Apps
  imports Worker_Node "HOL-Library.AList"
begin

text \<open>
  The map and reduce functions that come with the program (\<^verbatim>\<open>mrapps/*.go\<close>). What the reduce phase
  needs of a reduce function, one pair per call and no dependence on the order of the values,
  is a locale; each of the functions is an instance. Environment variables are a function from
  names to values, the empty string where a variable is not set.
\<close>

type_synonym env = "string \<Rightarrow> string"

subsection \<open>The map functions on rows\<close>

text \<open>\<^verbatim>\<open>id\tbiz_key\tmetric\<close>: empty lines and lines with fewer than three columns are skipped.\<close>

fun tsv_rows :: "string list \<Rightarrow> (string \<times> string) list" where
  "tsv_rows [] = []"
| "tsv_rows (line # lines) =
     (if line = [] then tsv_rows lines
      else (case split_on TAB line of
              _ # k # v # _ \<Rightarrow> (k, v) # tsv_rows lines
            | _ \<Rightarrow> tsv_rows lines))"

definition content_lines :: "string \<Rightarrow> string list" where
  "content_lines contents = split_on NL (trim_space contents)"

definition agg_Map :: "string \<Rightarrow> string \<Rightarrow> KV list" where
  "agg_Map filename contents = map (\<lambda>(k, v). newKV k v) (tsv_rows (content_lines contents))"

definition minmax_Map :: "string \<Rightarrow> string \<Rightarrow> KV list" where
  "minmax_Map filename contents = map (\<lambda>(k, v). newKV k v) (tsv_rows (content_lines contents))"

definition topn_Map :: "string \<Rightarrow> string \<Rightarrow> KV list" where
  "topn_Map filename contents = map (\<lambda>(k, v). newKV k v) (tsv_rows (content_lines contents))"

text \<open>
  The map function of \<^verbatim>\<open>count.go\<close> counts in a Go map first. The order of a \<^verbatim>\<open>range\<close> over a Go map is
  not specified: \<open>ord\<close> is the order it takes.
\<close>

fun count_local :: "(string \<times> string) list \<Rightarrow> (string \<times> int) list \<Rightarrow> (string \<times> int) list" where
  "count_local [] m = m"
| "count_local ((k, v) # rows) m =
     count_local rows (AList.update k (wrap64 ((case map_of m k of None \<Rightarrow> 0 | Some c \<Rightarrow> c) + 1)) m)"

definition count_Map ::
  "((string \<times> int) list \<Rightarrow> (string \<times> int) list) \<Rightarrow> string \<Rightarrow> string \<Rightarrow> KV list" where
  "count_Map ord filename contents =
     map (\<lambda>(k, v). newKV k (itoa v)) (ord (count_local (tsv_rows (content_lines contents)) []))"

subsection \<open>The other map functions\<close>

text \<open>\<^verbatim>\<open>merge.go\<close>: two words per line; \<^verbatim>\<open>words[1]\<close> panics when there is no space.\<close>

fun merge_lines :: "string list \<Rightarrow> KV list outcome" where
  "merge_lines [] = Done []"
| "merge_lines (line # lines) =
     (let words = split_on SP line
      in bind_outcome (index words 0) (\<lambda>w0. bind_outcome (index words 1) (\<lambda>w1.
         bind_outcome (merge_lines lines) (\<lambda>rest. Done (newKV w0 w1 # rest)))))"

definition merge_Map :: "string \<Rightarrow> string \<Rightarrow> KV list outcome" where
  "merge_Map filename contents = merge_lines (split_on NL (trim_right_byte NL contents))"

text \<open>
  \<^verbatim>\<open>crash.go\<close>: for one file name the process exits with probability one in four; \<open>rr\<close> is the random
  number, and the exit is the end of the process.
\<close>

definition maybeCrash :: "int \<Rightarrow> unit outcome" where
  "maybeCrash rr = (if rr < 250 then Panics (PanicErr ''exit'') else Done ())"

definition crash_Map :: "int \<Rightarrow> string \<Rightarrow> string \<Rightarrow> KV list outcome" where
  "crash_Map rr filename contents =
     bind_outcome (if filename = ''/home/bwbwchen/work/mapreduce/txt/bw.txt'' then maybeCrash rr else Done ())
       (\<lambda>_. Done [newKV ''a'' filename, newKV ''b'' (itoa (int (length filename))),
                  newKV ''c'' (itoa (int (length contents))), newKV ''d'' ''xyzzy''])"

text \<open>
  \<^verbatim>\<open>wc.go\<close>: the maximal runs of letters. A rune is a valid UTF-8 sequence or, where there is none,
  one byte, which is no letter. Beyond ASCII the letters are those of the tables of the
  \<^verbatim>\<open>unicode\<close> package, the parameter \<open>uni\<close>.
\<close>

definition cont_byte :: "nat \<Rightarrow> bool" where
  "cont_byte b \<longleftrightarrow> 128 \<le> b \<and> b \<le> 191"

definition rune_width :: "string \<Rightarrow> nat" where
  "rune_width s =
     (case map of_char s of
        b0 # b1 # b2 # b3 # _ \<Rightarrow>
          (if 194 \<le> b0 \<and> b0 \<le> 223 \<and> cont_byte b1 then 2
           else if 224 \<le> b0 \<and> b0 \<le> 239 \<and> cont_byte b1 \<and> cont_byte b2 \<and>
                   (b0 = 224 \<longrightarrow> 160 \<le> b1) \<and> (b0 = 237 \<longrightarrow> b1 \<le> 159) then 3
           else if 240 \<le> b0 \<and> b0 \<le> 244 \<and> cont_byte b1 \<and> cont_byte b2 \<and> cont_byte b3 \<and>
                   (b0 = 240 \<longrightarrow> 144 \<le> b1) \<and> (b0 = 244 \<longrightarrow> b1 \<le> 143) then 4
           else 1)
      | [b0, b1, b2] \<Rightarrow>
          (if 194 \<le> b0 \<and> b0 \<le> 223 \<and> cont_byte b1 then 2
           else if 224 \<le> b0 \<and> b0 \<le> 239 \<and> cont_byte b1 \<and> cont_byte b2 \<and>
                   (b0 = 224 \<longrightarrow> 160 \<le> b1) \<and> (b0 = 237 \<longrightarrow> b1 \<le> 159) then 3
           else 1)
      | [b0, b1] \<Rightarrow> (if 194 \<le> b0 \<and> b0 \<le> 223 \<and> cont_byte b1 then 2 else 1)
      | _ \<Rightarrow> (1 :: nat))"

definition is_letter :: "(string \<Rightarrow> bool) \<Rightarrow> string \<Rightarrow> bool" where
  "is_letter uni r =
     (if length r = 1
      then (let b = (of_char (hd r) :: nat) in 65 \<le> b \<and> b \<le> 90 \<or> 97 \<le> b \<and> b \<le> 122)
      else uni r)"

lemma rune_width_pos: "0 < rune_width s"
  by (auto simp: rune_width_def split: list.splits)

function runes :: "string \<Rightarrow> string list" where
  "runes s = (if s = [] then [] else take (rune_width s) s # runes (drop (rune_width s) s))"
  by pat_completeness auto
termination
  by (relation "measure length") (auto simp: rune_width_pos)

declare runes.simps [simp del]

text \<open>\<^verbatim>\<open>strings.FieldsFunc\<close> on the runes: \<open>w\<close> is the word under construction.\<close>

fun letter_fields :: "(string \<Rightarrow> bool) \<Rightarrow> string list \<Rightarrow> string \<Rightarrow> string list" where
  "letter_fields lt [] w = (if w = [] then [] else [w])"
| "letter_fields lt (r # rs) w =
     (if lt r then letter_fields lt rs (w @ r)
      else if w = [] then letter_fields lt rs [] else w # letter_fields lt rs [])"

definition wc_Map :: "(string \<Rightarrow> bool) \<Rightarrow> string \<Rightarrow> string \<Rightarrow> KV list" where
  "wc_Map uni filename contents =
     map (\<lambda>w. newKV w ''1'') (letter_fields (is_letter uni) (runes contents) [])"

subsection \<open>The reduce functions\<close>

text \<open>The numbers among the values: those that \<^verbatim>\<open>strconv.Atoi\<close> reads without an error.\<close>

definition num_of :: "string \<Rightarrow> int option" where
  "num_of s = (case atoi (trim_space s) of (n, None) \<Rightarrow> Some n | _ \<Rightarrow> None)"

fun agg_sum :: "string list \<Rightarrow> int \<Rightarrow> int" where
  "agg_sum [] tot = tot"
| "agg_sum (s # ss) tot =
     (case num_of s of None \<Rightarrow> agg_sum ss tot | Some n \<Rightarrow> agg_sum ss (wrap64 (tot + n)))"

definition agg_Reduce :: reducef where
  "agg_Reduce key vs = [newKV key (itoa (agg_sum vs 0))]"

fun count_sum :: "string list \<Rightarrow> int \<Rightarrow> int" where
  "count_sum [] tot = tot"
| "count_sum (v # vs) tot =
     (case num_of v of None \<Rightarrow> count_sum vs (wrap64 (tot + 1)) | Some n \<Rightarrow> count_sum vs (wrap64 (tot + n)))"

definition count_Reduce :: reducef where
  "count_Reduce key vs = [newKV key (itoa (count_sum vs 0))]"

text \<open>The loop of \<^verbatim>\<open>minmax.go\<close>: \<^verbatim>\<open>inited\<close>, \<^verbatim>\<open>minV\<close> and \<^verbatim>\<open>maxV\<close> together.\<close>

fun minmax_loop :: "string list \<Rightarrow> (int \<times> int) option \<Rightarrow> (int \<times> int) option" where
  "minmax_loop [] st = st"
| "minmax_loop (s # ss) st =
     (case num_of s of
        None \<Rightarrow> minmax_loop ss st
      | Some v \<Rightarrow>
          (case st of
             None \<Rightarrow> minmax_loop ss (Some (v, v))
           | Some (minV, maxV) \<Rightarrow>
               minmax_loop ss (Some (if v < minV then v else minV, if v > maxV then v else maxV))))"

definition minmax_Reduce :: "env \<Rightarrow> reducef" where
  "minmax_Reduce e key vs =
     (if vs = [] then [newKV key ''0'']
      else (let m = to_lower (trim_space (e ''MYSQL_MINMAX_MODE''));
                mode = (if m = [] then ''max'' else m)
            in case minmax_loop vs None of
                 None \<Rightarrow> [newKV key ''0'']
               | Some (minV, maxV) \<Rightarrow>
                   [newKV key (itoa (if mode = ''min'' then minV
                                     else if mode = ''range'' then wrap64 (maxV - minV)
                                     else maxV))]))"

definition topn_N :: "env \<Rightarrow> int" where
  "topn_N e =
     (let s = trim_space (e ''MYSQL_TOPN_N'')
      in if s \<noteq> [] then (case atoi s of (v, None) \<Rightarrow> if 0 < v then v else 3 | _ \<Rightarrow> 3) else 3)"

text \<open>Sorting integers in descending order has one result, however it is done.\<close>

definition topn_Reduce :: "env \<Rightarrow> reducef" where
  "topn_Reduce e key vs =
     (let nums = List.map_filter num_of vs
      in if nums = [] then [newKV key ''0'']
         else (let desc = rev (sort nums); idx = topn_N e - 1;
                   idx' = (if int (length desc) \<le> idx then int (length desc) - 1 else idx)
               in [newKV key (itoa (desc ! nat idx'))]))"

fun merge_sum :: "string list \<Rightarrow> int \<Rightarrow> int" where
  "merge_sum [] tot = tot"
| "merge_sum (s # ss) tot = merge_sum ss (wrap64 (tot + fst (atoi s)))"

definition merge_Reduce :: reducef where
  "merge_Reduce key vs = [newKV key (itoa (merge_sum vs 0))]"

definition crash_Reduce :: reducef where
  "crash_Reduce key vs = [newKV key (join [SP] (sort vs))]"

definition wc_Reduce :: reducef where
  "wc_Reduce key vs = [newKV key (itoa (int (length vs)))]"

subsection \<open>What the reduce functions compute\<close>

abbreviation nums_of :: "string list \<Rightarrow> int list" where
  "nums_of vs \<equiv> List.map_filter num_of vs"

lemma map_filter_Cons [simp]:
  "List.map_filter f (x # xs) = (case f x of None \<Rightarrow> List.map_filter f xs | Some y \<Rightarrow> y # List.map_filter f xs)"
  by (simp add: List.map_filter_def split: option.splits)

lemma map_filter_Nil [simp]: "List.map_filter f [] = []"
  by (simp add: List.map_filter_def)

lemma num_of_range: "num_of s = Some n \<Longrightarrow> int64 n"
  using parse_int_range [of "trim_space s"]
  by (auto simp: num_of_def split: prod.splits option.splits)

lemma nums_of_range: "n \<in> set (nums_of vs) \<Longrightarrow> int64 n"
  using num_of_range by (induction vs) (auto split: option.splits)

lemma num_of_itoa [simp]: "int64 i \<Longrightarrow> num_of (itoa i) = Some i"
  by (simp add: num_of_def trim_space_itoa atoi_itoa)

lemma agg_sum_eq: "int64 tot \<Longrightarrow> agg_sum vs tot = wrap64 (tot + sum_list (nums_of vs))"
proof (induction vs arbitrary: tot)
  case (Cons v vs)
  then show ?case by (auto simp: wrap64_range wrap64_add_left add.assoc split: option.splits)
qed (simp add: wrap64_id)

lemma count_sum_eq:
  "int64 tot \<Longrightarrow> count_sum vs tot =
     wrap64 (tot + (\<Sum>v\<leftarrow>vs. case num_of v of None \<Rightarrow> 1 | Some n \<Rightarrow> n))"
proof (induction vs arbitrary: tot)
  case (Cons v vs)
  then show ?case by (auto simp: wrap64_range wrap64_add_left add.assoc split: option.splits)
qed (simp add: wrap64_id)

lemma merge_sum_eq: "int64 tot \<Longrightarrow> merge_sum vs tot = wrap64 (tot + (\<Sum>v\<leftarrow>vs. fst (atoi v)))"
proof (induction vs arbitrary: tot)
  case (Cons v vs)
  then show ?case by (auto simp: wrap64_range wrap64_add_left add.assoc)
qed (simp add: wrap64_id)

lemma minmax_loop_Some:
  "minmax_loop vs (Some (a, b)) = Some (fold min (nums_of vs) a, fold max (nums_of vs) b)"
proof (induction vs arbitrary: a b)
  case (Cons v vs)
  have "(if n < a then n else a) = min n a" "(if b < n then n else b) = max n b" for n
    by (auto simp: min_def max_def)
  then show ?case using Cons by (auto split: option.splits)
qed simp

lemma minmax_loop_eq:
  "minmax_loop vs None =
     (if nums_of vs = [] then None else Some (Min (set (nums_of vs)), Max (set (nums_of vs))))"
proof (induction vs)
  case (Cons v vs)
  show ?case
  proof (cases "num_of v")
    case None
    then show ?thesis using Cons by simp
  next
    case (Some n)
    then show ?thesis
      using Min.set_eq_fold [of n "nums_of vs"] Max.set_eq_fold [of n "nums_of vs"]
      by (simp add: minmax_loop_Some del: Min_insert Max_insert)
  qed
qed simp

lemma int64_0: "int64 0"
  by (simp add: int64_def)

subsection \<open>Reduce functions on bags\<close>

text \<open>
  The contract of a reduce function in this system. The sort of the reduce task is not stable
  and the order of the pairs in a file depends on the scheduling of goroutines, so a function
  whose result depends on the order of the values has no defined output.
\<close>

locale bag_reducer =
  fixes f :: reducef
  assumes one: "length (f k vs) = 1"
    and bag: "mset vs = mset vs' \<Longrightarrow> f k vs = f k vs'"
begin

lemma emits_one: "emits_one f"
  by (simp add: emits_one_def one)

text \<open>The output of a reduce task is a function of the bag of its pairs, whatever the sort.\<close>

lemma reduce_bag:
  assumes "key_sorter srt" "mset kvs = mset kvs'"
  shows "reduce_loop f (srt kvs) 0 [] [] =
    Done (concat (map (\<lambda>k. out_line (hd (f k (values_of kvs' k)))) (sorted_list_of_set (Key ` set kvs'))))"
proof -
  have "f k (values_of (srt kvs) k) = f k (values_of kvs' k)" for k
    using key_sorter.srt_values [OF assms(1), of k kvs] assms(2)
    by (intro bag) (simp add: mset_filter)
  moreover have "Key ` set kvs = Key ` set kvs'" using assms(2) by (metis mset_eq_setD)
  ultimately show ?thesis using reduce_sorted [OF emits_one assms(1)] by simp
qed

end

lemma mset_nums_of: "mset vs = mset vs' \<Longrightarrow> mset (nums_of vs) = mset (nums_of vs')"
proof -
  have "mset (nums_of vs) = image_mset (\<lambda>v. the (num_of v)) (filter_mset (\<lambda>v. num_of v \<noteq> None) (mset vs))" for vs
    by (induction vs) (auto split: option.splits)
  then show "mset vs = mset vs' \<Longrightarrow> mset (nums_of vs) = mset (nums_of vs')" by simp
qed

lemma sum_list_mset_cong: "mset xs = mset ys \<Longrightarrow> sum_list (map f xs) = sum_list (map (f :: 'a \<Rightarrow> int) ys)"
  by (metis mset_map sum_mset_sum_list)

interpretation agg: bag_reducer agg_Reduce
proof unfold_locales
  fix vs vs' :: "string list" and k :: string
  assume "mset vs = mset vs'"
  then show "agg_Reduce k vs = agg_Reduce k vs'"
    using sum_list_mset_cong [OF mset_nums_of, of vs vs' "\<lambda>x. x"]
    by (simp add: agg_Reduce_def agg_sum_eq int64_0)
qed (simp add: agg_Reduce_def)

interpretation cnt: bag_reducer count_Reduce
proof unfold_locales
  fix vs vs' :: "string list" and k :: string
  assume "mset vs = mset vs'"
  then show "count_Reduce k vs = count_Reduce k vs'"
    using sum_list_mset_cong [of vs vs'] by (simp add: count_Reduce_def count_sum_eq int64_0)
qed (simp add: count_Reduce_def)

interpretation mmx: bag_reducer "minmax_Reduce e"
proof unfold_locales
  fix vs vs' :: "string list" and k :: string
  assume eq: "mset vs = mset vs'"
  have "set (nums_of vs) = set (nums_of vs')" by (rule mset_eq_setD [OF mset_nums_of [OF eq]])
  moreover have "vs = [] \<longleftrightarrow> vs' = []" using eq by auto
  moreover have "nums_of vs = [] \<longleftrightarrow> nums_of vs' = []" using mset_nums_of [OF eq] by (metis mset_zero_iff)
  ultimately show "minmax_Reduce e k vs = minmax_Reduce e k vs'"
    by (simp add: minmax_Reduce_def minmax_loop_eq)
qed (simp add: minmax_Reduce_def Let_def split: option.splits prod.splits)

interpretation top: bag_reducer "topn_Reduce e"
proof unfold_locales
  fix vs vs' :: "string list" and k :: string
  assume "mset vs = mset vs'"
  then have eq: "mset (nums_of vs) = mset (nums_of vs')" by (rule mset_nums_of)
  then have "sort (nums_of vs) = sort (nums_of vs')"
    by (metis mset_sort properties_for_sort sorted_sort)
  moreover have "nums_of vs = [] \<longleftrightarrow> nums_of vs' = []" using eq by (metis mset_zero_iff)
  ultimately show "topn_Reduce e k vs = topn_Reduce e k vs'"
    unfolding topn_Reduce_def by (simp add: Let_def)
qed (simp add: topn_Reduce_def Let_def)

interpretation mrg: bag_reducer merge_Reduce
proof unfold_locales
  fix vs vs' :: "string list" and k :: string
  assume "mset vs = mset vs'"
  then show "merge_Reduce k vs = merge_Reduce k vs'"
    using sum_list_mset_cong [of vs vs'] by (simp add: merge_Reduce_def merge_sum_eq int64_0)
qed (simp add: merge_Reduce_def)

interpretation crs: bag_reducer crash_Reduce
proof unfold_locales
  fix vs vs' :: "string list" and k :: string
  assume "mset vs = mset vs'"
  then show "crash_Reduce k vs = crash_Reduce k vs'"
    by (metis crash_Reduce_def mset_sort properties_for_sort sorted_sort)
qed (simp add: crash_Reduce_def)

interpretation wrd: bag_reducer wc_Reduce
proof unfold_locales
  fix vs vs' :: "string list" and k :: string
  assume "mset vs = mset vs'"
  then show "wc_Reduce k vs = wc_Reduce k vs'" by (metis size_mset wc_Reduce_def)
qed (simp add: wc_Reduce_def)

subsection \<open>Rows\<close>

text \<open>
  A row whose line survives the trimming of a chunk at either end: the first column begins, and
  the last one ends, with something that is not white space.
\<close>

definition row_line :: "string \<times> string \<times> string \<Rightarrow> string" where
  "row_line r = (case r of (i, k, m) \<Rightarrow> i @ TAB # k @ TAB # m)"

definition row_ok :: "string \<times> string \<times> string \<Rightarrow> bool" where
  "row_ok r \<longleftrightarrow> (case r of (i, k, m) \<Rightarrow>
     starts_clean i \<and> ends_clean m \<and> (\<forall>c \<in> {TAB, NL}. c \<notin> set i \<and> c \<notin> set k \<and> c \<notin> set m))"

definition row_kv :: "string \<times> string \<times> string \<Rightarrow> KV" where
  "row_kv r = (case r of (i, k, m) \<Rightarrow> newKV k m)"

lemma split_on_fresh: "c \<notin> set s \<Longrightarrow> split_on c s = [s]"
  by (induction s) auto

lemma split_on_first: "c \<notin> set x \<Longrightarrow> split_on c (x @ c # s) = x # split_on c s"
  by (induction x) auto

lemma tsv_rows_line:
  assumes "row_ok (i, k, m)"
  shows "tsv_rows (row_line (i, k, m) # ls) = (k, m) # tsv_rows ls"
proof -
  have "split_on TAB (row_line (i, k, m)) = [i, k, m]"
    using assms by (simp add: row_ok_def row_line_def split_on_first split_on_fresh)
  then show ?thesis by (simp add: row_line_def)
qed

lemma tsv_rows_lines:
  "\<forall>r \<in> set rows. row_ok r \<Longrightarrow> tsv_rows (map row_line rows) = map (\<lambda>(i, k, m). (k, m)) rows"
proof (induction rows)
  case (Cons r rows)
  obtain i k m where "r = (i, k, m)" by (cases r)
  with Cons show ?case using tsv_rows_line [of i k m] by simp
qed simp

lemma row_line_clean:
  assumes "row_ok r"
  shows "starts_clean (row_line r)" "ends_clean (row_line r)" "NL \<notin> set (row_line r)"
proof -
  obtain i k m where r: "r = (i, k, m)" by (cases r)
  have t: "ascii TAB" by (simp add: ascii_def)
  show "starts_clean (row_line r)"
    using assms starts_clean_append [OF _ t, of i "k @ TAB # m"] by (simp add: r row_ok_def row_line_def)
  show "ends_clean (row_line r)"
    using assms ends_clean_append [OF _ t, of m "i @ TAB # k"] by (simp add: r row_ok_def row_line_def)
  show "NL \<notin> set (row_line r)" using assms by (auto simp: r row_ok_def row_line_def)
qed

lemma starts_clean_join:
  assumes "starts_clean x"
  shows "starts_clean (join [NL] (x # xs))"
  using assms join_first [of "[NL]" x "map id xs"] starts_clean_append [of x NL]
  by (cases xs) (auto simp: ascii_def)

lemma ends_clean_join:
  assumes "ends_clean (last xs)" "xs \<noteq> []"
  shows "ends_clean (join [NL] xs)"
proof (cases "1 < length xs")
  case True
  then obtain w where "join [NL] xs = w @ NL # last xs"
    using join_last [OF assms(2), of "[NL]"] by auto
  then show ?thesis using ends_clean_append [OF assms(1), of NL w] by (simp add: ascii_def)
next
  case False
  then obtain x where "xs = [x]" using assms(2) by (cases xs) auto
  then show ?thesis using assms(1) by simp
qed

definition row_text :: "(string \<times> string \<times> string) list \<Rightarrow> string" where
  "row_text rows = concat (map (\<lambda>r. row_line r @ [NL]) rows)"

lemma content_lines_rows:
  assumes "\<forall>r \<in> set rows. row_ok r" "rows \<noteq> []"
  shows "content_lines (row_text rows) = map row_line rows"
proof -
  let ?j = "join [NL] (map row_line rows)"
  have "row_text rows = ?j @ [NL]"
    using join_snoc_sep [of "map row_line rows" "[NL]"] assms(2) by (simp add: row_text_def comp_def)
  moreover have "starts_clean ?j"
    using assms starts_clean_join row_line_clean(1) by (cases rows) (auto simp del: join.simps)
  moreover have "ends_clean ?j"
    using assms row_line_clean(2) by (intro ends_clean_join) (auto simp: last_map)
  ultimately have "trim_space (row_text rows) = ?j"
    by (simp add: trim_space_snoc_clean ascii_space_def)
  then show ?thesis
    using assms row_line_clean(3) by (simp add: content_lines_def split_on_join)
qed

lemma content_rows:
  assumes "\<forall>r \<in> set rows. row_ok r"
  shows "tsv_rows (content_lines (row_text rows)) = map (\<lambda>(i, k, m). (k, m)) rows"
proof (cases "rows = []")
  case True
  then show ?thesis by (simp add: content_lines_def row_text_def)
next
  case False
  then show ?thesis using content_lines_rows [OF assms False] tsv_rows_lines [OF assms] by simp
qed

subsection \<open>Counting with a combiner\<close>

abbreviation rows_of :: "string \<Rightarrow> (string \<times> string) list \<Rightarrow> nat" where
  "rows_of k rows \<equiv> length (filter (\<lambda>r. fst r = k) rows)"

lemma count_local_distinct: "distinct (map fst m) \<Longrightarrow> distinct (map fst (count_local rows m))"
  by (induction rows m rule: count_local.induct) (auto simp: distinct_update)

lemma count_local_value:
  "map_of (count_local rows m) k =
     (if rows_of k rows = 0 then map_of m k
      else Some (wrap64 ((case map_of m k of None \<Rightarrow> 0 | Some c \<Rightarrow> c) + int (rows_of k rows))))"
proof (induction rows m rule: count_local.induct)
  case (2 k' v rows m)
  then show ?case
    by (cases "k' = k") (auto simp: update_conv' wrap64_add_left algebra_simps split: option.splits)
qed simp

lemma map_of_filter_distinct:
  "distinct (map fst m) \<Longrightarrow> filter (\<lambda>p. fst p = k) m = (case map_of m k of None \<Rightarrow> [] | Some v \<Rightarrow> [(k, v)])"
proof (induction m)
  case (Cons p m)
  obtain a b where p: "p = (a, b)" by (cases p)
  show ?case
  proof (cases "a = k")
    case True
    then have "k \<notin> fst ` set m" using Cons.prems p by simp
    then have "filter (\<lambda>p. fst p = k) m = []" by (auto simp: filter_empty_conv)
    then show ?thesis using True p by simp
  next
    case False
    then show ?thesis using Cons p by simp
  qed
qed simp

text \<open>The values a chunk contributes to a key: one number, or nothing.\<close>

lemma count_Map_values:
  assumes "\<And>xs. mset (ord xs) = mset xs"
  shows "values_of (count_Map ord fn c) k =
    (let n = rows_of k (tsv_rows (content_lines c)) in if n = 0 then [] else [itoa (wrap64 (int n))])"
proof -
  let ?m = "count_local (tsv_rows (content_lines c)) []"
  have d: "distinct (map fst ?m)" by (rule count_local_distinct) simp
  have "distinct (map fst (ord ?m))"
    using d assms [of ?m] by (metis mset_map mset_eq_imp_distinct_iff)
  moreover have "map_of (ord ?m) = map_of ?m"
    using assms [of ?m] d calculation by (metis map_of_inject_set mset_eq_setD)
  ultimately have "filter (\<lambda>p. fst p = k) (ord ?m) = (case map_of ?m k of None \<Rightarrow> [] | Some v \<Rightarrow> [(k, v)])"
    using map_of_filter_distinct [of "ord ?m" k] by simp
  moreover have "values_of (count_Map ord fn c) k = map (\<lambda>p. itoa (snd p)) (filter (\<lambda>p. fst p = k) (ord ?m))"
    by (simp add: count_Map_def filter_map comp_def split_beta)
  ultimately show ?thesis by (simp add: count_local_value Let_def)
qed

lemma wrap64_sum: "wrap64 (\<Sum>x\<leftarrow>xs. wrap64 (f x)) = wrap64 (\<Sum>x\<leftarrow>xs. f x)"
proof (induction xs)
  case (Cons x xs)
  have "wrap64 (wrap64 (f x) + (\<Sum>x\<leftarrow>xs. wrap64 (f x))) = wrap64 (f x + wrap64 (\<Sum>x\<leftarrow>xs. wrap64 (f x)))"
    by (simp add: wrap64_add_left wrap64_add_right)
  then show ?case using Cons by (simp add: wrap64_add_right)
qed simp

lemma count_values_sum:
  assumes "\<And>c xs. mset (ord c xs) = mset xs"
  shows "(\<Sum>v\<leftarrow>concat (map (\<lambda>c. values_of (count_Map (ord c) fn c) k) chunks). case num_of v of None \<Rightarrow> 1 | Some n \<Rightarrow> n) =
    (\<Sum>c\<leftarrow>chunks. wrap64 (int (rows_of k (tsv_rows (content_lines c)))))"
proof (induction chunks)
  case (Cons c chunks)
  have "(\<Sum>v\<leftarrow>values_of (count_Map (ord c) fn c) k. case num_of v of None \<Rightarrow> 1 | Some n \<Rightarrow> n) =
      wrap64 (int (rows_of k (tsv_rows (content_lines c))))"
    unfolding count_Map_values [of "ord c", OF assms] by (simp add: Let_def wrap64_range wrap64_id int64_0)
  then show ?case using Cons by simp
qed simp

subsection \<open>Properties\<close>

text \<open>
  C31. The \<^verbatim>\<open>agg\<close> reducer prints the sum of the metrics that are decimal 64-bit integers, reduced to
  64 bits, and the true sum when it fits; other values are ignored.
\<close>

theorem agg_Reduce_sum:
  "agg_Reduce key vs = [newKV key (itoa (wrap64 (sum_list (nums_of vs))))] \<and>
   (int64 (sum_list (nums_of vs)) \<longrightarrow> agg_Reduce key vs = [newKV key (itoa (sum_list (nums_of vs)))])"
  by (simp add: agg_Reduce_def agg_sum_eq int64_0 wrap64_id)

theorem agg_Reduce_sum_witness: "agg_Reduce ''k'' [itoa 3, ''x'', itoa 4] = [newKV ''k'' (itoa 7)]"
proof -
  have "trim_space ''x'' = ''x''" by code_simp
  then have "num_of ''x'' = None"
    by (simp add: num_of_def parse_int_def parse_uint_def is_digit_def)
  then have n: "nums_of [itoa 3, ''x'', itoa 4] = [3, 4]" by (simp add: int64_def)
  then show ?thesis using agg_Reduce_sum [of "''k''" "[itoa 3, ''x'', itoa 4]"]
    unfolding n by (simp add: int64_def wrap64_id)
qed



text \<open>
  The \<^verbatim>\<open>minmax\<close> reducer prints the least, the greatest or the span of the numbers among the
  values, by its mode, and 0 when there is no number.
\<close>

theorem minmax_Reduce_spec:
  "minmax_Reduce e key vs = [newKV key
     (if nums_of vs = [] then ''0''
      else itoa (if to_lower (trim_space (e ''MYSQL_MINMAX_MODE'')) = ''min'' then Min (set (nums_of vs))
                 else if to_lower (trim_space (e ''MYSQL_MINMAX_MODE'')) = ''range''
                 then wrap64 (Max (set (nums_of vs)) - Min (set (nums_of vs)))
                 else Max (set (nums_of vs))))]"
  by (cases "vs = []") (auto simp: minmax_Reduce_def minmax_loop_eq Let_def)

lemma rev_sort_above:
  assumes "i < length xs"
  shows "length (filter (\<lambda>y. rev (sort xs) ! i < y) xs) \<le> i \<and>
    i < length (filter (\<lambda>y. rev (sort xs) ! i \<le> y) xs)"
proof -
  let ?d = "rev (sort xs)"
  have len: "length ?d = length xs" by simp
  have desc: "?d ! b \<le> ?d ! a" if "a \<le> b" "b < length xs" for a b
    using sorted_rev_nth_mono [of ?d a b] that by simp
  have card: "length (filter P xs) = card {j. j < length xs \<and> P (?d ! j)}" for P
  proof -
    have "length (filter P xs) = length (filter P ?d)"
      by (metis mset_filter mset_rev mset_sort size_mset)
    then show ?thesis by (simp add: length_filter_conv_card)
  qed
  have "{j. j < length xs \<and> ?d ! i < ?d ! j} \<subseteq> {..<i}"
  proof
    fix j assume j: "j \<in> {j. j < length xs \<and> ?d ! i < ?d ! j}"
    then have "\<not> i \<le> j" using desc [of i j] by auto
    then show "j \<in> {..<i}" by simp
  qed
  from card_mono [OF _ this] have "card {j. j < length xs \<and> ?d ! i < ?d ! j} \<le> i" by simp
  moreover have "{..i} \<subseteq> {j. j < length xs \<and> ?d ! i \<le> ?d ! j}" using desc assms by auto
  then have "Suc i \<le> card {j. j < length xs \<and> ?d ! i \<le> ?d ! j}"
    using card_mono [of "{j. j < length xs \<and> ?d ! i \<le> ?d ! j}" "{..i}"] by simp
  ultimately show ?thesis unfolding card by simp
qed

lemma topn_N_pos: "1 \<le> topn_N e"
  by (auto simp: topn_N_def Let_def split: prod.splits option.splits)

text \<open>
  The \<^verbatim>\<open>topn\<close> reducer prints the \<open>N\<close>-th largest of the numbers among the values, counted with
  repetitions: fewer than \<open>N\<close> numbers are greater and at least \<open>N\<close> are as great, where \<open>N\<close> is
  cut down to the number of numbers; it prints 0 when there is no number.
\<close>

theorem topn_Reduce_spec:
  "if nums_of vs = [] then topn_Reduce e key vs = [newKV key ''0'']
   else \<exists>x \<in> set (nums_of vs). topn_Reduce e key vs = [newKV key (itoa x)] \<and>
     (let n = min (topn_N e) (int (length (nums_of vs)))
      in int (length (filter (\<lambda>y. x < y) (nums_of vs))) < n \<and> n \<le> int (length (filter (\<lambda>y. x \<le> y) (nums_of vs))))"
proof (cases "nums_of vs = []")
  case True
  then show ?thesis by (simp add: topn_Reduce_def)
next
  case False
  let ?n = "min (topn_N e) (int (length (nums_of vs)))"
  let ?i = "nat (?n - 1)"
  let ?x = "rev (sort (nums_of vs)) ! ?i"
  have pos: "1 \<le> ?n" using topn_N_pos [of e] False by (simp add: Suc_le_eq)
  then have i: "?i < length (nums_of vs)" "int ?i = ?n - 1" by linarith+
  have "?x \<in> set (rev (sort (nums_of vs)))" using i(1) by (intro nth_mem) simp
  moreover have "topn_Reduce e key vs = [newKV key (itoa ?x)]"
    using False by (auto simp: topn_Reduce_def Let_def min_def intro!: arg_cong [where f = nat])
  moreover have "int (length (filter (\<lambda>y. ?x < y) (nums_of vs))) < ?n"
    "?n \<le> int (length (filter (\<lambda>y. ?x \<le> y) (nums_of vs)))"
    using rev_sort_above [OF i(1)] i(2) by linarith+
  ultimately show ?thesis using False by (auto simp: Let_def)
qed

text \<open>
  On rows with a clean first and last column the map functions for rows emit the key and the
  metric of every row, in order, from any chunk of whole lines.
\<close>

theorem row_map_exact:
  assumes "\<forall>r \<in> set rows. row_ok r"
  shows "agg_Map fn (row_text rows) = map row_kv rows \<and> minmax_Map fn (row_text rows) = map row_kv rows \<and>
    topn_Map fn (row_text rows) = map row_kv rows"
  using content_rows [OF assms]
  by (auto simp: agg_Map_def minmax_Map_def topn_Map_def row_kv_def split_beta)

theorem row_map_exact_witness:
  "agg_Map ''f'' (row_text [(''1'', ''a'', ''5''), (''2'', [], ''7'')]) = [newKV ''a'' ''5'', newKV [] ''7'']"
proof -
  let ?rows = "[(''1'', ''a'', ''5''), (''2'', [], ''7'')]"
  have "\<forall>r \<in> set ?rows. row_ok r" by code_simp
  from row_map_exact [OF this] show ?thesis by (simp add: row_kv_def)
qed


lemma merge_lines_panics: "l \<in> set ls \<Longrightarrow> SP \<notin> set l \<Longrightarrow> merge_lines ls = Panics IndexOutOfRange"
proof (induction ls)
  case (Cons x xs)
  show ?case
  proof (cases "SP \<in> set x")
    case False
    then show ?thesis by (simp add: split_on_fresh index_def)
  next
    case True
    then have "l \<in> set xs" using Cons.prems by auto
    then have "merge_lines xs = Panics IndexOutOfRange" using Cons by simp
    then show ?thesis by (simp add: index_def Let_def)
  qed
qed simp

text \<open>
  The \<^verbatim>\<open>merge\<close> map function panics on every text with a line that has no space, the empty text
  among them, so a chunk without lines ends the worker.
\<close>

theorem merge_Map_panics:
  assumes "l \<in> set (split_on NL (trim_right_byte NL contents))" "SP \<notin> set l"
  shows "merge_Map fn contents = Panics IndexOutOfRange"
  using merge_lines_panics [OF assms] by (simp add: merge_Map_def)

theorem merge_Map_panics_witness: "merge_Map ''f'' [] = Panics IndexOutOfRange"
  by (rule merge_Map_panics [of "[]"]) (simp_all add: trim_right_byte_def)

end
