(* ===== verification/Flow_Config.thy ===== *)
theory Flow_Config
  imports Batch_Config Redis_Batch Apps
begin

text \<open>
  The configuration of a flow and what surrounds its run (\<^verbatim>\<open>batch/flow.go\<close>, \<^verbatim>\<open>batch/flow_v1.go\<close>,
  \<^verbatim>\<open>batch/plugin_build.go\<close>): defaults, validation, the names of the built-in transforms, the build of
  their plugins, and the environment variables that are set for the time of the run.
\<close>

subsection \<open>Configuration\<close>

record FlowSourceConfig =
  fsType :: string
  fsDB :: DBConfig
  fsRedis :: ConnConfig
  fsConfig :: SourceConfig
  fsRedisConfig :: RedisSourceConfig

record FlowTransformConfig =
  tfType :: string
  Builtin :: string
  tfPluginPath :: string
  tfReducers :: int
  tfWorkers :: int
  tfInRAM :: bool
  tfPort :: int
  tfParams :: "(string \<times> string) list"

record FlowSinkConfig =
  fkType :: string
  fkDB :: DBConfig
  fkRedis :: ConnConfig
  fkConfig :: SinkConfig
  fkRedisConfig :: RedisSinkConfig

record FlowConfig =
  Version :: string
  Source :: FlowSourceConfig
  Transform :: FlowTransformConfig
  Sink :: FlowSinkConfig

definition default_pos :: "int \<Rightarrow> int \<Rightarrow> int" where
  "default_pos d n = (if n \<le> 0 then d else n)"

definition flow_withDefaults :: "FlowConfig \<Rightarrow> FlowConfig" where
  "flow_withDefaults c =
     c\<lparr>Source := (Source c)\<lparr>fsType := or_default ''mysql'' (fsType (Source c)),
          fsConfig := source_WithDefaults (fsConfig (Source c)),
          fsRedisConfig := redis_source_WithDefaults (fsRedisConfig (Source c))\<rparr>,
       Transform := (Transform c)\<lparr>tfType := or_default ''builtin'' (tfType (Transform c)),
          tfReducers := default_pos 8 (tfReducers (Transform c)), tfWorkers := default_pos 16 (tfWorkers (Transform c)),
          tfPort := (if tfPort (Transform c) = 0 then 10000 else tfPort (Transform c))\<rparr>,
       Sink := (Sink c)\<lparr>fkType := or_default ''mysql'' (fkType (Sink c)),
          fkConfig := sink_WithDefaults (fkConfig (Sink c)),
          fkRedisConfig := redis_sink_WithDefaults (fkRedisConfig (Sink c))\<rparr>\<rparr>"

subsection \<open>Validation\<close>

definition builtinTransformSources :: "string \<rightharpoonup> path" where
  "builtinTransformSources = [''count'' \<mapsto> ''mrapps/count.go'', ''minmax'' \<mapsto> ''mrapps/minmax.go'', ''topn'' \<mapsto> ''mrapps/topn.go'']"

definition normalizeBuiltinName :: "string \<Rightarrow> string" where
  "normalizeBuiltinName name = remove_byte (CHR ''_'') (remove_byte (CHR ''-'') (to_lower (trim_space name)))"

datatype flow_error =
    UnsupportedVersion string | UnsupportedSource string | UnsupportedSink string | UnsupportedTransform string
  | SourceDBRequired | SourceTableRequired | SourceKeyPatternRequired
  | SinkDBRequired | SinkTableRequired | SinkKeyPrefixRequired
  | PluginPathRequired | PluginPathNotEmpty | UnsupportedBuiltin string | ReducersNotOne string
  | InvalidTopN string | InvalidMinmaxMode string

definition blank :: "string \<Rightarrow> bool" where
  "blank s \<longleftrightarrow> trim_space s = []"

definition check_source :: "FlowSourceConfig \<Rightarrow> flow_error option" where
  "check_source s =
     (if fsType s = ''mysql'' then
        (if DbUser (fsDB s) = [] \<or> DbDatabase (fsDB s) = [] then Some SourceDBRequired
         else if blank (Table (fsConfig s)) then Some SourceTableRequired else None)
      else if fsType s = ''redis'' \<and> blank (KeyPattern (fsRedisConfig s)) then Some SourceKeyPatternRequired else None)"

definition check_sink :: "FlowSinkConfig \<Rightarrow> flow_error option" where
  "check_sink s =
     (if fkType s = ''mysql'' then
        (if DbUser (fkDB s) = [] \<or> DbDatabase (fkDB s) = [] then Some SinkDBRequired
         else if blank (TargetTable (fkConfig s)) then Some SinkTableRequired else None)
      else if fkType s = ''redis'' \<and> blank (KeyPrefix (fkRedisConfig s)) then Some SinkKeyPrefixRequired else None)"

definition check_transform :: "FlowTransformConfig \<Rightarrow> flow_error option" where
  "check_transform t =
     (if tfType t = ''mapreduce'' then (if blank (tfPluginPath t) then Some PluginPathRequired else None)
      else if tfType t = ''builtin'' then
        (if \<not> blank (tfPluginPath t) then Some PluginPathNotEmpty
         else (let norm = normalizeBuiltinName (Builtin t) in
               if builtinTransformSources norm = None then Some (UnsupportedBuiltin (Builtin t))
               else if (norm = ''minmax'' \<or> norm = ''topn'') \<and> 1 < tfReducers t then Some (ReducersNotOne norm)
               else None))
      else None)"

definition check_topn :: "(string \<times> string) list \<Rightarrow> flow_error option" where
  "check_topn ps =
     (case map_of ps ''MYSQL_TOPN_N'' of
        None \<Rightarrow> None
      | Some s \<Rightarrow>
          (if blank s then None
           else (case parse_int (trim_space s) of
                   (n, None) \<Rightarrow> if n \<le> 0 then Some (InvalidTopN s) else None
                 | _ \<Rightarrow> Some (InvalidTopN s))))"

definition check_minmax :: "(string \<times> string) list \<Rightarrow> flow_error option" where
  "check_minmax ps =
     (case map_of ps ''MYSQL_MINMAX_MODE'' of
        None \<Rightarrow> None
      | Some s \<Rightarrow>
          (if blank s then None
           else if to_lower (trim_space s) \<in> {''min'', ''max'', ''range''} then None else Some (InvalidMinmaxMode s)))"

definition or_error :: "'e option \<Rightarrow> 'e option \<Rightarrow> 'e option" where
  "or_error a b = (case a of Some er \<Rightarrow> Some er | None \<Rightarrow> b)"

definition ValidateFlowConfig :: "FlowConfig \<Rightarrow> flow_error option" where
  "ValidateFlowConfig cfg =
     (let c = flow_withDefaults cfg in
      if trim_space (Version c) \<noteq> ''v1'' then Some (UnsupportedVersion (Version c))
      else if fsType (Source c) \<noteq> ''mysql'' \<and> fsType (Source c) \<noteq> ''redis'' then Some (UnsupportedSource (fsType (Source c)))
      else if fkType (Sink c) \<noteq> ''mysql'' \<and> fkType (Sink c) \<noteq> ''redis'' then Some (UnsupportedSink (fkType (Sink c)))
      else if tfType (Transform c) \<noteq> ''mapreduce'' \<and> tfType (Transform c) \<noteq> ''builtin'' then
        Some (UnsupportedTransform (tfType (Transform c)))
      else or_error (check_source (Source c)) (or_error (check_sink (Sink c))
        (or_error (check_transform (Transform c))
          (or_error (check_topn (tfParams (Transform c))) (check_minmax (tfParams (Transform c)))))))"

lemma or_error_None: "or_error a b = None \<longleftrightarrow> a = None \<and> b = None"
  by (simp add: or_error_def split: option.splits)

subsection \<open>Environment\<close>

text \<open>\<^verbatim>\<open>os.Setenv\<close> refuses empty names, names with an equals sign and strings with a null byte.\<close>

type_synonym environ = "string \<rightharpoonup> string"

definition setenv_ok :: "string \<Rightarrow> string \<Rightarrow> bool" where
  "setenv_ok k v \<longleftrightarrow> k \<noteq> [] \<and> CHR ''='' \<notin> set k \<and> CHR 0x00 \<notin> set k \<and> CHR 0x00 \<notin> set v"

text \<open>The loop over the parameters, in the order of one iteration over the map: the values to restore.\<close>

fun set_params :: "(string \<times> string) list \<Rightarrow> (string \<times> string option) list \<Rightarrow> environ \<Rightarrow>
    (string \<times> string option) list result \<times> environ" where
  "set_params [] restore e = (Inr restore, e)"
| "set_params ((k, v) # ps) restore e =
     (let restore' = restore @ [(k, e k)]
      in if setenv_ok k v then set_params ps restore' (e(k \<mapsto> v)) else (Inl (''setenv '' @ k), e))"

fun restore_env :: "(string \<times> string option) list \<Rightarrow> environ \<Rightarrow> environ" where
  "restore_env [] e = e"
| "restore_env ((k, v) # rs) e = restore_env rs (e(k := v))"

text \<open>\<open>run\<close> reads the environment; it gives its error and the rest of the state.\<close>

definition withTransformParams :: "(string \<times> string) list \<Rightarrow> (environ \<Rightarrow> 'w \<Rightarrow> string option \<times> 'w) \<Rightarrow> environ \<Rightarrow> 'w \<Rightarrow>
    string option \<times> environ \<times> 'w" where
  "withTransformParams params run e w =
     (if params = [] then (case run e w of (er, w') \<Rightarrow> (er, e, w'))
      else (case set_params params [] e of
              (Inl er, e') \<Rightarrow> (Some er, e', w)
            | (Inr restore, e') \<Rightarrow> (case run e' w of (er, w') \<Rightarrow> (er, restore_env restore e', w'))))"

text \<open>What \<^verbatim>\<open>os.Getenv\<close> gives the plugin: the empty string for a name that is not set.\<close>

definition getenv :: "environ \<Rightarrow> env" where
  "getenv e k = (case e k of None \<Rightarrow> [] | Some v \<Rightarrow> v)"

lemma set_params_ok:
  assumes "\<forall>(k, v) \<in> set ps. setenv_ok k v" "distinct (map fst ps)"
  shows "set_params ps restore e = (Inr (restore @ map (\<lambda>p. (fst p, e (fst p))) ps), e ++ map_of ps)"
  using assms
proof (induction ps arbitrary: restore e)
  case (Cons p ps)
  obtain k v where p: "p = (k, v)" by (cases p)
  have k: "k \<notin> fst ` set ps" using Cons.prems(2) p by simp
  then have m: "map (\<lambda>q. (fst q, (e(k \<mapsto> v)) (fst q))) ps = map (\<lambda>q. (fst q, e (fst q))) ps" by auto
  have a: "e(k \<mapsto> v) ++ map_of ps = e ++ map_of (p # ps)"
    using k by (simp add: p map_add_upd_left dom_map_of_conv_image_fst)
  have "set_params (p # ps) restore e = set_params ps (restore @ [(k, e k)]) (e(k \<mapsto> v))"
    using Cons.prems(1) p by (simp add: Let_def)
  also have "\<dots> = (Inr ((restore @ [(k, e k)]) @ map (\<lambda>q. (fst q, (e(k \<mapsto> v)) (fst q))) ps), e(k \<mapsto> v) ++ map_of ps)"
    using Cons.prems by (intro Cons.IH) auto
  finally show ?case unfolding m a by (simp add: p del: map_of.simps)
qed simp

lemma set_params_append:
  "set_params (ps @ qs) restore e =
     (case set_params ps restore e of (Inl er, e') \<Rightarrow> (Inl er, e') | (Inr r, e') \<Rightarrow> set_params qs r e')"
  by (induction ps arbitrary: restore e) (auto simp: Let_def)

lemma set_params_fail:
  assumes "\<forall>(k, v) \<in> set ps. setenv_ok k v" "distinct (map fst ps)" "\<not> setenv_ok k v"
  shows "set_params (ps @ (k, v) # qs) restore e = (Inl (''setenv '' @ k), e ++ map_of ps)"
  using set_params_ok [OF assms(1,2), of restore e] assms(3) by (simp add: set_params_append)

lemma restore_env_eq:
  "distinct (map fst rs) \<Longrightarrow> restore_env rs e k = (case map_of rs k of None \<Rightarrow> e k | Some v \<Rightarrow> v)"
proof (induction rs arbitrary: e)
  case (Cons r rs)
  then show ?case by (cases r) (auto split: option.splits simp: map_of_eq_None_iff [symmetric] fun_upd_def)
qed simp

subsection \<open>Plugins\<close>

text \<open>
  Files with their modification times. \<open>gobuild\<close> stands for the Go tool: the error, or the
  contents of the plugin, for the contents of the source.
\<close>

type_synonym tfs = "path \<rightharpoonup> string \<times> nat"

record build_env =
  can_lock :: "path \<Rightarrow> bool"
  gobuild :: "string \<Rightarrow> string result"
  can_rename :: bool
  getpid :: nat
  clock :: nat

definition tmp_output :: "build_env \<Rightarrow> path \<Rightarrow> path" where
  "tmp_output b out = path_join [path_dir out, ''.'' @ path_base out @ ''.tmp.'' @ itoa (int (getpid b))]"

definition buildPluginIfNeeded :: "build_env \<Rightarrow> path \<Rightarrow> path \<Rightarrow> tfs \<Rightarrow> string option \<times> tfs" where
  "buildPluginIfNeeded b src out f =
     (let lockPath = out @ ''.lock'' in
      if \<not> can_lock b lockPath then (Some ''lock'', f)
      else (let f1 = (if f lockPath = None then f(lockPath \<mapsto> ([], clock b)) else f) in
            case f1 src of
              None \<Rightarrow> (Some (''stat '' @ src), f1)
            | Some (code, smod) \<Rightarrow>
                (if (\<exists>bin omod. f1 out = Some (bin, omod) \<and> smod \<le> omod) then (None, f1)
                 else (case gobuild b code of
                         Inl er \<Rightarrow> (Some (''build plugin failed: '' @ er), f1(tmp_output b out := None))
                       | Inr bin \<Rightarrow>
                           (if can_rename b
                            then (None, f1(tmp_output b out := None, out \<mapsto> (bin, clock b)))
                            else (Some ''rename'', f1(tmp_output b out := None)))))))"

definition ensureBuiltinPlugin :: "build_env \<Rightarrow> (path \<Rightarrow> bool) \<Rightarrow> path \<Rightarrow> string \<Rightarrow> tfs \<Rightarrow> path result \<times> tfs" where
  "ensureBuiltinPlugin b mkdir root name f =
     (let norm = normalizeBuiltinName name in
      case builtinTransformSources norm of
        None \<Rightarrow> (Inl ''unsupported transform.builtin'', f)
      | Some rel \<Rightarrow>
          (let src = path_join [root, rel]; outDir = path_join [root, ''.cache'', ''batch-builtins''];
               out = path_join [outDir, norm @ ''.so''] in
           if f src = None then (Inl (''stat '' @ src), f)
           else if \<not> mkdir outDir then (Inl (''mkdir '' @ outDir), f)
           else (case buildPluginIfNeeded b src out f of
                   (Some er, f') \<Rightarrow> (Inl er, f')
                 | (None, f') \<Rightarrow> (Inr out, f'))))"

definition resolveTransformPlugin :: "build_env \<Rightarrow> (path \<Rightarrow> bool) \<Rightarrow> path \<Rightarrow> FlowTransformConfig \<Rightarrow> tfs \<Rightarrow> path result \<times> tfs" where
  "resolveTransformPlugin b mkdir root t f =
     (if tfType t = ''mapreduce'' then (Inr (tfPluginPath t), f) else ensureBuiltinPlugin b mkdir root (Builtin t) f)"

text \<open>\<^verbatim>\<open>projectRoot\<close>: two directories up from the source file of the package.\<close>

definition projectRoot :: "path option \<Rightarrow> path result" where
  "projectRoot current =
     (case current of None \<Rightarrow> Inl ''failed to resolve project path'' | Some p \<Rightarrow> Inr (path_dir (path_dir p)))"

section \<open>Properties\<close>

text \<open>What the rest of the program relies on in a configuration with defaults.\<close>

definition flow_wf :: "FlowConfig \<Rightarrow> bool" where
  "flow_wf c \<longleftrightarrow>
     fsType (Source c) \<noteq> [] \<and> fkType (Sink c) \<noteq> [] \<and> tfType (Transform c) \<noteq> [] \<and>
     1 \<le> tfReducers (Transform c) \<and> 1 \<le> tfWorkers (Transform c) \<and> tfPort (Transform c) \<noteq> 0 \<and>
     (let s = fsConfig (Source c) in PKColumn s \<noteq> [] \<and> KeyColumn s \<noteq> [] \<and> ValColumn s \<noteq> [] \<and> Where s \<noteq> [] \<and>
        1 \<le> Shards s \<and> 1 \<le> Parallel s \<and> OutputDir s \<noteq> [] \<and> FilePrefix s \<noteq> []) \<and>
     (let k = fkConfig (Sink c) in SinkKeyColumn k \<noteq> [] \<and> SinkValColumn k \<noteq> [] \<and> InputGlob k \<noteq> [] \<and> 1 \<le> BatchSize k) \<and>
     (let r = fsRedisConfig (Source c) in KeyPattern r \<noteq> [] \<and> KeyField r \<noteq> [] \<and> ValField r \<noteq> [] \<and> 1 \<le> ScanCount r \<and>
        RedisOutputDir r \<noteq> [] \<and> RedisFilePrefix r \<noteq> []) \<and>
     (let r = fkRedisConfig (Sink c) in KeyPrefix r \<noteq> [] \<and> ValueField r \<noteq> [] \<and> RedisInputGlob r \<noteq> [])"

lemmas defaults_defs = flow_withDefaults_def source_WithDefaults_def sink_WithDefaults_def redis_source_WithDefaults_def
  redis_sink_WithDefaults_def or_default_def default_pos_def

lemma flow_defaults_fix: "flow_wf c \<Longrightarrow> flow_withDefaults c = c"
  by (simp add: flow_wf_def defaults_defs Let_def)

lemma flow_defaults_wf: "flow_wf (flow_withDefaults c)"
  by (simp add: flow_wf_def defaults_defs Let_def)

text \<open>
  C33. The defaults make a configuration well-formed: every text and number the later stages rely on is
  set, a well-formed configuration is left as it is, so applying the defaults twice (as the run and
  the validation do) is the same as once, and validating before or after the defaults is the same.
\<close>

theorem flow_defaults:
  "flow_wf (flow_withDefaults c) \<and> (flow_wf c \<longleftrightarrow> flow_withDefaults c = c) \<and>
   flow_withDefaults (flow_withDefaults c) = flow_withDefaults c \<and>
   ValidateFlowConfig (flow_withDefaults c) = ValidateFlowConfig c"
proof -
  have i: "flow_withDefaults (flow_withDefaults c) = flow_withDefaults c"
    using flow_defaults_fix [OF flow_defaults_wf] .
  then have "ValidateFlowConfig (flow_withDefaults c) = ValidateFlowConfig c" by (simp add: ValidateFlowConfig_def)
  then show ?thesis using i flow_defaults_wf [of c] flow_defaults_fix [of c] by metis
qed


definition sample_db :: DBConfig where
  "sample_db = \<lparr>DbHost = [], DbPort = 0, DbUser = ''u'', DbPassword = [], DbDatabase = ''d'', DbParams = []\<rparr>"

definition sample_flow :: FlowConfig where
  "sample_flow = \<lparr>Version = ''v1'',
     Source = \<lparr>fsType = [], fsDB = sample_db, fsRedis = \<lparr>Host = [], Port = 0, Password = [], DB = 0\<rparr>,
       fsConfig = \<lparr>Table = ''t'', PKColumn = [], KeyColumn = [], ValColumn = [], Where = [], Shards = 0, Parallel = 0,
         OutputDir = [], FilePrefix = []\<rparr>,
       fsRedisConfig = \<lparr>KeyPattern = [], KeyField = [], ValField = [], ScanCount = 0, RedisOutputDir = [], RedisFilePrefix = []\<rparr>\<rparr>,
     Transform = \<lparr>tfType = [], Builtin = ''top-n'', tfPluginPath = [], tfReducers = 1, tfWorkers = 0, tfInRAM = False, tfPort = 0,
       tfParams = [(''MYSQL_TOPN_N'', itoa 2)]\<rparr>,
     Sink = \<lparr>fkType = [], fkDB = sample_db, fkRedis = \<lparr>Host = [], Port = 0, Password = [], DB = 0\<rparr>,
       fkConfig = \<lparr>TargetTable = ''r'', SinkKeyColumn = [], SinkValColumn = [], InputGlob = [], Replace = False, BatchSize = 0\<rparr>,
       fkRedisConfig = \<lparr>KeyPrefix = [], ValueField = [], RedisInputGlob = [], RedisReplace = False\<rparr>\<rparr>\<rparr>"

lemma sample_flow_valid: "ValidateFlowConfig sample_flow = None"
proof -
  have t: "trim_space ''v1'' = ''v1''" "trim_space ''t'' = ''t''" "trim_space ''r'' = ''r''"
    "normalizeBuiltinName ''top-n'' = ''topn''" by code_simp+
  show ?thesis
    using t parse_int_range atoi_itoa [of 2]
    by (simp add: ValidateFlowConfig_def Let_def sample_flow_def sample_db_def defaults_defs check_source_def check_sink_def
        check_transform_def check_topn_def check_minmax_def blank_def or_error_def builtinTransformSources_def trim_space_itoa int64_def)
qed


text \<open>
  C35. The parameters are set for the run and for the run only: if all names and values can be set, the
  run sees the environment with the parameters and nothing else changed, in whatever order the map is
  iterated, and afterwards the environment is exactly the one before, names that were not set included.
\<close>

theorem params_restored:
  assumes "\<forall>(k, v) \<in> set ps. setenv_ok k v" "distinct (map fst ps)"
  shows "withTransformParams ps run e w = (case run (e ++ map_of ps) w of (er, w') \<Rightarrow> (er, e, w'))"
proof (cases "ps = []")
  case False
  let ?r = "map (\<lambda>p. (fst p, e (fst p))) ps"
  have d: "distinct (map fst ?r)" using assms(2) by (simp add: comp_def)
  have "restore_env ?r (e ++ map_of ps) = e"
  proof
    fix k
    show "restore_env ?r (e ++ map_of ps) k = e k"
    proof (cases "k \<in> fst ` set ps")
      case True
      then have "(k, e k) \<in> set ?r" by auto
      then show ?thesis using d by (simp add: restore_env_eq map_of_is_SomeI del: set_map)
    next
      case False
      then have "map_of ?r k = None" "map_of ps k = None" unfolding map_of_eq_None_iff by (simp_all add: image_image)
      then show ?thesis using d by (simp add: restore_env_eq map_add_def)
    qed
  qed
  then show ?thesis using set_params_ok [OF assms, of "[]" e] False by (simp add: withTransformParams_def split: prod.splits)
qed (simp add: withTransformParams_def split: prod.splits)

theorem params_restored_witness:
  "withTransformParams [(''MYSQL_TOPN_N'', ''2'')] (\<lambda>e w. (None, getenv e ''MYSQL_TOPN_N'')) Map.empty [] = (None, Map.empty, ''2'')"
  using params_restored [of "[(''MYSQL_TOPN_N'', ''2'')]" "\<lambda>e w. (None, getenv e ''MYSQL_TOPN_N'')" Map.empty "[]"]
  by (simp add: setenv_ok_def getenv_def)

text \<open>
  A parameter that cannot be set leaks the ones before it: the run is not started and the error is
  returned, but the function to restore the environment is registered only after the loop, so the
  parameters that were set before stay in the environment of the process.
\<close>

theorem params_leak:
  assumes "\<forall>(k, v) \<in> set ps. setenv_ok k v" "distinct (map fst ps)" "\<not> setenv_ok k v"
  shows "withTransformParams (ps @ (k, v) # qs) run e w = (Some (''setenv '' @ k), e ++ map_of ps, w)"
  using set_params_fail [OF assms, of qs "[]" e] by (simp add: withTransformParams_def)

theorem params_leak_witness:
  "withTransformParams [(''A'', ''1''), (''B=C'', ''2'')] (\<lambda>e w. (None, w)) Map.empty () = (Some ''setenv B=C'', [''A'' \<mapsto> ''1''], ())"
  using params_leak [of "[(''A'', ''1'')]" "''B=C''" "''2''" "[]" "\<lambda>e w. (None, w)" Map.empty "()"] by (simp add: setenv_ok_def)

text \<open>
  The plugin cache: when the build function succeeds, the plugin is there and is not older than its source,
  provided the clock is not behind the source; calling it again without a change does
  nothing; and a build that fails leaves the plugin as it was. The temporary file is never left behind by a build.
\<close>

theorem plugin_fresh:
  assumes "buildPluginIfNeeded b src out f = (er, f')" "f src = Some (code, smod)" "smod \<le> clock b"
    and paths: "tmp_output b out \<notin> {src, out}" "out @ ''.lock'' \<notin> {src, tmp_output b out}" "src \<noteq> out"
  shows "(er = None \<longrightarrow> (\<exists>bin omod. f' out = Some (bin, omod) \<and> smod \<le> omod) \<and> buildPluginIfNeeded b src out f' = (None, f')) \<and>
    (er \<noteq> None \<longrightarrow> f' out = f out) \<and> f' src = f src \<and> (f (tmp_output b out) = None \<longrightarrow> f' (tmp_output b out) = None)"
proof (cases "can_lock b (out @ ''.lock'')")
  case False
  then show ?thesis using assms(1) by (auto simp: buildPluginIfNeeded_def)
next
  case True
  define f1 where "f1 = (if f (out @ ''.lock'') = None then f(out @ ''.lock'' \<mapsto> ([], clock b)) else f)"
  have f1: "f1 src = Some (code, smod)" "f1 (tmp_output b out) = f (tmp_output b out)" "f1 out = f out" "f1 (out @ ''.lock'') \<noteq> None"
    using assms(2) paths by (auto simp: f1_def)
  have eq: "buildPluginIfNeeded b src out f =
      (if (\<exists>bin omod. f1 out = Some (bin, omod) \<and> smod \<le> omod) then (None, f1)
       else (case gobuild b code of
               Inl er \<Rightarrow> (Some (''build plugin failed: '' @ er), f1(tmp_output b out := None))
             | Inr bin \<Rightarrow>
                 (if can_rename b then (None, f1(tmp_output b out := None, out \<mapsto> (bin, clock b)))
                  else (Some ''rename'', f1(tmp_output b out := None)))))"
    using True f1(1) by (simp add: buildPluginIfNeeded_def Let_def flip: f1_def)
  have again: "buildPluginIfNeeded b src out g = (None, g)"
    if "g (out @ ''.lock'') \<noteq> None" "g src = Some (code, smod)" "\<exists>bin omod. g out = Some (bin, omod) \<and> smod \<le> omod" for g
  proof -
    have "(if g (out @ ''.lock'') = None then g(out @ ''.lock'' \<mapsto> ([], clock b)) else g) = g" using that(1) by (rule if_not_P)
    then show ?thesis using True that(2,3) unfolding buildPluginIfNeeded_def Let_def by simp
  qed
  have lo: "out @ ''.lock'' \<noteq> out" by simp
  show ?thesis
  proof (cases "\<exists>bin omod. f1 out = Some (bin, omod) \<and> smod \<le> omod")
    case True
    then have "er = None" "f' = f1" using eq [unfolded if_P [OF True]] assms(1) by simp_all
    then show ?thesis using True assms(2) f1 again [OF f1(4,1) True] by simp
  next
    case old: False
    note eq' = eq [unfolded if_not_P [OF old]]
    show ?thesis
    proof (cases "gobuild b code")
      case (Inl e)
      then have "er \<noteq> None" "f' = f1(tmp_output b out := None)" using eq' assms(1) by auto
      then show ?thesis using assms(2) f1 paths by fastforce
    next
      case (Inr bin)
      define g where "g = f1(tmp_output b out := None, out \<mapsto> (bin, clock b))"
      have g: "g src = Some (code, smod)" "g out = Some (bin, clock b)" "g (tmp_output b out) = None" "g (out @ ''.lock'') \<noteq> None"
        using f1 paths lo by (auto simp: g_def)
      then have "can_rename b \<Longrightarrow> buildPluginIfNeeded b src out g = (None, g)" using again [of g] assms(3) by simp
      moreover have "(er = None \<and> f' = g) \<or> (er \<noteq> None \<and> f' = f1(tmp_output b out := None))"
        using eq' assms(1) Inr by (auto simp: g_def split: if_splits)
      moreover have "er = None \<Longrightarrow> can_rename b" using eq' assms(1) Inr by (simp split: if_splits)
      ultimately show ?thesis using g assms(2,3) f1 paths by fastforce
    qed
  qed
qed

definition sample_build :: build_env where
  "sample_build = \<lparr>can_lock = (\<lambda>p. True), gobuild = (\<lambda>c. Inr (''so:'' @ c)), can_rename = True, getpid = 7, clock = 9\<rparr>"

theorem plugin_fresh_witness:
  "\<exists>f'. buildPluginIfNeeded sample_build ''/r/mrapps/count.go'' ''/r/c/count.so'' [''/r/mrapps/count.go'' \<mapsto> (''code'', 5)] = (None, f') \<and>
    buildPluginIfNeeded sample_build ''/r/mrapps/count.go'' ''/r/c/count.so'' f' = (None, f')"
proof -
  have t: "tmp_output sample_build ''/r/c/count.so'' = ''/r/c/.count.so.tmp.7''" by code_simp
  obtain f' where f': "buildPluginIfNeeded sample_build ''/r/mrapps/count.go'' ''/r/c/count.so'' [''/r/mrapps/count.go'' \<mapsto> (''code'', 5)] = (None, f')"
    by (simp add: buildPluginIfNeeded_def Let_def sample_build_def)
  have "5 \<le> clock sample_build" by (simp add: sample_build_def)
  then show ?thesis using plugin_fresh [OF f', of "''code''" 5, unfolded t] f' by simp
qed

end
