(* ===== verification/Work_Split.thy ===== *)
theory Work_Split
  imports Worker_Node
begin

text \<open>
  The splitting of the input files into byte ranges (\<^verbatim>\<open>fileLineOffsets\<close> and the loop of
  \<^verbatim>\<open>distributeWork\<close> in \<^verbatim>\<open>master/master.go\<close>): the byte offsets of the line starts, and one range per
  worker, cut at line starts, with the lines spread as evenly as possible.
\<close>

subsection \<open>Line offsets\<close>

text \<open>The pieces that \<^verbatim>\<open>reader.ReadString\<close> returns for a newline: lines with their newline.\<close>

function read_strings :: "string \<Rightarrow> string list" where
  "read_strings s =
     (if s = [] then []
      else if NL \<in> set s
      then (takeWhile (\<lambda>c. c \<noteq> NL) s @ [NL]) # read_strings (tl (dropWhile (\<lambda>c. c \<noteq> NL) s))
      else [s])"
  by pat_completeness auto
termination
proof (relation "measure length")
  fix s :: string
  assume "NL \<in> set s"
  then have "dropWhile (\<lambda>c. c \<noteq> NL) s \<noteq> []" by (auto simp: dropWhile_eq_Nil_conv)
  then have "length (tl (dropWhile (\<lambda>c. c \<noteq> NL) s)) < length (dropWhile (\<lambda>c. c \<noteq> NL) s)"
    by simp
  also have "\<dots> \<le> length s" by (rule length_dropWhile_le)
  finally show "(tl (dropWhile (\<lambda>c. c \<noteq> NL) s), s) \<in> measure length" by simp
qed simp

declare read_strings.simps [simp del]

lemma concat_read_strings: "concat (read_strings s) = s"
proof (induction s rule: read_strings.induct)
  case (1 s)
  show ?case
  proof (cases "NL \<in> set s")
    case True
    let ?d = "dropWhile (\<lambda>c. c \<noteq> NL) s"
    have "?d \<noteq> []" using True by (auto simp: dropWhile_eq_Nil_conv)
    then have "?d = NL # tl ?d" using hd_dropWhile [of "\<lambda>c. c \<noteq> NL" s] by (cases ?d) auto
    then have "takeWhile (\<lambda>c. c \<noteq> NL) s @ NL # tl ?d = s"
      by (metis takeWhile_dropWhile_id)
    with 1 True show ?thesis by (subst read_strings.simps) auto
  next
    case False
    then show ?thesis by (subst read_strings.simps) auto
  qed
qed

text \<open>Every piece but the last ends in its only newline, so a cut between pieces is a line start.\<close>

definition is_line :: "string \<Rightarrow> bool" where
  "is_line l \<longleftrightarrow> (\<exists>b. NL \<notin> set b \<and> l = b @ [NL])"

lemma read_strings_lines: "\<forall>l \<in> set (butlast (read_strings s)). is_line l"
proof (induction s rule: read_strings.induct)
  case (1 s)
  show ?case
  proof (cases "s \<noteq> [] \<and> NL \<in> set s")
    case True
    have "is_line (takeWhile (\<lambda>c. c \<noteq> NL) s @ [NL])"
      unfolding is_line_def by (metis (mono_tags, lifting) set_takeWhileD)
    with 1 True show ?thesis by (subst read_strings.simps) auto
  next
    case False
    then show ?thesis by (subst read_strings.simps) auto
  qed
qed

text \<open>The loop of \<^verbatim>\<open>fileLineOffsets\<close>: the running total of the piece lengths, from 0.\<close>

fun offsets_from :: "nat \<Rightarrow> string list \<Rightarrow> nat list" where
  "offsets_from cursor [] = []"
| "offsets_from cursor (line # ls) = (cursor + length line) # offsets_from (cursor + length line) ls"

definition fileLineOffsets :: "fs \<Rightarrow> path \<Rightarrow> nat list option" where
  "fileLineOffsets d file =
     (case d file of None \<Rightarrow> None
      | Some content \<Rightarrow> Some (0 # offsets_from 0 (read_strings content)))"

lemma length_offsets_from [simp]: "length (offsets_from c ls) = length ls"
  by (induction ls arbitrary: c) auto

lemma offsets_nth: "i \<le> length ls \<Longrightarrow> (c # offsets_from c ls) ! i = c + length (concat (take i ls))"
proof (induction ls arbitrary: c i)
  case Nil
  then show ?case by simp
next
  case (Cons l ls)
  then show ?case by (cases i) auto
qed

text \<open>The bytes between two line starts are the lines between them.\<close>

lemma slice_between_offsets:
  assumes "i \<le> j" "j \<le> length ls"
  shows "take (length (concat (take j ls)) - length (concat (take i ls)))
      (drop (length (concat (take i ls))) (concat ls)) = concat (take (j - i) (drop i ls))"
proof -
  have ls: "ls = take i ls @ take (j - i) (drop i ls) @ drop j ls"
    using assms by (metis append_take_drop_id drop_drop le_add_diff_inverse2)
  have tj: "take j ls = take i ls @ take (j - i) (drop i ls)"
    using assms by (metis le_add_diff_inverse take_add)
  have "concat ls = concat (take i ls) @ concat (take (j - i) (drop i ls)) @ concat (drop j ls)"
    by (metis ls concat_append)
  then show ?thesis by (simp add: tj)
qed

subsection \<open>The ranges of one file\<close>

text \<open>
  The inner loop of \<^verbatim>\<open>distributeWork\<close> for one file: the pairs \<open>(startByte, endByte)\<close> of the workers
  \<open>i, i + 1, \<dots>\<close>, from line \<open>from\<close> on. Reads of the offsets are checked.
\<close>

function split_loop :: "nat list \<Rightarrow> nat \<Rightarrow> nat \<Rightarrow> nat \<Rightarrow> (nat \<times> nat) list outcome" where
  "split_loop lineOffsets numWorkers i frm =
     (if i < numWorkers
      then (let totalLine = length lineOffsets - 1;
                workLoad = totalLine div numWorkers + (if i < totalLine mod numWorkers then 1 else 0)
            in bind_outcome (index lineOffsets (int frm)) (\<lambda>startByte.
               bind_outcome (index lineOffsets (int (frm + workLoad))) (\<lambda>endByte.
               bind_outcome (split_loop lineOffsets numWorkers (i + 1) (frm + workLoad)) (\<lambda>rest.
                 Done ((startByte, endByte) # rest)))))
      else Done [])"
  by pat_completeness auto
termination
  by (relation "measure (\<lambda>(offs, n, i, frm). n - i)") auto

declare split_loop.simps [simp del]

text \<open>The first line of worker \<open>i\<close> when \<open>tot\<close> lines are spread over \<open>n\<close> workers.\<close>

definition first_line :: "nat \<Rightarrow> nat \<Rightarrow> nat \<Rightarrow> nat" where
  "first_line tot n i = i * (tot div n) + min i (tot mod n)"

lemma first_line_0 [simp]: "first_line tot n 0 = 0"
  by (simp add: first_line_def)

lemma first_line_Suc:
  "first_line tot n (i + 1) =
     first_line tot n i + (tot div n + (if i < tot mod n then 1 else 0))"
  by (auto simp: first_line_def min_def)

lemma first_line_last: "0 < n \<Longrightarrow> first_line tot n n = tot"
proof -
  assume "0 < n"
  then have "tot mod n < n" by simp
  then have "min n (tot mod n) = tot mod n" by (simp add: min_absorb2)
  then show ?thesis by (simp add: first_line_def)
qed

lemma first_line_mono: "i \<le> j \<Longrightarrow> first_line tot n i \<le> first_line tot n j"
  unfolding first_line_def by (intro add_mono mult_right_mono) (auto simp: min_def)

lemma first_line_le: "0 < n \<Longrightarrow> i \<le> n \<Longrightarrow> first_line tot n i \<le> tot"
  using first_line_mono [of i n tot n] by (simp add: first_line_last)

text \<open>
  The loop returns, without a read outside the offsets, the offsets of these lines.
\<close>

lemma split_loop_eq:
  assumes "0 < n" "i \<le> n" "offs \<noteq> []"
  shows "split_loop offs n i (first_line (length offs - 1) n i) =
    Done (map (\<lambda>k. (offs ! first_line (length offs - 1) n k,
                    offs ! first_line (length offs - 1) n (k + 1))) [i..<n])"
  using assms(2)
proof (induction "n - i" arbitrary: i)
  case 0
  then have "\<not> i < n" by simp
  then show ?case by (subst split_loop.simps) simp
next
  case (Suc m)
  let ?fl = "first_line (length offs - 1) n"
  from Suc have i: "i < n" by simp
  have le: "?fl i \<le> length offs - 1" "?fl (i + 1) \<le> length offs - 1"
    using i assms(1) by (simp_all add: first_line_le)
  have lt: "?fl i < length offs" "?fl (i + 1) < length offs"
    using le assms(3) by (simp_all add: le_less_trans)
  have IH: "split_loop offs n (i + 1) (?fl (i + 1)) =
      Done (map (\<lambda>k. (offs ! ?fl k, offs ! ?fl (k + 1))) [i + 1..<n])"
    using Suc i by (intro Suc.hyps) auto
  have "split_loop offs n i (?fl i) =
      bind_outcome (index offs (int (?fl i))) (\<lambda>a. bind_outcome (index offs (int (?fl (i + 1)))) (\<lambda>b.
        bind_outcome (split_loop offs n (i + 1) (?fl (i + 1))) (\<lambda>rest. Done ((a, b) # rest))))"
    by (subst split_loop.simps) (simp only: i if_True Let_def first_line_Suc)
  also have "\<dots> = Done ((offs ! ?fl i, offs ! ?fl (i + 1)) #
      map (\<lambda>k. (offs ! ?fl k, offs ! ?fl (k + 1))) [i + 1..<n])"
    by (simp only: index_nat(1) [OF lt(1)] index_nat(1) [OF lt(2)] IH bind_outcome.simps)
  finally show ?case using i by (simp add: upt_conv_Cons)
qed

text \<open>The lines of worker \<open>i\<close>.\<close>

definition chunk_lines :: "'a list \<Rightarrow> nat \<Rightarrow> nat \<Rightarrow> 'a list" where
  "chunk_lines ls n i =
     take (first_line (length ls) n (i + 1) - first_line (length ls) n i)
       (drop (first_line (length ls) n i) ls)"

lemma chunk_lines_concat:
  assumes "0 < n"
  shows "concat (map (chunk_lines ls n) [0..<n]) = ls"
proof -
  have "concat (map (chunk_lines ls n) [0..<k]) = take (first_line (length ls) n k) ls" if "k \<le> n" for k
    using that
  proof (induction k)
    case (Suc k)
    let ?fl = "first_line (length ls) n"
    have "?fl k \<le> ?fl (k + 1)" by (rule first_line_mono) simp
    then have "take (?fl (k + 1)) ls = take (?fl k) ls @ take (?fl (k + 1) - ?fl k) (drop (?fl k) ls)"
      by (metis le_add_diff_inverse take_add)
    with Suc show ?case by (simp add: chunk_lines_def)
  qed simp
  from this [of n] show ?thesis using assms by (simp add: first_line_last)
qed

lemma length_chunk_lines:
  assumes "0 < n" "i < n"
  shows "length (chunk_lines ls n i) = length ls div n + (if i < length ls mod n then 1 else 0)"
proof -
  have "first_line (length ls) n (i + 1) \<le> length ls" using assms by (simp add: first_line_le)
  then show ?thesis using first_line_Suc [of "length ls" n i] by (simp add: chunk_lines_def)
qed

text \<open>The ranges of a file and what they hold.\<close>

lemma split_file:
  assumes "0 < n" and d: "d file = Some content"
  shows "\<exists>rs. split_loop (the (fileLineOffsets d file)) n 0 0 = Done rs \<and> length rs = n \<and>
    (\<forall>i < n. fst (rs ! i) \<le> snd (rs ! i) \<and> snd (rs ! i) \<le> length content \<and>
       take (snd (rs ! i) - fst (rs ! i)) (drop (fst (rs ! i)) content) =
         concat (chunk_lines (read_strings content) n i))"
proof -
  let ?ls = "read_strings content"
  let ?offs = "0 # offsets_from 0 ?ls" let ?fl = "first_line (length ?ls) n"
  let ?rs = "map (\<lambda>k. (?offs ! ?fl k, ?offs ! ?fl (k + 1))) [0..<n]"
  have "split_loop ?offs n 0 0 = Done ?rs"
    using split_loop_eq [of n 0 ?offs] assms(1) by simp
  moreover have "fst (?rs ! i) \<le> snd (?rs ! i) \<and> snd (?rs ! i) \<le> length content \<and>
       take (snd (?rs ! i) - fst (?rs ! i)) (drop (fst (?rs ! i)) content) =
         concat (chunk_lines ?ls n i)" if i: "i < n" for i
  proof -
    have le: "?fl i \<le> ?fl (i + 1)" "?fl (i + 1) \<le> length ?ls"
      using i assms(1) by (simp_all add: first_line_le first_line_mono)
    have a: "fst (?rs ! i) = length (concat (take (?fl i) ?ls))"
      and b: "snd (?rs ! i) = length (concat (take (?fl (i + 1)) ?ls))"
      using i le offsets_nth [of "?fl i" ?ls 0] offsets_nth [of "?fl (i + 1)" ?ls 0] by simp_all
    have c: "concat ?ls = content" by (rule concat_read_strings)
    have "take (?fl (i + 1)) ?ls = take (?fl i) ?ls @ take (?fl (i + 1) - ?fl i) (drop (?fl i) ?ls)"
      using le by (metis le_add_diff_inverse take_add)
    then have "fst (?rs ! i) \<le> snd (?rs ! i)" unfolding a b by simp
    moreover have "snd (?rs ! i) \<le> length content"
      unfolding b by (metis append_take_drop_id c concat_append le_add1 length_append)
    ultimately show ?thesis
      using slice_between_offsets [OF le] unfolding a b chunk_lines_def c by simp
  qed
  ultimately show ?thesis
    using d by (intro exI [of _ ?rs]) (simp add: fileLineOffsets_def)
qed

end
