(* ===== verification/Master_State.thy ===== *)
theory Master_State
  imports Work_Split
begin

text \<open>
  The master (\<^verbatim>\<open>master/master.go\<close>, \<^verbatim>\<open>workerInfo.go\<close>, \<^verbatim>\<open>mapTaskInfo.go\<close>, \<^verbatim>\<open>reduceTaskInfo.go\<close>): its
  tables of workers and tasks, the remote calls that change them, the distribution of the
  input over the map tasks, and the search for idle workers. Each call holds the master's
  lock, so it is one step on the state.
\<close>

subsection \<open>Tables\<close>

datatype task_state = TASK_IDLE | TASK_INPROGRESS | TASK_COMPLETED

datatype worker_mark = WORKER_IDLE | WORKER_BUSY | WORKER_UNKNOWN

record WorkerInfo =
  wiUUID :: uuid
  wiIP :: addr
  WorkerState :: worker_mark

record MapTaskInfo =
  mtFiles :: "MapFileInfo list"
  mtState :: task_state
  mtUUID :: uuid

record IMDInfo =
  imdIP :: addr
  imdFileName :: path

record ReduceTaskInfo =
  IMDs :: "IMDInfo list"
  rtState :: task_state
  rtUUID :: uuid

record Master =
  Workers :: "WorkerInfo list"
  MapTasks :: "MapTaskInfo list"
  ReduceTasks :: "ReduceTaskInfo list"
  numWorkers :: int
  totalWorkers :: int
  numReducer :: int

definition newWorkerInfo :: "uuid \<Rightarrow> addr \<Rightarrow> WorkerInfo" where
  "newWorkerInfo u ip = \<lparr>wiUUID = u, wiIP = ip, WorkerState = WORKER_IDLE\<rparr>"

definition getIP :: "WorkerInfo \<Rightarrow> addr" where
  "getIP w = wiIP w"

definition Health :: "WorkerInfo \<Rightarrow> bool" where
  "Health w \<longleftrightarrow> WorkerState w = WORKER_IDLE"

definition SetState :: "worker_mark \<Rightarrow> WorkerInfo \<Rightarrow> WorkerInfo" where
  "SetState st w = w\<lparr>WorkerState := st\<rparr>"

definition Broken :: "WorkerInfo \<Rightarrow> bool" where
  "Broken w \<longleftrightarrow> WorkerState w = WORKER_UNKNOWN"

text \<open>The uuids of the tasks are drawn by the library: \<open>us i\<close> is the \<open>i\<close>-th draw.\<close>

definition newMapTask :: "uuid \<Rightarrow> MapTaskInfo" where
  "newMapTask u = \<lparr>mtFiles = [], mtState = TASK_IDLE, mtUUID = u\<rparr>"

definition newMapTasks :: "(nat \<Rightarrow> uuid) \<Rightarrow> int \<Rightarrow> MapTaskInfo list" where
  "newMapTasks us sz = map (\<lambda>i. newMapTask (us i)) [0..<nat sz]"

definition newReduceTask :: "uuid \<Rightarrow> ReduceTaskInfo" where
  "newReduceTask u = \<lparr>IMDs = [], rtState = TASK_IDLE, rtUUID = u\<rparr>"

definition newReduceTasks :: "(nat \<Rightarrow> uuid) \<Rightarrow> int \<Rightarrow> ReduceTaskInfo list" where
  "newReduceTasks us sz = map (\<lambda>i. newReduceTask (us i)) [0..<nat sz]"

definition addFile :: "path \<Rightarrow> int \<Rightarrow> int \<Rightarrow> MapTaskInfo \<Rightarrow> MapTaskInfo" where
  "addFile file frm to mt = mt\<lparr>mtFiles := mtFiles mt @ [\<lparr>FileName = file, From = frm, To = to\<rparr>]\<rparr>"

definition map_toRPC :: "MapTaskInfo \<Rightarrow> MapFileInfo list" where
  "map_toRPC mt =
     map (\<lambda>fi. \<lparr>FileName = FileName fi, From = wrap64 (From fi), To = wrap64 (To fi)\<rparr>) (mtFiles mt)"

definition reduce_toRPC :: "ReduceTaskInfo \<Rightarrow> ReduceFileInfo list" where
  "reduce_toRPC rt = map (\<lambda>fi. \<lparr>Ip = imdIP fi, Filename = imdFileName fi\<rparr>) (IMDs rt)"

definition NewMaster :: "(nat \<Rightarrow> uuid) \<Rightarrow> int \<Rightarrow> int \<Rightarrow> Master" where
  "NewMaster us nWorker nReduce =
     \<lparr>Workers = [], MapTasks = [], ReduceTasks = newReduceTasks us nReduce,
      numWorkers = 0, totalWorkers = nWorker, numReducer = nReduce\<rparr>"

subsection \<open>Remote calls\<close>

definition WorkerRegister :: "uuid \<Rightarrow> addr \<Rightarrow> Master \<Rightarrow> Master \<times> int" where
  "WorkerRegister u ip ms =
     (ms\<lparr>Workers := Workers ms @ [newWorkerInfo u ip], numWorkers := numWorkers ms + 1\<rparr>,
      numWorkers ms)"

text \<open>The loop overwrites: the last worker with the uuid wins, the empty string if there is none.\<close>

fun discover :: "uuid \<Rightarrow> WorkerInfo list \<Rightarrow> addr \<Rightarrow> addr" where
  "discover u [] ip = ip"
| "discover u (w # ws) ip = discover u ws (if wiUUID w = u then getIP w else ip)"

definition serviceDiscovey :: "Master \<Rightarrow> uuid \<Rightarrow> addr" where
  "serviceDiscovey ms u = discover u (Workers ms) []"

text \<open>
  \<^verbatim>\<open>UpdateIMDInfo\<close>: the \<open>i\<close>-th file name goes to the \<open>i\<close>-th reduce task; more names than reduce
  tasks is a read outside the slice.
\<close>

fun update_imds :: "addr \<Rightarrow> nat \<Rightarrow> path list \<Rightarrow> ReduceTaskInfo list \<Rightarrow> ReduceTaskInfo list outcome" where
  "update_imds ip i [] rts = Done rts"
| "update_imds ip i (f # fs) rts =
     bind_outcome (index rts (int i)) (\<lambda>rt.
       update_imds ip (i + 1) fs
         (rts[i := rt\<lparr>IMDs := IMDs rt @ [\<lparr>imdIP = ip, imdFileName = f\<rparr>]\<rparr>]))"

definition UpdateIMDInfo :: "uuid \<Rightarrow> path list \<Rightarrow> Master \<Rightarrow> Master outcome" where
  "UpdateIMDInfo u filenames ms =
     bind_outcome (update_imds (serviceDiscovey ms u) 0 filenames (ReduceTasks ms)) (\<lambda>rts.
       Done (ms\<lparr>ReduceTasks := rts\<rparr>))"

definition getWorkerNum :: "Master \<Rightarrow> int \<times> int" where
  "getWorkerNum ms = (numWorkers ms, totalWorkers ms)"

text \<open>
  \<^verbatim>\<open>waitForEnoughWorker\<close> polls the counters until enough workers have registered. The polls see
  the states \<open>obs\<close>; the result is the state of the poll that ended the loop, \<^term>\<open>None\<close> if none of
  them did.
\<close>

fun waitForEnoughWorker :: "Master list \<Rightarrow> Master option" where
  "waitForEnoughWorker [] = None"
| "waitForEnoughWorker (ms # obs) =
     (let (nWorker, totalWorker) = getWorkerNum ms
      in if nWorker < totalWorker then waitForEnoughWorker obs else Some ms)"

subsection \<open>distributeWork\<close>

definition add_ranges :: "path \<Rightarrow> (nat \<times> nat) list \<Rightarrow> MapTaskInfo list \<Rightarrow> MapTaskInfo list" where
  "add_ranges file rs mts = map2 (\<lambda>(a, b) mt. addFile file (int a) (int b) mt) rs mts"

text \<open>
  The loop over the files. A file that cannot be read panics. With no worker at all the
  division \<^verbatim>\<open>totalLine / numWorkers\<close> panics; a negative number of workers gives no task.
\<close>

fun distribute_files :: "fs \<Rightarrow> int \<Rightarrow> path list \<Rightarrow> MapTaskInfo list \<Rightarrow> MapTaskInfo list outcome" where
  "distribute_files d nw [] mts = Done mts"
| "distribute_files d nw (file # files) mts =
     (case fileLineOffsets d file of
        None \<Rightarrow> Panics (PanicErr ''open'')
      | Some lineOffsets \<Rightarrow>
          (if nw = 0 then Panics DivideByZero
           else bind_outcome (split_loop lineOffsets (nat nw) 0 0) (\<lambda>rs.
                  distribute_files d nw files (add_ranges file rs mts))))"

definition distributeWork :: "fs \<Rightarrow> (nat \<Rightarrow> uuid) \<Rightarrow> path list \<Rightarrow> Master \<Rightarrow> Master outcome" where
  "distributeWork d us files ms =
     bind_outcome (distribute_files d (totalWorkers ms) files (newMapTasks us (totalWorkers ms)))
       (\<lambda>mts. Done (ms\<lparr>MapTasks := mts\<rparr>))"

lemma add_ranges_nth:
  "i < length rs \<Longrightarrow> length rs = length mts \<Longrightarrow>
     add_ranges file rs mts ! i = addFile file (int (fst (rs ! i))) (int (snd (rs ! i))) (mts ! i)"
  by (simp add: add_ranges_def split_beta)

lemma length_add_ranges [simp]: "length (add_ranges file rs mts) = min (length rs) (length mts)"
  by (simp add: add_ranges_def)

text \<open>
  What the ranges of task \<open>i\<close> hold, for the files \<open>files\<close>: the lines of its share.
\<close>

definition share_ok :: "fs \<Rightarrow> nat \<Rightarrow> nat \<Rightarrow> path \<Rightarrow> MapFileInfo \<Rightarrow> bool" where
  "share_ok d n i file fi \<longleftrightarrow>
     FileName fi = file \<and>
     (\<exists>content a b. d file = Some content \<and> From fi = int a \<and> To fi = int b \<and> a \<le> b \<and>
        b \<le> length content \<and>
        take (b - a) (drop a content) = concat (chunk_lines (read_strings content) n i))"

lemma distribute_files_Done:
  assumes "0 < n" "\<forall>f \<in> set files. d f \<noteq> None" "length mts = n"
  shows "\<exists>mts'. distribute_files d (int n) files mts = Done mts' \<and> length mts' = n \<and>
    (\<forall>i < n. \<exists>fis. mtFiles (mts' ! i) = mtFiles (mts ! i) @ fis \<and>
       list_all2 (share_ok d n i) files fis)"
  using assms(2,3)
proof (induction files arbitrary: mts)
  case Nil
  then show ?case by simp
next
  case (Cons fl fls)
  then obtain content where c: "d fl = Some content" by auto
  obtain rs where rs: "split_loop (the (fileLineOffsets d fl)) n 0 0 = Done rs" "length rs = n"
    and sl: "\<And>i. i < n \<Longrightarrow> fst (rs ! i) \<le> snd (rs ! i) \<and> snd (rs ! i) \<le> length content \<and>
       take (snd (rs ! i) - fst (rs ! i)) (drop (fst (rs ! i)) content) =
         concat (chunk_lines (read_strings content) n i)"
    using split_file [OF assms(1), of d fl content] c by blast
  let ?m = "add_ranges fl rs mts"
  have len: "length ?m = n" using rs(2) Cons.prems by simp
  then obtain mts' where mts': "distribute_files d (int n) fls ?m = Done mts'" "length mts' = n"
    and tl: "\<And>i. i < n \<Longrightarrow> \<exists>fis. mtFiles (mts' ! i) = mtFiles (?m ! i) @ fis \<and>
       list_all2 (share_ok d n i) fls fis"
    using Cons.IH [of ?m] Cons.prems by auto
  have st: "distribute_files d (int n) (fl # fls) mts = Done mts'"
    using c rs mts' assms(1) by (simp add: fileLineOffsets_def)
  have "\<exists>fis. mtFiles (mts' ! i) = mtFiles (mts ! i) @ fis \<and>
      list_all2 (share_ok d n i) (fl # fls) fis" if i: "i < n" for i
  proof -
    let ?fi = "\<lparr>FileName = fl, From = int (fst (rs ! i)), To = int (snd (rs ! i))\<rparr>"
    obtain fis where "mtFiles (mts' ! i) = mtFiles (?m ! i) @ fis"
      "list_all2 (share_ok d n i) fls fis" using tl [OF i] by blast
    moreover have "mtFiles (?m ! i) = mtFiles (mts ! i) @ [?fi]"
      using i rs(2) Cons.prems by (simp add: add_ranges_nth addFile_def)
    moreover have "share_ok d n i fl ?fi" using c sl [OF i] by (auto simp: share_ok_def)
    ultimately show ?thesis by (intro exI [of _ "?fi # fis"]) auto
  qed
  with st mts'(2) show ?case by blast
qed

lemma distributeWork_Done:
  assumes "totalWorkers ms = int n" "0 < n" "\<forall>f \<in> set files. d f \<noteq> None"
  shows "\<exists>mts. distributeWork d us files ms = Done (ms\<lparr>MapTasks := mts\<rparr>) \<and> length mts = n \<and>
    (\<forall>i < n. list_all2 (share_ok d n i) files (mtFiles (mts ! i)))"
  using distribute_files_Done [OF assms(2,3), of "newMapTasks us (int n)"] assms(1)
  by (auto simp: distributeWork_def newMapTasks_def newMapTask_def)

lemma distributeWork_no_worker:
  "totalWorkers ms = 0 \<Longrightarrow> d f = Some c \<Longrightarrow> distributeWork d us (f # files) ms = Panics DivideByZero"
  by (simp add: distributeWork_def fileLineOffsets_def)

subsection \<open>Registration and the shuffle table\<close>

text \<open>The counter is the length of the table: the invariant of the master's calls.\<close>

definition registry_ok :: "Master \<Rightarrow> bool" where
  "registry_ok ms \<longleftrightarrow> numWorkers ms = int (length (Workers ms))"

lemma registry_ok_NewMaster: "registry_ok (NewMaster us nw nr)"
  by (simp add: registry_ok_def NewMaster_def)

lemma registry_ok_WorkerRegister: "registry_ok ms \<Longrightarrow> registry_ok (fst (WorkerRegister u ip ms))"
  by (simp add: registry_ok_def WorkerRegister_def)

fun register_all :: "(uuid \<times> addr) list \<Rightarrow> Master \<Rightarrow> Master \<times> int list" where
  "register_all [] ms = (ms, [])"
| "register_all ((u, ip) # rest) ms =
     (let (ms', i) = WorkerRegister u ip ms; (ms'', ids) = register_all rest ms'
      in (ms'', i # ids))"

lemma register_all_result:
  "registry_ok ms \<Longrightarrow> register_all regs ms =
     (ms\<lparr>Workers := Workers ms @ map (\<lambda>(u, ip). newWorkerInfo u ip) regs,
         numWorkers := numWorkers ms + int (length regs)\<rparr>,
      map (\<lambda>k. int (length (Workers ms) + k)) [0..<length regs])"
proof (induction regs arbitrary: ms)
  case (Cons r regs)
  obtain u ip where r: "r = (u, ip)" by (cases r)
  have ok: "registry_ok (fst (WorkerRegister u ip ms))"
    using Cons.prems by (rule registry_ok_WorkerRegister)
  have "[0..<length (r # regs)] = 0 # map Suc [0..<length regs]"
    using upt_conv_Cons [of 0 "Suc (length regs)"] by (simp add: map_Suc_upt del: upt_Suc)
  then show ?case
    using Cons.IH [OF ok] Cons.prems r
    by (simp add: WorkerRegister_def registry_ok_def split_beta comp_def)
qed simp

lemma discover_none: "u \<notin> set (map wiUUID ws) \<Longrightarrow> discover u ws ip = ip"
  by (induction ws arbitrary: ip) auto

lemma discover_distinct:
  "distinct (map wiUUID ws) \<Longrightarrow> w \<in> set ws \<Longrightarrow> discover (wiUUID w) ws ip = wiIP w"
proof (induction ws arbitrary: ip)
  case (Cons x ws)
  show ?case
  proof (cases "w = x")
    case True
    with Cons.prems show ?thesis by (simp add: discover_none getIP_def)
  next
    case False
    with Cons.prems have "w \<in> set ws" by simp
    moreover from this Cons.prems have "wiUUID x \<noteq> wiUUID w" by auto
    ultimately show ?thesis using Cons by simp
  qed
qed simp

text \<open>The file names of a worker are appended to the reduce tasks of the same index.\<close>

lemma update_imds_eq:
  assumes "i + length fs \<le> length rts"
  shows "\<exists>rts'. update_imds ip i fs rts = Done rts' \<and> length rts' = length rts \<and>
    (\<forall>k < length rts. rts' ! k =
       (if i \<le> k \<and> k < i + length fs
        then (rts ! k)\<lparr>IMDs := IMDs (rts ! k) @ [\<lparr>imdIP = ip, imdFileName = fs ! (k - i)\<rparr>]\<rparr>
        else rts ! k))"
  using assms
proof (induction fs arbitrary: i rts)
  case Nil
  then show ?case by auto
next
  case (Cons f fs)
  let ?rt = "(rts ! i)\<lparr>IMDs := IMDs (rts ! i) @ [\<lparr>imdIP = ip, imdFileName = f\<rparr>]\<rparr>"
  obtain rts' where r: "update_imds ip (i + 1) fs (rts[i := ?rt]) = Done rts'" "length rts' = length rts"
    and nth: "\<forall>k < length rts. rts' ! k =
       (if i + 1 \<le> k \<and> k < i + 1 + length fs
        then (rts[i := ?rt] ! k)\<lparr>IMDs := IMDs (rts[i := ?rt] ! k) @
            [\<lparr>imdIP = ip, imdFileName = fs ! (k - (i + 1))\<rparr>]\<rparr>
        else rts[i := ?rt] ! k)"
    using Cons.IH [of "i + 1" "rts[i := ?rt]"] Cons.prems by auto
  have st: "update_imds ip i (f # fs) rts = Done rts'" using r(1) Cons.prems by simp
  have "rts' ! k = (if i \<le> k \<and> k < i + length (f # fs)
      then (rts ! k)\<lparr>IMDs := IMDs (rts ! k) @ [\<lparr>imdIP = ip, imdFileName = (f # fs) ! (k - i)\<rparr>]\<rparr>
      else rts ! k)" if k: "k < length rts" for k
    using nth k Cons.prems by (cases "k = i") (auto simp: nth_Cons' Suc_diff_Suc)
  with st r(2) show ?case by blast
qed

lemma update_imds_panics:
  "length rts < i + length fs \<Longrightarrow> i \<le> length rts \<Longrightarrow> update_imds ip i fs rts = Panics IndexOutOfRange"
proof (induction fs arbitrary: i rts)
  case (Cons f fs)
  show ?case
  proof (cases "i < length rts")
    case True
    with Cons show ?thesis by simp
  next
    case False
    then show ?thesis by simp
  qed
qed simp

lemma UpdateIMDInfo_eq:
  assumes "length fs \<le> length (ReduceTasks ms)"
  shows "\<exists>rts. UpdateIMDInfo u fs ms = Done (ms\<lparr>ReduceTasks := rts\<rparr>) \<and>
    length rts = length (ReduceTasks ms) \<and>
    (\<forall>k < length rts. IMDs (rts ! k) = IMDs (ReduceTasks ms ! k) @
       (if k < length fs then [\<lparr>imdIP = serviceDiscovey ms u, imdFileName = fs ! k\<rparr>] else []))"
  using update_imds_eq [of 0 fs "ReduceTasks ms" "serviceDiscovey ms u"] assms
  by (auto simp: UpdateIMDInfo_def)

lemma UpdateIMDInfo_panics:
  "length (ReduceTasks ms) < length fs \<Longrightarrow> UpdateIMDInfo u fs ms = Panics IndexOutOfRange"
  by (simp add: UpdateIMDInfo_def update_imds_panics)

text \<open>The wait ends at the first poll that sees enough workers.\<close>

lemma waitForEnoughWorker_Some:
  "waitForEnoughWorker obs = Some ms \<Longrightarrow> ms \<in> set obs \<and> totalWorkers ms \<le> numWorkers ms"
  by (induction obs) (auto simp: getWorkerNum_def split: if_splits)

lemma waitForEnoughWorker_None:
  "waitForEnoughWorker obs = None \<longleftrightarrow> (\<forall>ms \<in> set obs. numWorkers ms < totalWorkers ms)"
  by (induction obs) (auto simp: getWorkerNum_def)

subsection \<open>Properties\<close>

text \<open>
  C10. The distribution of the input always succeeds when the files can be read and there is a
  worker: there is one task per worker, each with one range per file; reading the ranges of a
  file in the order of the tasks gives whole lines, every line of the file exactly once and in
  order, and the numbers of lines differ by at most one.
\<close>

theorem distributeWork_splits:
  assumes n: "totalWorkers ms = int n" "0 < n"
    and files: "\<forall>f \<in> set files. \<exists>c. d f = Some c \<and> int (length c) \<le> max_alloc"
  shows "\<exists>mts. distributeWork d us files ms = Done (ms\<lparr>MapTasks := mts\<rparr>) \<and> length mts = n \<and>
    (\<forall>i < n. length (mtFiles (mts ! i)) = length files) \<and>
    (\<forall>k < length files. \<exists>chunks.
       length chunks = n \<and> concat chunks = read_strings (the (d (files ! k))) \<and>
       (\<forall>i < n. partialContent d (mtFiles (mts ! i) ! k) = Done (concat (chunks ! i)) \<and>
          length (chunks ! i) \<in> {length (concat chunks) div n, length (concat chunks) div n + 1}))"
proof -
  have "\<forall>f \<in> set files. d f \<noteq> None" using files by auto
  from distributeWork_Done [OF n this, of us]
  obtain mts where mts: "distributeWork d us files ms = Done (ms\<lparr>MapTasks := mts\<rparr>)" "length mts = n"
    and sh: "\<And>i. i < n \<Longrightarrow> list_all2 (share_ok d n i) files (mtFiles (mts ! i))" by blast
  have "\<exists>chunks. length chunks = n \<and> concat chunks = read_strings (the (d (files ! k))) \<and>
       (\<forall>i < n. partialContent d (mtFiles (mts ! i) ! k) = Done (concat (chunks ! i)) \<and>
          length (chunks ! i) \<in> {length (concat chunks) div n, length (concat chunks) div n + 1})"
    if k: "k < length files" for k
  proof -
    obtain c where c: "d (files ! k) = Some c" "int (length c) \<le> max_alloc" using files k by force
    let ?chunks = "map (chunk_lines (read_strings c) n) [0..<n]"
    have "partialContent d (mtFiles (mts ! i) ! k) = Done (concat (chunk_lines (read_strings c) n i))"
      if "i < n" for i
      using list_all2_nthD [OF sh [OF that] k] c partialContent_inside [of d "mtFiles (mts ! i) ! k"]
      by (auto simp: share_ok_def)
    moreover have "concat ?chunks = read_strings c" using chunk_lines_concat [OF n(2)] .
    ultimately show ?thesis
      using c length_chunk_lines [OF n(2), where ls = "read_strings c"] by (intro exI [of _ ?chunks]) auto
  qed
  then show ?thesis using mts sh list_all2_lengthD by (intro exI [of _ mts]) fastforce
qed

theorem distributeWork_splits_witness:
  "\<exists>mts. distributeWork [''in'' \<mapsto> ''abcd''] (\<lambda>_. ''t'') [''in''] ((NewMaster (\<lambda>_. ''r'') 2 1)) =
     Done ((NewMaster (\<lambda>_. ''r'') 2 1)\<lparr>MapTasks := mts\<rparr>) \<and> length mts = 2"
  using distributeWork_splits [of "NewMaster (\<lambda>_. ''r'') 2 1" 2 "[''in'']" "[''in'' \<mapsto> ''abcd'']" "\<lambda>_. ''t''"]
  by (auto simp: NewMaster_def max_alloc_def)

text \<open>
  With a worker count of zero the distribution of a readable file panics with a division by
  zero.
\<close>

theorem distributeWork_zero:
  assumes "totalWorkers ms = 0" "d f = Some c"
  shows "distributeWork d us (f # files) ms = Panics DivideByZero"
  using assms by (rule distributeWork_no_worker)

theorem distributeWork_zero_witness:
  "distributeWork [''in'' \<mapsto> ''a''] (\<lambda>_. ''t'') [''in''] (NewMaster (\<lambda>_. ''r'') 0 1) = Panics DivideByZero"
  by (rule distributeWork_zero) (simp_all add: NewMaster_def)

text \<open>
  Workers that register one after the other on a new master get the ids 0, 1, 2, \<open>\<dots>\<close> in
  order, and when their uuids are distinct the master finds the address of each of them.
\<close>

theorem registration:
  assumes "distinct (map fst regs)"
  shows "snd (register_all regs (NewMaster us nw nr)) = map int [0..<length regs] \<and>
    (\<forall>(u, ip) \<in> set regs. serviceDiscovey (fst (register_all regs (NewMaster us nw nr))) u = ip)"
proof -
  let ?ws = "map (\<lambda>(u, ip). newWorkerInfo u ip) regs"
  have r: "register_all regs (NewMaster us nw nr) =
      ((NewMaster us nw nr)\<lparr>Workers := ?ws, numWorkers := int (length regs)\<rparr>, map int [0..<length regs])"
    using register_all_result [OF registry_ok_NewMaster, of regs us nw nr] by (simp add: NewMaster_def)
  have dist: "distinct (map wiUUID ?ws)" using assms by (simp add: comp_def split_beta newWorkerInfo_def)
  have "discover u ?ws [] = ip" if "(u, ip) \<in> set regs" for u ip
  proof -
    have "newWorkerInfo u ip \<in> set ?ws" using that by force
    from discover_distinct [OF dist this, of "[]"] show ?thesis by (simp add: newWorkerInfo_def)
  qed
  then show ?thesis by (auto simp: r serviceDiscovey_def)
qed

theorem registration_witness:
  "snd (register_all [(''a'', ''1''), (''b'', ''2'')] (NewMaster (\<lambda>_. ''r'') 2 1)) = map int [0..<2] \<and>
   serviceDiscovey (fst (register_all [(''a'', ''1''), (''b'', ''2'')] (NewMaster (\<lambda>_. ''r'') 2 1))) ''b'' = ''2''"
  using registration [of "[(''a'', ''1''), (''b'', ''2'')]" "\<lambda>_. ''r''" 2 1]
  by (simp del: register_all.simps add: numeral_2_eq_2)

text \<open>
  \<^verbatim>\<open>UpdateIMDInfo\<close> appends the \<open>k\<close>-th file name, with the address of the sender, to the \<open>k\<close>-th
  reduce task and changes nothing else; with more file names than reduce tasks it panics.
\<close>

theorem UpdateIMDInfo_result:
  "if length (ReduceTasks ms) < length filenames
   then UpdateIMDInfo u filenames ms = Panics IndexOutOfRange
   else \<exists>rts. UpdateIMDInfo u filenames ms = Done (ms\<lparr>ReduceTasks := rts\<rparr>) \<and>
     length rts = length (ReduceTasks ms) \<and>
     (\<forall>k < length rts. IMDs (rts ! k) = IMDs (ReduceTasks ms ! k) @
        (if k < length filenames then [\<lparr>imdIP = serviceDiscovey ms u, imdFileName = filenames ! k\<rparr>] else []))"
  using UpdateIMDInfo_panics UpdateIMDInfo_eq by (cases "length (ReduceTasks ms) < length filenames") auto

theorem UpdateIMDInfo_result_witness:
  "\<exists>rts. UpdateIMDInfo ''u'' [''f''] (NewMaster (\<lambda>_. ''r'') 2 1) =
     Done ((NewMaster (\<lambda>_. ''r'') 2 1)\<lparr>ReduceTasks := rts\<rparr>) \<and>
     IMDs (rts ! 0) = [\<lparr>imdIP = [], imdFileName = ''f''\<rparr>]"
  using UpdateIMDInfo_result [of "NewMaster (\<lambda>_. ''r'') 2 1" "[''f'']" "''u''"]
  by (auto simp: NewMaster_def newReduceTasks_def newReduceTask_def serviceDiscovey_def)

end
