(* ===== verification/Runtime.thy ===== *)
theory Runtime
  imports Master_State Worker_Node Go_Ints Go_Paths
begin

text \<open>
  The processes around a job: the entry points and ports of \<^verbatim>\<open>util.go\<close>, \<^verbatim>\<open>singleMachine.go\<close>, \<^verbatim>\<open>masterNode.go\<close> and
  \<^verbatim>\<open>workerNode.go\<close>, the remote calls of the master (\<^verbatim>\<open>master/rpcClient.go\<close>), the registration of a worker
  (\<^verbatim>\<open>worker/rpcClient.go\<close>, \<^verbatim>\<open>worker/mainInterface.go\<close>) and the end of the workers. What a network call answers is a
  parameter.
\<close>

subsection \<open>Ports\<close>

text \<open>\<^verbatim>\<open>net.SplitHostPort\<close>: the port, \<open>None\<close> for its errors.\<close>

definition last_colon :: "string \<Rightarrow> nat option" where
  "last_colon s = (if CHR '':'' \<in> set s then Some (length s - 1 - length (takeWhile (\<lambda>c. c \<noteq> CHR '':'') (rev s))) else None)"

definition first_index :: "char \<Rightarrow> string \<Rightarrow> nat option" where
  "first_index c s = (if c \<in> set s then Some (length (takeWhile (\<lambda>x. x \<noteq> c) s)) else None)"

definition split_port :: "string \<Rightarrow> string option" where
  "split_port s =
     (case last_colon s of
        None \<Rightarrow> None
      | Some i \<Rightarrow>
          (if hd s = CHR ''['' then
             (case first_index (CHR '']'') s of
                None \<Rightarrow> None
              | Some e \<Rightarrow>
                  (if e + 1 \<noteq> i \<or> CHR ''['' \<in> set (drop 1 s) \<or> CHR '']'' \<in> set (drop (e + 1) s) then None
                   else Some (drop (i + 1) s)))
           else if CHR '':'' \<in> set (take i s) \<or> CHR ''['' \<in> set s \<or> CHR '']'' \<in> set s then None
           else Some (drop (i + 1) s)))"

definition masterPort :: "string \<Rightarrow> int" where
  "masterPort masterAddr =
     (let raw = trim_space masterAddr in
      if raw = [] then 10000
      else (let raw1 = (if has_prefix raw '':'' then ''127.0.0.1'' @ raw else raw);
                portStr = (case split_port raw1 of
                             Some p \<Rightarrow> p
                           | None \<Rightarrow> trim_space (last (split_on (CHR '':'') raw1)))
            in case parse_int (trim_space portStr) of (p, None) \<Rightarrow> (if 0 < p then p else 10000) | _ \<Rightarrow> 10000))"

text \<open>The candidate ports of worker \<open>i0\<close> of \<open>nWorker\<close>, and the address of one attempt.\<close>

definition worker_start :: "int \<Rightarrow> nat \<Rightarrow> int" where
  "worker_start basePort i0 = wrap64 (basePort + int i0 + 1)"

definition attempt_port :: "int \<Rightarrow> int \<Rightarrow> nat \<Rightarrow> int" where
  "attempt_port startPort step i = wrap64 (startPort + int i * step)"

definition port_addr :: "int \<Rightarrow> addr" where
  "port_addr p = '':'' @ itoa p"

subsection \<open>Starting workers\<close>

definition in_use :: "string \<Rightarrow> bool" where
  "in_use msg = contains_sub msg ''address already in use''"

text \<open>
  \<open>once addr\<close> is \<^verbatim>\<open>startWorkerOnce\<close>: the error of a worker started on an address, \<open>None\<close> when it ran to its
  end. The loop has \<open>left\<close> attempts to go, the next has number \<open>i\<close>.
\<close>

fun retry_from :: "(addr \<Rightarrow> string option) \<Rightarrow> int \<Rightarrow> int \<Rightarrow> nat \<Rightarrow> nat \<Rightarrow> string option" where
  "retry_from once startPort step i 0 =
     Some (''unable to find available worker port from '' @ itoa startPort @ '' after 128 attempts'')"
| "retry_from once startPort step i (Suc left) =
     (case once (port_addr (attempt_port startPort step i)) of
        None \<Rightarrow> None
      | Some msg \<Rightarrow> (if in_use msg then retry_from once startPort step (i + 1) left else Some msg))"

definition startWorkerWithRetryE :: "(addr \<Rightarrow> string option) \<Rightarrow> int \<Rightarrow> int \<Rightarrow> string option" where
  "startWorkerWithRetryE once startPort step = retry_from once startPort (if step \<le> 0 then 1 else step) 0 128"

text \<open>
  The workers of one machine: the errors that the goroutines send; the function returns the first one
  received, in whatever order they come.
\<close>

definition worker_errors :: "(addr \<Rightarrow> string option) \<Rightarrow> string \<Rightarrow> nat \<Rightarrow> string list" where
  "worker_errors once masterAddr nWorker =
     List.map_filter (\<lambda>i. startWorkerWithRetryE once (worker_start (masterPort masterAddr) i) (int nWorker)) [0..<nWorker]"

definition startSingleMachineWorkerWithMaster :: "(addr \<Rightarrow> string option) \<Rightarrow> string \<Rightarrow> nat \<Rightarrow> int \<Rightarrow> string option \<Rightarrow> bool" where
  "startSingleMachineWorkerWithMaster once masterAddr nWorker nReducer res \<longleftrightarrow>
     (if int nWorker < nReducer then res = Some ''Need more worker!''
      else (let errs = worker_errors once masterAddr nWorker in
            if errs = [] then res = None else res \<in> Some ` set errs))"

definition startWorkerWithMaster :: "(addr \<Rightarrow> string option) \<Rightarrow> string \<Rightarrow> nat \<Rightarrow> string option" where
  "startWorkerWithMaster once masterAddr id0 = startWorkerWithRetryE once (worker_start (masterPort masterAddr) id0) 1"

text \<open>
  \<open>absf\<close> is \<^verbatim>\<open>filepath.Abs\<close> (its error is ignored) and \<open>master\<close> is \<^verbatim>\<open>master.StartMaster\<close> on the resolved inputs.
\<close>

definition startMasterWithAddr :: "(path \<Rightarrow> path) \<Rightarrow> (path list \<Rightarrow> unit outcome) \<Rightarrow> path list \<Rightarrow> string option outcome" where
  "startMasterWithAddr absf master inp =
     (case master (map absf inp) of Done _ \<Rightarrow> Done None | Panics p \<Rightarrow> Panics p | Blocks \<Rightarrow> Blocks)"

text \<open>
  The two goroutines of \<^verbatim>\<open>singleMachineJob\<close>: the master, which returns no error, panics, or runs forever,
  and the workers. The function waits for both.
\<close>

definition singleMachineJob :: "string option outcome \<Rightarrow> string option outcome \<Rightarrow> string option outcome" where
  "singleMachineJob ms ws =
     (case ms of
        Panics p \<Rightarrow> Panics p
      | Blocks \<Rightarrow> (case ws of Panics p \<Rightarrow> Panics p | _ \<Rightarrow> Blocks)
      | Done None \<Rightarrow> ws
      | Done (Some er) \<Rightarrow> (case ws of Done _ \<Rightarrow> Done (Some er) | _ \<Rightarrow> ws))"

definition StartSingleMachineJobWithAddr :: "path list \<Rightarrow> string option outcome \<Rightarrow> string option outcome \<Rightarrow> string option outcome" where
  "StartSingleMachineJobWithAddr inp ms ws = (if inp = [] then Done None else singleMachineJob ms ws)"

subsection \<open>Remote calls\<close>

text \<open>A remote call of the master: no connection, an error, or the reply. The clients turn errors into false.\<close>

datatype 'a rpc_answer = NoConn | RpcError string | Reply 'a

definition client_Map :: "bool rpc_answer \<Rightarrow> bool" where
  "client_Map a = (case a of Reply r \<Rightarrow> r | _ \<Rightarrow> False)"

definition client_Reduce :: "bool rpc_answer \<Rightarrow> bool" where
  "client_Reduce a = (case a of Reply r \<Rightarrow> r | _ \<Rightarrow> False)"

definition client_End :: "unit rpc_answer \<Rightarrow> bool" where
  "client_End a = (case a of Reply _ \<Rightarrow> True | _ \<Rightarrow> False)"

definition client_Health :: "int rpc_answer \<Rightarrow> int" where
  "client_Health a = (case a of Reply st \<Rightarrow> st | _ \<Rightarrow> 2)"

text \<open>\<^verbatim>\<open>time.Duration\<close> counts nanoseconds in 64 bits.\<close>

definition durationFromEnv :: "string \<Rightarrow> int \<Rightarrow> int" where
  "durationFromEnv raw def =
     (if raw = [] then def
      else (case parse_int raw of
              (secs, None) \<Rightarrow> (if secs \<le> 0 then def else wrap64 (secs * 1000000000))
            | _ \<Rightarrow> def))"

text \<open>\<^verbatim>\<open>endWorkers\<close> calls \<^verbatim>\<open>End\<close> on every worker in turn and ignores what they answer.\<close>

definition endWorkers :: "Master \<Rightarrow> addr list" where
  "endWorkers ms = map wiIP (Workers ms)"

subsection \<open>Registration\<close>

text \<open>
  What one attempt of the registration gets: an error with a status code (whether it is
  \<^verbatim>\<open>Unavailable\<close> or \<^verbatim>\<open>DeadlineExceeded\<close>) or without one, or the reply of the master.
\<close>

datatype reg_answer = StatusErr bool string | OtherErr string | RegReply bool int

fun register_loop :: "(nat \<Rightarrow> reg_answer) \<Rightarrow> nat \<Rightarrow> nat \<Rightarrow> string option \<Rightarrow> int result" where
  "register_loop ans i 0 lastErr =
     Inl (case lastErr of None \<Rightarrow> ''register worker rpc failed after retries'' | Some er \<Rightarrow> er)"
| "register_loop ans i (Suc left) lastErr =
     (case ans i of
        StatusErr retry msg \<Rightarrow>
          (if retry then register_loop ans (i + 1) left (Some (''register worker rpc failed: '' @ msg))
           else Inl (''register worker rpc failed: '' @ msg))
      | OtherErr msg \<Rightarrow> register_loop ans (i + 1) left (Some msg)
      | RegReply ok n \<Rightarrow>
          (if ok then Inr n else register_loop ans (i + 1) left (Some ''register worker rpc returned false'')))"

definition client_WorkerRegister :: "(nat \<Rightarrow> reg_answer) \<Rightarrow> int result" where
  "client_WorkerRegister ans = register_loop ans 0 40 None"

text \<open>
  \<^verbatim>\<open>StartWorker\<close>: listen, load the plugin, register, wait for the end. The errors are panics; \<open>load\<close> is what
  \<^verbatim>\<open>loadPlugin\<close> panics with.
\<close>

definition process_StartWorker :: "(addr \<Rightarrow> string option) \<Rightarrow> string option \<Rightarrow> (nat \<Rightarrow> reg_answer) \<Rightarrow> addr \<Rightarrow> Worker \<Rightarrow> Worker outcome" where
  "process_StartWorker listen load ans addr wr =
     (case listen addr of
        Some er \<Rightarrow> Panics (PanicErr er)
      | None \<Rightarrow>
          (case load of
             Some er \<Rightarrow> Panics (PanicErr er)
           | None \<Rightarrow>
               (case client_WorkerRegister ans of
                  Inl er \<Rightarrow> Panics (PanicErr er)
                | Inr n \<Rightarrow> Done (setID n wr))))"

text \<open>\<^verbatim>\<open>startWorkerOnce\<close>: the panic is recovered into an error.\<close>

definition startWorkerOnce :: "Worker outcome \<Rightarrow> string option outcome" where
  "startWorkerOnce o1 =
     (case o1 of
        Done _ \<Rightarrow> Done None
      | Panics (PanicErr er) \<Rightarrow> Done (Some er)
      | Panics IndexOutOfRange \<Rightarrow> Done (Some ''index out of range'')
      | Panics DivideByZero \<Rightarrow> Done (Some ''integer divide by zero'')
      | Panics MakeSliceOutOfRange \<Rightarrow> Done (Some ''makeslice: len out of range'')
      | Panics SendOnClosedChannel \<Rightarrow> Done (Some ''send on closed channel'')
      | Panics NilTypeAssertion \<Rightarrow> Done (Some ''interface conversion'')
      | Blocks \<Rightarrow> Blocks)"

text \<open>
  \<^verbatim>\<open>loadPlugin\<close>: whether the file is missing, the error of opening it, and what a name is bound to: nothing, a
  value of another type, or the function. The result is the text of the panic.
\<close>

datatype plugin_symbol = NoSymbol string | OtherType | Function

definition loadPlugin :: "string option \<Rightarrow> string option \<Rightarrow> (string \<Rightarrow> plugin_symbol) \<Rightarrow> string option" where
  "loadPlugin missing opened lookup =
     (case missing of
        Some er \<Rightarrow> Some er
      | None \<Rightarrow>
          (case opened of
             Some er \<Rightarrow> Some er
           | None \<Rightarrow>
               (case lookup ''Map'' of
                  NoSymbol er \<Rightarrow> Some er
                | OtherType \<Rightarrow> Some ''interface conversion''
                | Function \<Rightarrow>
                    (case lookup ''Reduce'' of
                       NoSymbol er \<Rightarrow> Some er | OtherType \<Rightarrow> Some ''interface conversion'' | Function \<Rightarrow> None))))"

text \<open>The report of the intermediate files to the master: everything but a positive reply panics.\<close>

definition client_UpdateIMDInfo :: "bool rpc_answer \<Rightarrow> bool outcome" where
  "client_UpdateIMDInfo a =
     (case a of
        NoConn \<Rightarrow> Panics (PanicErr ''Unavailable'')
      | RpcError msg \<Rightarrow> Panics (PanicErr msg)
      | Reply r \<Rightarrow> (if r then Done True else Panics (PanicErr ''Update IMD Info Error'')))"

text \<open>
  \<^verbatim>\<open>ParseArg\<close> once the flags are parsed: the patterns of the inputs and of the plugin are expanded; the
  errors end the process with status 2. The result has the inputs, the plugin and the address of the master.
\<close>

fun expand_inputs :: "(string \<Rightarrow> path list result) \<Rightarrow> string list \<Rightarrow> path list result" where
  "expand_inputs glb [] = Inr []"
| "expand_inputs glb (f # fs) =
     (case glb f of
        Inl er \<Rightarrow> Inl (''expand input pattern '' @ f @ '' failed: '' @ er)
      | Inr xs \<Rightarrow> bind_result (expand_inputs glb fs) (\<lambda>ys. Inr (xs @ ys)))"

definition ParseArg :: "(string \<Rightarrow> path list result) \<Rightarrow> string list \<Rightarrow> string \<Rightarrow> int \<Rightarrow> (path list \<times> path \<times> addr) result" where
  "ParseArg glb files plugin port =
     bind_result (expand_inputs glb files) (\<lambda>inp.
       case glb plugin of
         Inl er \<Rightarrow> Inl (''expand plugin path '' @ plugin @ '' failed: '' @ er)
       | Inr ps \<Rightarrow> (if ps = [] then Inl (''plugin file not found for pattern '' @ plugin) else Inr (inp, hd ps, port_addr port)))"

text \<open>\<^verbatim>\<open>lineNums\<close> of the master: the number of lines before one that is too long; a file that cannot be opened panics.\<close>

definition lineNums :: "fs \<Rightarrow> path \<Rightarrow> nat outcome" where
  "lineNums d p = (case d p of None \<Rightarrow> Panics (PanicErr (''open '' @ p)) | Some s \<Rightarrow> Done (length (fst (scan_lines s))))"

subsection \<open>Entry points\<close>

text \<open>The exported functions without a result panic with the error of the function that they call.\<close>

definition or_panic :: "string option outcome \<Rightarrow> unit outcome" where
  "or_panic o1 =
     (case o1 of Done None \<Rightarrow> Done () | Done (Some er) \<Rightarrow> Panics (PanicErr er) | Panics p \<Rightarrow> Panics p | Blocks \<Rightarrow> Blocks)"

definition StartSingleMachineJob :: "path list \<Rightarrow> string option outcome \<Rightarrow> string option outcome \<Rightarrow> unit outcome" where
  "StartSingleMachineJob inp ms ws = or_panic (StartSingleMachineJobWithAddr inp ms ws)"

definition startSingleMachineWorker :: "(addr \<Rightarrow> string option) \<Rightarrow> addr \<Rightarrow> nat \<Rightarrow> int \<Rightarrow> unit outcome \<Rightarrow> bool" where
  "startSingleMachineWorker once MasterIP nWorker nReducer out \<longleftrightarrow>
     (\<exists>res. startSingleMachineWorkerWithMaster once MasterIP nWorker nReducer res \<and> out = or_panic (Done res))"

definition startMaster :: "(path \<Rightarrow> path) \<Rightarrow> (path list \<Rightarrow> unit outcome) \<Rightarrow> path list \<Rightarrow> unit outcome" where
  "startMaster absf master inp = or_panic (startMasterWithAddr absf master inp)"

definition startWorker :: "(addr \<Rightarrow> string option) \<Rightarrow> addr \<Rightarrow> nat \<Rightarrow> unit outcome" where
  "startWorker once MasterIP id0 = or_panic (Done (startWorkerWithMaster once MasterIP id0))"

definition startWorkerWithRetry :: "(addr \<Rightarrow> string option) \<Rightarrow> int \<Rightarrow> int \<Rightarrow> unit outcome" where
  "startWorkerWithRetry once startPort step = or_panic (Done (startWorkerWithRetryE once startPort step))"

text \<open>
  The nodes of several machines. \<open>master a\<close> is \<^verbatim>\<open>master.StartMaster\<close> on the address \<open>a\<close>; the plugin and the flag for the memory are
  not used by the master, and a worker node takes its number from the argument that is the number of workers elsewhere.
\<close>

definition StartMasterWithAddr :: "(path \<Rightarrow> path) \<Rightarrow> (addr \<Rightarrow> path list \<Rightarrow> unit outcome) \<Rightarrow> path list \<Rightarrow> addr \<Rightarrow> string option outcome" where
  "StartMasterWithAddr absf master inp masterAddr = startMasterWithAddr absf (master masterAddr) inp"

definition node_StartMaster :: "(path \<Rightarrow> path) \<Rightarrow> (addr \<Rightarrow> path list \<Rightarrow> unit outcome) \<Rightarrow> path list \<Rightarrow> addr \<Rightarrow> unit outcome" where
  "node_StartMaster absf master inp MasterIP = or_panic (StartMasterWithAddr absf master inp MasterIP)"

definition StartWorkerWithAddr :: "(addr \<Rightarrow> string option) \<Rightarrow> nat \<Rightarrow> addr \<Rightarrow> string option" where
  "StartWorkerWithAddr once nWorker masterAddr = startWorkerWithMaster once masterAddr nWorker"

definition node_StartWorker :: "(addr \<Rightarrow> string option) \<Rightarrow> nat \<Rightarrow> addr \<Rightarrow> unit outcome" where
  "node_StartWorker once nWorker MasterIP = or_panic (Done (StartWorkerWithAddr once nWorker MasterIP))"

text \<open>
  The flags of a job and their defaults. \<open>cobra\<close> is the flag parser: an error, or the flags with whether the body of the command
  ran (it does not for \<^verbatim>\<open>--help\<close>). An error of the parser ends the process with status 1, one of the body with status 2.
\<close>

record job_flags =
  jfFiles :: "string list"
  jfPlugin :: string
  jfReducer :: int
  jfWorker :: int
  jfPort :: int
  jfInRAM :: bool

definition default_flags :: job_flags where
  "default_flags = \<lparr>jfFiles = [], jfPlugin = [], jfReducer = 1, jfWorker = 4, jfPort = 10000, jfInRAM = True\<rparr>"

definition parse_flags :: "(job_flags \<Rightarrow> (job_flags \<times> bool) result) \<Rightarrow> (string \<Rightarrow> path list result) \<Rightarrow> addr \<Rightarrow>
    (int \<times> string) + (path list \<times> path \<times> int \<times> int \<times> bool \<times> addr)" where
  "parse_flags cobra glb MasterIP =
     (case cobra default_flags of
        Inl er \<Rightarrow> Inl (1, er)
      | Inr (fl, body) \<Rightarrow>
          (if \<not> body then Inr (jfFiles fl, jfPlugin fl, jfReducer fl, jfWorker fl, jfInRAM fl, MasterIP)
           else (case ParseArg glb (jfFiles fl) (jfPlugin fl) (jfPort fl) of
                   Inl er \<Rightarrow> Inl (2, er)
                 | Inr (inp, plugin, ip) \<Rightarrow> Inr (inp, plugin, jfReducer fl, jfWorker fl, jfInRAM fl, ip))))"

subsection \<open>Ports are what they look like\<close>

lemma last_split_on:
  assumes "c \<notin> set b"
  shows "last (split_on c (a @ c # b)) = b"
proof -
  have "split_on c (a @ c # b) = split_on c a @ [b]" using assms split_on_append_sep [of c a b] by (simp add: split_on_no_sep)
  then show ?thesis by simp
qed

lemma last_colon_append:
  assumes "CHR '':'' \<notin> set b"
  shows "last_colon (a @ CHR '':'' # b) = Some (length a)"
proof -
  have "takeWhile (\<lambda>c. c \<noteq> CHR '':'') (rev b @ CHR '':'' # rev a) = rev b"
    using assms by (subst takeWhile_append2) auto
  then show ?thesis by (simp add: last_colon_def)
qed

lemma last_colon_drop:
  assumes "last_colon s = Some i"
  shows "drop (i + 1) s = last (split_on (CHR '':'') s)"
proof -
  have "CHR '':'' \<in> set s" using assms by (auto simp: last_colon_def split: if_splits)
  then obtain a b where ab: "s = a @ CHR '':'' # b" "CHR '':'' \<notin> set b" by (meson split_list_last)
  then have "i = length a" using assms by (simp add: last_colon_append)
  then show ?thesis using ab by (simp add: last_split_on)
qed

lemma split_port_last: "split_port s = Some p \<Longrightarrow> p = last (split_on (CHR '':'') s)"
  using last_colon_drop by (auto simp: split_port_def split: option.splits if_splits)

lemma colon_plain: "plain (CHR '':'')"
  by (simp add: plain_def ascii_def ascii_space_def)

lemma itoa_no_colon: "CHR '':'' \<notin> set (itoa p)"
proof -
  have "CHR '':'' \<notin> set (show_nat n)" for n using bspec [OF show_nat_digits, of "CHR '':''" n] by (auto simp: is_digit_def)
  then show ?thesis by (simp add: itoa_def)
qed

lemma last_split_addr: "last (split_on (CHR '':'') (a @ CHR '':'' # itoa p)) = itoa p"
  by (simp add: last_split_on itoa_no_colon)

lemma port_text:
  assumes "last (split_on (CHR '':'') r) = itoa p"
  shows "trim_space (case split_port r of Some q \<Rightarrow> q | None \<Rightarrow> trim_space (last (split_on (CHR '':'') r))) = itoa p"
  using assms split_port_last [of r] by (auto split: option.split simp: trim_space_itoa)

lemma itoa_inj: "int64 p \<Longrightarrow> int64 q \<Longrightarrow> itoa p = itoa q \<Longrightarrow> p = q"
  by (metis atoi_itoa prod.inject)

text \<open>
  The port of an address: \<^verbatim>\<open>masterPort\<close> reads the number after the last colon, whatever the host part is,
  bare ports and bracketed IPv6 hosts included, so workers count their ports from the port the master
  listens on.
\<close>

theorem masterPort_reads:
  assumes "\<forall>c \<in> set host. plain c" "0 < p" "int64 p"
  shows "masterPort (host @ '':'' @ itoa p) = p"
proof -
  define raw where "raw = host @ '':'' @ itoa p"
  define raw1 where "raw1 = (if has_prefix raw '':'' then ''127.0.0.1'' @ raw else raw)"
  have t: "trim_space raw = raw" unfolding raw_def using assms(1) itoa_plain [of p] colon_plain by (intro trim_space_plain) auto
  have "last (split_on (CHR '':'') raw1) = itoa p"
    using last_split_addr [of "''127.0.0.1'' @ host" p] last_split_addr [of host p] by (simp add: raw1_def raw_def)
  note port = port_text [OF this]
  have "raw \<noteq> []" by (simp add: raw_def)
  then have "masterPort raw = p"
    unfolding masterPort_def Let_def t raw1_def [symmetric] port using assms(2,3) by (simp add: atoi_itoa)
  then show ?thesis by (simp add: raw_def)
qed

theorem masterPort_reads_witness: "masterPort ''[::1]:10000'' = 10000"
proof -
  have "itoa 10000 = ''10000''" by (simp add: itoa_def show_nat.simps digit_char_def char_of_def bit_0)
  then show ?thesis
    using masterPort_reads [of "''[::1]''" 10000] by (simp add: plain_def ascii_def ascii_space_def int64_def)
qed

lemma attempt_port_exact:
  assumes "0 < b" "b \<le> 65535" "n \<le> 65536" "i < n" "k < 128"
  shows "attempt_port (worker_start b i) (int n) k = b + 1 + int (i + k * n)"
proof -
  have "int k * int n \<le> 128 * 65536" using assms by (intro mult_mono) auto
  moreover have "0 \<le> int k * int n" by simp
  ultimately have "int64 (b + 1 + int i + int k * int n)" using assms by (simp add: int64_def)
  moreover have "int64 (b + int i + 1)" using assms by (simp add: int64_def)
  ultimately show ?thesis by (simp add: attempt_port_def worker_start_def wrap64_id algebra_simps)
qed

lemma attempt_code_inj: "i < n \<Longrightarrow> j < n \<Longrightarrow> i + k * n = j + l * n \<Longrightarrow> i = j \<and> k = l" for n :: nat
  by (metis add_cancel_right_right div_mult_self1 div_less mod_less mod_mult_self1 add_left_cancel bot_nat_0.extremum_strict)

text \<open>
  C37. The candidate ports of the workers of one machine: no two workers of a job ever try the same address,
  no worker tries one twice, and none tries the port of the master, as the comment of the code promises.
\<close>

theorem worker_ports_disjoint:
  assumes "0 < b" "b \<le> 65535" "n \<le> 65536" "i < n" "j < n" "k < 128" "l < 128"
  shows "(port_addr (attempt_port (worker_start b i) (int n) k) = port_addr (attempt_port (worker_start b j) (int n) l)
            \<longleftrightarrow> i = j \<and> k = l) \<and>
         port_addr (attempt_port (worker_start b i) (int n) k) \<noteq> port_addr b"
proof -
  have r: "int64 (attempt_port x y z)" for x y z by (simp add: attempt_port_def wrap64_range)
  have b: "int64 b" using assms by (simp add: int64_def)
  note e = attempt_port_exact [OF assms(1,2,3,4,6)] attempt_port_exact [OF assms(1,2,3,5,7)]
  have "i = j \<and> k = l"
    if "port_addr (attempt_port (worker_start b i) (int n) k) = port_addr (attempt_port (worker_start b j) (int n) l)"
  proof -
    have "attempt_port (worker_start b i) (int n) k = attempt_port (worker_start b j) (int n) l"
      using that itoa_inj [OF r r] by (simp add: port_addr_def)
    then have "int (i + k * n) = int (j + l * n)" unfolding e by simp
    then have "i + k * n = j + l * n" unfolding of_nat_eq_iff .
    then show ?thesis by (rule attempt_code_inj [OF assms(4,5)])
  qed
  moreover have "port_addr (attempt_port (worker_start b i) (int n) k) \<noteq> port_addr b"
  proof
    assume "port_addr (attempt_port (worker_start b i) (int n) k) = port_addr b"
    then have "attempt_port (worker_start b i) (int n) k = b" using itoa_inj [OF r b] by (simp add: port_addr_def)
    then show False unfolding e by (metis add.assoc add_cancel_left_right of_nat_0_le_iff zle_add1_eq_le less_irrefl add_0 add.commute)
  qed
  ultimately show ?thesis by blast
qed

theorem worker_ports_disjoint_witness:
  "port_addr (attempt_port (worker_start 10000 0) 2 1) \<noteq> port_addr (attempt_port (worker_start 10000 1) 2 0)"
  using worker_ports_disjoint [of 10000 2 0 1 1 0] by simp

subsection \<open>Attempts\<close>

text \<open>An attempt that found its port taken.\<close>

definition port_taken :: "(addr \<Rightarrow> string option) \<Rightarrow> int \<Rightarrow> int \<Rightarrow> nat \<Rightarrow> bool" where
  "port_taken once startPort step k = (case once (port_addr (attempt_port startPort step k)) of None \<Rightarrow> False | Some msg \<Rightarrow> in_use msg)"

lemma retry_from_taken:
  "(\<forall>k < left. port_taken once a st (i + k)) \<Longrightarrow> retry_from once a st i left = retry_from once a st (i + left) 0"
proof (induction "left" arbitrary: i)
  case (Suc m)
  have "port_taken once a st i" using Suc.prems by (auto dest: spec [of _ 0])
  moreover have "\<forall>k < m. port_taken once a st (Suc i + k)" using Suc.prems by (metis Suc_less_eq add_Suc add_Suc_right)
  ultimately show ?case using Suc.IH [of "Suc i"] by (auto simp: port_taken_def split: option.splits)
qed simp

lemma retry_from_free:
  "(\<forall>k < m. port_taken once a st (i + k)) \<Longrightarrow> \<not> port_taken once a st (i + m) \<Longrightarrow> m < left \<Longrightarrow>
   retry_from once a st i left = once (port_addr (attempt_port a st (i + m)))"
proof (induction m arbitrary: i "left")
  case 0
  then show ?case by (cases "left") (auto simp: port_taken_def split: option.splits)
next
  case (Suc m)
  then obtain l where l: "left = Suc l" "m < l" by (cases "left") auto
  have "port_taken once a st i" using Suc.prems(1) by (auto dest: spec [of _ 0])
  moreover have "\<forall>k < m. port_taken once a st (Suc i + k)" using Suc.prems(1) by (metis Suc_less_eq add_Suc add_Suc_right)
  moreover have "\<not> port_taken once a st (Suc i + m)" using Suc.prems(2) by simp
  ultimately show ?case using Suc.IH [of "Suc i" l] l by (auto simp: port_taken_def split: option.splits)
qed

text \<open>
  The attempts of one worker: the outcome is that of the first of its 128 ports that is not taken, and only
  when all are taken the error that no port was found.
\<close>

theorem startWorkerWithRetryE_first:
  assumes "0 < step"
  shows "startWorkerWithRetryE once startPort step =
     (if list_all (port_taken once startPort step) [0..<128]
      then Some (''unable to find available worker port from '' @ itoa startPort @ '' after 128 attempts'')
      else once (port_addr (attempt_port startPort step (hd (dropWhile (port_taken once startPort step) [0..<128])))))"
proof (cases "\<forall>k < 128. port_taken once startPort step k")
  case True
  then show ?thesis using assms retry_from_taken [of 128 once startPort step 0]
    by (auto simp: startWorkerWithRetryE_def list_all_iff simp del: upt_rec_numeral)
next
  case False
  define m where "m = (LEAST k. \<not> port_taken once startPort step k)"
  have m: "\<not> port_taken once startPort step m" "m < 128" "\<forall>k < m. port_taken once startPort step k"
  proof -
    obtain k where k: "k < 128" "\<not> port_taken once startPort step k" using False by blast
    show "\<not> port_taken once startPort step m" unfolding m_def using k(2) by (rule LeastI)
    show "m < 128" unfolding m_def using Least_le [of "\<lambda>k. \<not> port_taken once startPort step k", OF k(2)] k(1) by simp
    show "\<forall>k < m. port_taken once startPort step k" unfolding m_def using not_less_Least by blast
  qed
  have u: "[0..<128] = [0..<m] @ m # [Suc m..<128]" using m(2) upt_add_eq_append [of 0 m "128 - m"] by (simp add: upt_conv_Cons)
  have "hd (dropWhile (port_taken once startPort step) [0..<128]) = m"
    unfolding u using m(1,3) by (subst dropWhile_append2) auto
  then show ?thesis using assms False m retry_from_free [of m once startPort step 0 128]
    by (auto simp: startWorkerWithRetryE_def list_all_iff simp del: upt_rec_numeral)
qed

definition busy_port :: "addr \<Rightarrow> string option" where
  "busy_port a = (if a = '':11'' then Some ''listen tcp :11: bind: address already in use'' else None)"

theorem startWorkerWithRetryE_first_witness:
  "startWorkerWithRetryE busy_port 11 2 =
     (if list_all (port_taken busy_port 11 2) [0..<128]
      then Some (''unable to find available worker port from '' @ itoa 11 @ '' after 128 attempts'')
      else busy_port (port_addr (attempt_port 11 2 (hd (dropWhile (port_taken busy_port 11 2) [0..<128])))))"
  by (rule startWorkerWithRetryE_first) simp



text \<open>What an attempt to register gets that makes the loop try again.\<close>

definition try_again :: "reg_answer \<Rightarrow> bool" where
  "try_again a = (case a of StatusErr retry _ \<Rightarrow> retry | OtherErr _ \<Rightarrow> True | RegReply ok _ \<Rightarrow> \<not> ok)"

lemma register_loop_step:
  "register_loop ans i (Suc left) er =
     (if try_again (ans i) then register_loop ans (i + 1) left
        (Some (case ans i of StatusErr _ msg \<Rightarrow> ''register worker rpc failed: '' @ msg | OtherErr msg \<Rightarrow> msg
               | RegReply _ _ \<Rightarrow> ''register worker rpc returned false''))
      else (case ans i of RegReply _ n \<Rightarrow> Inr n | StatusErr _ msg \<Rightarrow> Inl (''register worker rpc failed: '' @ msg) | OtherErr msg \<Rightarrow> Inl msg))"
  by (simp add: try_again_def split: reg_answer.split)

lemma register_loop_Inr:
  "register_loop ans i left er = Inr n \<longleftrightarrow> (\<exists>k < left. ans (i + k) = RegReply True n \<and> (\<forall>j < k. try_again (ans (i + j))))"
proof (induction "left" arbitrary: i er)
  case (Suc m)
  show ?case
  proof (cases "try_again (ans i)")
    case True
    then have no: "ans i \<noteq> RegReply True n" by (auto simp: try_again_def)
    have "register_loop ans i (Suc m) er = Inr n \<longleftrightarrow>
        (\<exists>k < m. ans (Suc i + k) = RegReply True n \<and> (\<forall>j < k. try_again (ans (Suc i + j))))"
      unfolding register_loop_step using True Suc.IH [of "Suc i"] by simp
    also have "\<dots> \<longleftrightarrow> (\<exists>k < Suc m. ans (i + k) = RegReply True n \<and> (\<forall>j < k. try_again (ans (i + j))))"
      using True no by (auto simp: Ex_less_Suc2 All_less_Suc2)
    finally show ?thesis .
  next
    case False
    have "(\<exists>k < Suc m. ans (i + k) = RegReply True n \<and> (\<forall>j < k. try_again (ans (i + j)))) \<longleftrightarrow> ans i = RegReply True n"
      using False by (auto simp: Ex_less_Suc2 All_less_Suc2)
    then show ?thesis unfolding register_loop_step using False by (auto simp: try_again_def split: reg_answer.splits)
  qed
qed simp

text \<open>
  Registration of a worker: it gets the number of the first positive reply among 40 attempts, when everything
  before it was a refusal, an error without a status, or a master that was unavailable or too slow; any other
  status ends it at once.
\<close>

theorem client_WorkerRegister_first:
  "client_WorkerRegister ans = Inr n \<longleftrightarrow>
     (\<exists>k < 40. ans k = RegReply True n \<and> list_all (\<lambda>j. try_again (ans j)) [0..<k])"
  using register_loop_Inr [of ans 0 40 None n] by (auto simp: client_WorkerRegister_def list_all_iff)

text \<open>
  Time limits from the environment: up to 9223372036 seconds the limit is exact; a larger one wraps
  around, and ten billion seconds become a negative duration, a limit that has passed before the call starts.
\<close>

theorem durationFromEnv_exact:
  assumes "0 < secs" "int64 secs"
  shows "durationFromEnv (itoa secs) d = secs * 1000000000 \<longleftrightarrow> secs \<le> 9223372036"
proof
  assume "durationFromEnv (itoa secs) d = secs * 1000000000"
  then have "wrap64 (secs * 1000000000) = secs * 1000000000" using assms by (simp add: durationFromEnv_def atoi_itoa)
  then have "int64 (secs * 1000000000)" by (metis wrap64_range)
  then show "secs \<le> 9223372036" by (simp add: int64_def)
next
  assume "secs \<le> 9223372036"
  then have "int64 (secs * 1000000000)" using assms by (simp add: int64_def)
  then show "durationFromEnv (itoa secs) d = secs * 1000000000" using assms by (simp add: durationFromEnv_def atoi_itoa wrap64_id)
qed

theorem durationFromEnv_exact_witness:
  "durationFromEnv (itoa 30) 5 = 30 * 1000000000 \<and> durationFromEnv (itoa 10000000000) 5 \<noteq> 10000000000 * 1000000000"
  using durationFromEnv_exact [of 30 5] durationFromEnv_exact [of 10000000000 5] by (simp add: int64_def)

lemma expand_inputs_all: "\<forall>f \<in> set fs. glb f = Inr (xs f) \<Longrightarrow> expand_inputs glb fs = Inr (concat (map xs fs))"
  by (induction fs) auto

text \<open>
  Patterns that match nothing are not an error: the job then has no input and ends at once with a success,
  whatever the master and the workers would do.
\<close>

theorem no_input_succeeds:
  assumes "\<forall>f \<in> set fs. glb f = Inr []" "glb plugin = Inr (p # ps)"
  shows "\<exists>inp. ParseArg glb fs plugin port = Inr (inp, p, port_addr port) \<and> StartSingleMachineJobWithAddr inp ms ws = Done None"
  using expand_inputs_all [of fs glb "\<lambda>_. []"] assms by (simp add: ParseArg_def StartSingleMachineJobWithAddr_def)

subsection \<open>Worker nodes\<close>

text \<open>
  The workers of one machine have disjoint candidates; worker nodes do not: node \<open>i\<close> goes on, after \<open>j - i\<close> taken ports, to the first port
  of node \<open>j\<close>.
\<close>

lemma node_ports_overlap:
  assumes "i < j" "j - i < 128" "\<forall>k < j - i. \<exists>msg. once (port_addr (attempt_port (worker_start (masterPort a) i) 1 k)) = Some msg \<and> in_use msg"
    and "once (port_addr (worker_start (masterPort a) j)) = None"
  shows "startWorkerWithMaster once a i = None"
proof -
  have port: "attempt_port (worker_start b i) 1 (j - i) = worker_start b j" for b
  proof -
    have "wrap64 (wrap64 (b + int i + 1) + int (j - i)) = wrap64 (b + int j + 1)"
      using assms(1) wrap64_add_left [of "b + int i + 1" "int (j - i)"] by (simp add: algebra_simps)
    then show ?thesis by (simp add: attempt_port_def worker_start_def)
  qed
  have "retry_from once p 1 k (128 - k) = None"
    if p: "p = worker_start (masterPort a) i" and "k \<le> j - i" for k p
    using that(2)
  proof (induction "j - i - k" arbitrary: k)
    case 0
    then have k: "k = j - i" by simp
    then obtain n where "128 - k = Suc n" using assms(2) by (cases "128 - k") auto
    then show ?case using assms(4) port [of "masterPort a"] p k by simp
  next
    case (Suc d)
    then have k: "k < j - i" by simp
    then obtain msg where "once (port_addr (attempt_port p 1 k)) = Some msg" "in_use msg" using assms(3) p by blast
    moreover have "128 - k = Suc (128 - Suc k)" using k assms(2) by simp
    moreover have "retry_from once p 1 (Suc k) (128 - Suc k) = None"
      by (rule Suc.hyps(1)) (use Suc.hyps(2) k in simp_all)
    ultimately show ?case by simp
  qed
  from this [of _ 0] show ?thesis by (simp add: startWorkerWithMaster_def startWorkerWithRetryE_def)
qed

text \<open>\<^verbatim>\<open>--help\<close> prints the usage, and the program then runs a job without input, which returns at once.\<close>

lemma help_runs_nothing:
  assumes "cobra default_flags = Inr (default_flags, False)"
  shows "parse_flags cobra glb ip = Inr ([], [], 1, 4, True, ip) \<and> StartSingleMachineJob [] ms ws = Done ()"
  using assms by (simp add: parse_flags_def default_flags_def StartSingleMachineJob_def StartSingleMachineJobWithAddr_def or_panic_def)

end
