(* ===== verification/Find_Workers.thy ===== *)
theory Find_Workers
  imports Master_State
begin

text \<open>
  The search for idle workers (\<^verbatim>\<open>availableWorkers\<close> of \<^verbatim>\<open>master/master.go\<close>). The search makes passes
  over the table, marks the idle workers it meets as busy, and stops inside a pass once it has
  enough; the goroutines of the running tasks change the marks of workers meanwhile. What they
  do between two passes is a parameter, the number of passes is bounded by fuel.
\<close>

subsection \<open>One pass\<close>

record pass_st =
  pWorkers :: "WorkerInfo list"
  picked :: "nat list"
  broken :: nat
  stopped :: bool

text \<open>The body of the inner loop at index \<open>i\<close>; \<open>stopped\<close> is the \<^verbatim>\<open>break LOOP\<close>.\<close>

definition pass_body :: "int \<Rightarrow> nat \<Rightarrow> pass_st \<Rightarrow> pass_st" where
  "pass_body num i s =
     (if stopped s then s
      else if num \<le> int (length (picked s)) then s\<lparr>stopped := True\<rparr>
      else if Health (pWorkers s ! i)
      then s\<lparr>picked := picked s @ [i],
             pWorkers := (pWorkers s)[i := SetState WORKER_BUSY (pWorkers s ! i)]\<rparr>
      else if Broken (pWorkers s ! i) then s\<lparr>broken := broken s + 1\<rparr>
      else s)"

definition scan_pass :: "int \<Rightarrow> WorkerInfo list \<Rightarrow> nat list \<Rightarrow> pass_st" where
  "scan_pass num ws ps =
     fold (pass_body num) [0..<length ws]
       \<lparr>pWorkers = ws, picked = ps, broken = 0, stopped = False\<rparr>"

text \<open>
  The outer loop. Only the \<^verbatim>\<open>break LOOP\<close> inside a pass ends it. \<open>others k\<close> is what the other
  goroutines do to the table after pass \<open>k\<close>; the sleep when every worker is broken changes nothing.
\<close>

fun availableWorkers ::
  "nat \<Rightarrow> (nat \<Rightarrow> WorkerInfo list \<Rightarrow> WorkerInfo list) \<Rightarrow> nat \<Rightarrow> int \<Rightarrow> WorkerInfo list \<Rightarrow> nat list \<Rightarrow>
   (nat list \<times> WorkerInfo list) option" where
  "availableWorkers 0 others k num ws ps = None"
| "availableWorkers (Suc fuel) others k num ws ps =
     (let s = scan_pass num ws ps
      in if stopped s then Some (picked s, pWorkers s)
         else availableWorkers fuel others (k + 1) num (others k (pWorkers s)) (picked s))"

subsection \<open>What a pass does\<close>

definition idle_idx :: "WorkerInfo list \<Rightarrow> nat \<Rightarrow> nat list" where
  "idle_idx ws m = filter (\<lambda>i. Health (ws ! i)) [0..<m]"

definition mark_busy :: "nat list \<Rightarrow> WorkerInfo list \<Rightarrow> WorkerInfo list" where
  "mark_busy is ws = fold (\<lambda>i ws. ws[i := SetState WORKER_BUSY (ws ! i)]) is ws"

lemma length_mark_busy [simp]: "length (mark_busy is ws) = length ws"
  unfolding mark_busy_def by (induction "is" arbitrary: ws) auto

lemma mark_busy_nth:
  "distinct is \<Longrightarrow> i < length ws \<Longrightarrow>
     mark_busy is ws ! i = (if i \<in> set is then SetState WORKER_BUSY (ws ! i) else ws ! i)"
  unfolding mark_busy_def
proof (induction "is" arbitrary: ws)
  case (Cons a as)
  then show ?case by (cases "i = a") auto
qed simp

lemma mark_busy_snoc: "mark_busy (is @ [i]) ws = (mark_busy is ws)[i := SetState WORKER_BUSY (mark_busy is ws ! i)]"
  by (simp add: mark_busy_def)

text \<open>
  After the indices below \<open>m\<close>: the picks are the old ones and the first idle indices, up to
  \<open>num\<close> in all; they are marked, nothing else is.
\<close>

lemma pass_prefix:
  fixes num :: int and ps :: "nat list" and ws :: "WorkerInfo list" and m :: nat
  assumes "m \<le> length ws"
  defines "s \<equiv> fold (pass_body num) [0..<m] \<lparr>pWorkers = ws, picked = ps, broken = 0, stopped = False\<rparr>"
  defines "new \<equiv> take (nat num - length ps) (idle_idx ws m)"
  shows "picked s = ps @ new \<and> pWorkers s = mark_busy new ws \<and>
    (stopped s \<longrightarrow> num \<le> int (length (picked s))) \<and>
    (\<not> stopped s \<longrightarrow> broken s \<le> m)"
  using assms(1) unfolding s_def new_def
proof (induction m)
  case 0
  then show ?case by (simp add: idle_idx_def mark_busy_def)
next
  case (Suc m)
  let ?s = "fold (pass_body num) [0..<m] \<lparr>pWorkers = ws, picked = ps, broken = 0, stopped = False\<rparr>"
  let ?new = "take (nat num - length ps) (idle_idx ws m)"
  have IH: "picked ?s = ps @ ?new" "pWorkers ?s = mark_busy ?new ws"
    "stopped ?s \<Longrightarrow> num \<le> int (length (picked ?s))" "\<not> stopped ?s \<Longrightarrow> broken ?s \<le> m"
    using Suc by auto
  have m: "m < length ws" using Suc.prems by simp
  have dist: "distinct ?new" by (simp add: idle_idx_def)
  have "m \<notin> set ?new" using set_take_subset [of _ "idle_idx ws m"] by (auto simp: idle_idx_def)
  then have wm: "pWorkers ?s ! m = ws ! m" using IH(2) mark_busy_nth [OF dist m] by simp
  have idle: "idle_idx ws (Suc m) = idle_idx ws m @ (if Health (ws ! m) then [m] else [])"
    by (simp add: idle_idx_def)
  define t where "t = ?s"
  have step: "fold (pass_body num) [0..<Suc m] \<lparr>pWorkers = ws, picked = ps, broken = 0, stopped = False\<rparr>
      = pass_body num m t" by (simp add: t_def)
  note IH = IH [folded t_def]
  note wm = wm [folded t_def]
  show ?case
  proof (cases "num \<le> int (length (picked t))")
    case True
    then have "nat num - length ps \<le> length ?new" using IH(1) by simp
    then have new': "take (nat num - length ps) (idle_idx ws (Suc m)) = ?new"
      using idle by auto
    have "picked (pass_body num m t) = picked t" "pWorkers (pass_body num m t) = pWorkers t"
      "broken (pass_body num m t) = broken t" "stopped (pass_body num m t)"
      using True by (auto simp: pass_body_def)
    then show ?thesis unfolding step new' using True IH(1,2) by simp
  next
    case False
    then have "length ?new < nat num - length ps" using IH(1) by simp
    then have all: "?new = idle_idx ws m" "length (idle_idx ws m) < nat num - length ps" by simp_all
    then have new': "take (nat num - length ps) (idle_idx ws (Suc m)) =
        ?new @ (if Health (ws ! m) then [m] else [])"
      using idle by (simp; arith)
    have "\<not> stopped t" using False IH(3) by blast
    moreover have "\<not> num \<le> int (length ps) + int (length (idle_idx ws m))" using all(2) by arith
    ultimately show ?thesis unfolding step new'
      using IH(1,2,4) wm by (simp add: pass_body_def mark_busy_snoc)
  qed
qed

lemma scan_pass_eq:
  "picked (scan_pass num ws ps) = ps @ take (nat num - length ps) (idle_idx ws (length ws))"
  "pWorkers (scan_pass num ws ps) = mark_busy (take (nat num - length ps) (idle_idx ws (length ws))) ws"
  "stopped (scan_pass num ws ps) \<Longrightarrow> num \<le> int (length (picked (scan_pass num ws ps)))"
  using pass_prefix [of "length ws" ws num ps] by (auto simp: scan_pass_def)

lemma pass_stopped_fold: "stopped s \<Longrightarrow> fold (pass_body num) xs s = s"
  by (induction xs) (auto simp: pass_body_def)

text \<open>A pass that begins with enough picks stops at once and changes nothing.\<close>

lemma scan_pass_full:
  assumes "num \<le> int (length ps)" "ws \<noteq> []"
  shows "stopped (scan_pass num ws ps)" "picked (scan_pass num ws ps) = ps"
    "pWorkers (scan_pass num ws ps) = ws"
proof -
  have "[0..<length ws] = 0 # [1..<length ws]" using assms(2) by (simp add: upt_conv_Cons)
  then have "scan_pass num ws ps =
      \<lparr>pWorkers = ws, picked = ps, broken = 0, stopped = True\<rparr>"
    using assms(1) by (simp add: scan_pass_def pass_body_def pass_stopped_fold)
  then show "stopped (scan_pass num ws ps)" "picked (scan_pass num ws ps) = ps"
    "pWorkers (scan_pass num ws ps) = ws" by simp_all
qed

subsection \<open>The search\<close>

text \<open>
  With enough idle workers the search takes the first \<open>num\<close> of them and returns within two
  passes, whatever the other goroutines do in between.
\<close>

lemma availableWorkers_enough:
  assumes ws: "ws \<noteq> []" and num: "nat num \<le> length (idle_idx ws (length ws))"
    and keep: "\<And>k vs. length (others k vs) = length vs" and fuel: "2 \<le> fuel"
  shows "\<exists>ws'. availableWorkers fuel others k num ws [] =
      Some (take (nat num) (idle_idx ws (length ws)), ws') \<and>
    (ws' = mark_busy (take (nat num) (idle_idx ws (length ws))) ws \<or>
     ws' = others k (mark_busy (take (nat num) (idle_idx ws (length ws))) ws))"
proof -
  let ?p = "take (nat num) (idle_idx ws (length ws))"
  obtain f where f: "fuel = Suc (Suc f)" using fuel by (cases fuel; cases "fuel - 1") auto
  show ?thesis
  proof (cases "stopped (scan_pass num ws [])")
    case True
    then have "availableWorkers fuel others k num ws [] =
        Some (picked (scan_pass num ws []), pWorkers (scan_pass num ws []))"
      by (simp add: f Let_def)
    then show ?thesis by (simp add: scan_pass_eq)
  next
    case False
    let ?v = "others k (mark_busy ?p ws)"
    have "num \<le> int (length ?p)" using num by simp
    moreover have "?v \<noteq> []" using ws keep by (metis length_0_conv length_mark_busy)
    ultimately have full: "stopped (scan_pass num ?v ?p)" "picked (scan_pass num ?v ?p) = ?p"
      "pWorkers (scan_pass num ?v ?p) = ?v"
      using scan_pass_full by blast+
    have first: "picked (scan_pass num ws []) = ?p" "pWorkers (scan_pass num ws []) = mark_busy ?p ws"
      by (simp_all add: scan_pass_eq)
    have "availableWorkers fuel others k num ws [] = Some (?p, ?v)"
      unfolding f availableWorkers.simps Let_def first full using False full(1) by (simp only: if_False if_True)
    then show ?thesis by blast
  qed
qed

text \<open>
  The search never returns while there are fewer picks than asked for and no worker becomes
  idle again.
\<close>

lemma availableWorkers_starved:
  assumes "int (length ps + length (idle_idx ws (length ws))) < num"
    and "\<And>k vs. others k vs = vs"
  shows "availableWorkers fuel others k num ws ps = None"
  using assms(1)
proof (induction fuel arbitrary: k ws ps)
  case (Suc fuel)
  let ?new = "take (nat num - length ps) (idle_idx ws (length ws))"
  have new: "?new = idle_idx ws (length ws)" using Suc.prems by simp
  have ns: "\<not> stopped (scan_pass num ws ps)"
    using scan_pass_eq(3) [of num ws ps] scan_pass_eq(1) [of num ws ps] Suc.prems new by auto
  let ?ws = "mark_busy ?new ws"
  have "\<not> Health (?ws ! i)" if "i < length ws" for i
    using that mark_busy_nth [of ?new i ws] new
    by (auto simp: idle_idx_def Health_def SetState_def)
  then have "idle_idx ?ws (length ?ws) = []" by (simp add: idle_idx_def filter_empty_conv)
  then have "int (length (ps @ ?new) + length (idle_idx ?ws (length ?ws))) < num"
    using Suc.prems new by simp
  from Suc.IH [OF this] show ?case
    using ns by (simp add: scan_pass_eq assms(2))
qed simp

subsection \<open>Properties\<close>

text \<open>
  When the table has as many idle workers as are asked for, the search returns within two
  passes with the first of them, in table order and without repetition, whatever the other
  goroutines do between the passes.
\<close>

theorem availableWorkers_finds:
  assumes "ws \<noteq> []" "nat num \<le> length (idle_idx ws (length ws))" "2 \<le> fuel"
    and "\<And>k vs. length (others k vs) = length vs"
  shows "\<exists>ws'. availableWorkers fuel others 0 num ws [] =
      Some (take (nat num) (idle_idx ws (length ws)), ws') \<and>
    distinct (take (nat num) (idle_idx ws (length ws))) \<and>
    (\<forall>i \<in> set (take (nat num) (idle_idx ws (length ws))). Health (ws ! i))"
proof -
  have "distinct (take (nat num) (idle_idx ws (length ws)))" by (simp add: idle_idx_def)
  moreover have "\<forall>i \<in> set (take (nat num) (idle_idx ws (length ws))). Health (ws ! i)"
    using set_take_subset by (fastforce simp: idle_idx_def)
  ultimately show ?thesis using availableWorkers_enough [of ws num others fuel 0, OF assms(1,2,4,3)] by blast
qed

theorem availableWorkers_finds_witness:
  "\<exists>ws'. availableWorkers 2 (\<lambda>_ vs. vs) 0 1 [newWorkerInfo ''a'' ''1'', newWorkerInfo ''b'' ''2''] [] = Some ([0], ws')"
  using availableWorkers_finds [of "[newWorkerInfo ''a'' ''1'', newWorkerInfo ''b'' ''2'']" 1 2 "\<lambda>_ vs. vs"]
  by (simp add: idle_idx_def newWorkerInfo_def Health_def upt_rec)

text \<open>
  The search does not return as long as fewer workers than asked for are idle and no worker
  becomes idle, for any number of passes: asking for more workers than there are never ends.
\<close>

theorem availableWorkers_never:
  assumes "int (length (idle_idx ws (length ws))) < num"
  shows "availableWorkers fuel (\<lambda>_ vs. vs) 0 num ws [] = None"
  using assms by (intro availableWorkers_starved) auto

theorem availableWorkers_never_witness:
  "availableWorkers 1000 (\<lambda>_ vs. vs) 0 2 [newWorkerInfo ''a'' ''1''] [] = None"
  by (rule availableWorkers_never) (simp add: idle_idx_def)

end
