(* ===== verification/Dispatch_Map.thy ===== *)
theory Dispatch_Map
  imports Find_Workers Machine
begin

text \<open>
  The map phase of the master (\<^verbatim>\<open>distributeMapTask\<close> and \<^verbatim>\<open>orDone\<close> of \<^verbatim>\<open>master/master.go\<close>). One
  goroutine per started task stores the task under the uuid of its worker, makes the remote
  call, and reports on \<^verbatim>\<open>finish\<close> or on \<^verbatim>\<open>crashChan\<close>; the goroutine of \<^verbatim>\<open>orDone\<close> counts the
  finished tasks and hands the uuids of the crashed workers to the main loop; the main loop
  looks for an idle worker and starts the task of the crashed one on it. Tasks and workers are
  named by their index. The table of workers does not grow during the phase.
\<close>

subsection \<open>State\<close>

text \<open>
  Where a task goroutine is: before the \<^verbatim>\<open>Store\<close>, in the remote call, before the send of a
  failure or of a success, and at its end after one or the other.
\<close>

datatype run_phase = Spawned | Calling | SendCrash | SendFinish | Crashed | Finished

record task_run =
  rTask :: nat
  rWorker :: nat
  rPhase :: run_phase

datatype or_state = OrSelect | OrOffer uuid | OrReturned

datatype main_state = MRange | MSearch uuid | MResend uuid | MLeft

record dstate =
  dTable :: "WorkerInfo list"
  dRuns :: "task_run list"
  taskStates :: "uuid \<Rightarrow> nat option"
  finish :: "uuid list"
  crashChan :: "uuid list"
  dCount :: nat
  dOr :: or_state
  dMain :: main_state
  dPanic :: "panic option"

datatype dlabel =
  DStore nat | DReturn nat bool | DSend nat
| DTakeFinish | DTakeCrash | DHand | DPick nat | DResend | DClose

definition report_cap :: nat where
  "report_cap = 100"

abbreviation uuid_at :: "dstate \<Rightarrow> nat \<Rightarrow> uuid" where
  "uuid_at s w \<equiv> wiUUID (dTable s ! w)"

definition d_init :: "nat \<Rightarrow> nat list \<Rightarrow> WorkerInfo list \<Rightarrow> dstate" where
  "d_init n picks ws =
     \<lparr>dTable = ws,
      dRuns = map (\<lambda>k. \<lparr>rTask = k, rWorker = picks ! (k mod length picks), rPhase = Spawned\<rparr>) [0..<n],
      taskStates = (\<lambda>_. None), finish = [], crashChan = [], dCount = 0,
      dOr = OrSelect, dMain = MRange, dPanic = None\<rparr>"

subsection \<open>Steps\<close>

definition set_mark :: "nat \<Rightarrow> worker_mark \<Rightarrow> dstate \<Rightarrow> dstate" where
  "set_mark w st s = s\<lparr>dTable := (dTable s)[w := SetState st (dTable s ! w)]\<rparr>"

definition set_run :: "nat \<Rightarrow> run_phase \<Rightarrow> dstate \<Rightarrow> dstate" where
  "set_run i p s = s\<lparr>dRuns := (dRuns s)[i := (dRuns s ! i)\<lparr>rPhase := p\<rparr>]\<rparr>"

text \<open>
  The steps of the task goroutine \<open>i\<close>: the \<^verbatim>\<open>Store\<close>, the return of the remote call with its
  change of mark, the send of the report. \<^verbatim>\<open>finish\<close> is closed once the main loop has left.
\<close>

fun run_store :: "nat \<Rightarrow> dstate \<Rightarrow> dstate option" where
  "run_store i s =
     (if rPhase (dRuns s ! i) = Spawned
      then Some (set_run i Calling
             (s\<lparr>taskStates := (taskStates s)(uuid_at s (rWorker (dRuns s ! i)) \<mapsto> rTask (dRuns s ! i))\<rparr>))
      else None)"

fun run_return :: "nat \<Rightarrow> bool \<Rightarrow> dstate \<Rightarrow> dstate option" where
  "run_return i ok s =
     (if rPhase (dRuns s ! i) = Calling
      then Some (if ok
             then set_run i SendFinish (set_mark (rWorker (dRuns s ! i)) WORKER_IDLE s)
             else set_run i SendCrash (set_mark (rWorker (dRuns s ! i)) WORKER_UNKNOWN s))
      else None)"

fun run_send :: "nat \<Rightarrow> dstate \<Rightarrow> dstate option" where
  "run_send i s =
     (if rPhase (dRuns s ! i) = SendFinish
      then (if dMain s = MLeft then Some (s\<lparr>dPanic := Some SendOnClosedChannel\<rparr>)
            else if length (finish s) < report_cap
            then Some (set_run i Finished (s\<lparr>finish := finish s @ [uuid_at s (rWorker (dRuns s ! i))]\<rparr>))
            else None)
      else if rPhase (dRuns s ! i) = SendCrash
      then (if length (crashChan s) < report_cap
            then Some (set_run i Crashed (s\<lparr>crashChan := crashChan s @ [uuid_at s (rWorker (dRuns s ! i))]\<rparr>))
            else None)
      else None)"

text \<open>
  The two cases of the select of \<^verbatim>\<open>orDone\<close>, and the hand over to the main loop.
\<close>

fun or_finish :: "nat \<Rightarrow> dstate \<Rightarrow> dstate option" where
  "or_finish n s =
     (case (dOr s, finish s) of
        (OrSelect, u # rest) \<Rightarrow>
          Some (s\<lparr>finish := rest, dCount := dCount s + 1,
                  dOr := (if dCount s + 1 = n then OrReturned else OrSelect)\<rparr>)
      | _ \<Rightarrow> None)"

fun or_crash :: "dstate \<Rightarrow> dstate option" where
  "or_crash s =
     (case (dOr s, crashChan s) of
        (OrSelect, u # rest) \<Rightarrow> Some (s\<lparr>crashChan := rest, dOr := OrOffer u\<rparr>)
      | _ \<Rightarrow> None)"

fun or_hand :: "dstate \<Rightarrow> dstate option" where
  "or_hand s =
     (case (dOr s, dMain s) of
        (OrOffer u, MRange) \<Rightarrow> Some (s\<lparr>dOr := OrSelect, dMain := MSearch u\<rparr>)
      | _ \<Rightarrow> None)"

text \<open>
  The body of the main loop: \<^verbatim>\<open>availableWorkers(1)\<close> takes an idle worker \<open>w\<close>; the same worker again
  sends the uuid back; a uuid with no stored task is skipped.
\<close>

fun main_pick :: "nat \<Rightarrow> dstate \<Rightarrow> dstate option" where
  "main_pick w s =
     (case dMain s of
        MSearch u \<Rightarrow>
          (if w < length (dTable s) \<and> Health (dTable s ! w)
           then (let s' = set_mark w WORKER_BUSY s
                 in if u = uuid_at s w then Some (s'\<lparr>dMain := MResend u\<rparr>)
                    else (case taskStates s u of
                            None \<Rightarrow> Some (s'\<lparr>dMain := MRange\<rparr>)
                          | Some t \<Rightarrow>
                              Some (s'\<lparr>dMain := MRange,
                                       dRuns := dRuns s @ [\<lparr>rTask = t, rWorker = w, rPhase = Spawned\<rparr>]\<rparr>)))
           else None)
      | _ \<Rightarrow> None)"

fun main_resend :: "dstate \<Rightarrow> dstate option" where
  "main_resend s =
     (case dMain s of
        MResend u \<Rightarrow>
          (if length (crashChan s) < report_cap
           then Some (s\<lparr>crashChan := crashChan s @ [u], dMain := MRange\<rparr>) else None)
      | _ \<Rightarrow> None)"

fun main_close :: "dstate \<Rightarrow> dstate option" where
  "main_close s =
     (if dOr s = OrReturned \<and> dMain s = MRange then Some (s\<lparr>dMain := MLeft\<rparr>) else None)"

fun distributeMapTask_step :: "nat \<Rightarrow> dlabel \<Rightarrow> dstate \<Rightarrow> dstate option" where
  "distributeMapTask_step n l s =
     (if dPanic s \<noteq> None then None
      else (case l of
              DStore i \<Rightarrow> if i < length (dRuns s) then run_store i s else None
            | DReturn i ok \<Rightarrow> if i < length (dRuns s) then run_return i ok s else None
            | DSend i \<Rightarrow> if i < length (dRuns s) then run_send i s else None
            | DTakeFinish \<Rightarrow> or_finish n s
            | DTakeCrash \<Rightarrow> or_crash s
            | DHand \<Rightarrow> or_hand s
            | DPick w \<Rightarrow> main_pick w s
            | DResend \<Rightarrow> main_resend s
            | DClose \<Rightarrow> main_close s))"

subsection \<open>The invariant\<close>

text \<open>The uuids of crashed workers that have not been given to another worker.\<close>

definition pend :: "dstate \<Rightarrow> uuid list" where
  "pend s = crashChan s @ (case dOr s of OrOffer u \<Rightarrow> [u] | _ \<Rightarrow> []) @
     (case dMain s of MSearch u \<Rightarrow> [u] | MResend u \<Rightarrow> [u] | _ \<Rightarrow> [])"

abbreviation rsum :: "(task_run \<Rightarrow> nat) \<Rightarrow> dstate \<Rightarrow> nat" where
  "rsum f s \<equiv> sum_list (map f (dRuns s))"

definition at_work :: "nat \<Rightarrow> task_run \<Rightarrow> nat" where
  "at_work w r = (if rWorker r = w \<and> (rPhase r = Spawned \<or> rPhase r = Calling) then 1 else 0)"

definition crashing :: "nat \<Rightarrow> task_run \<Rightarrow> nat" where
  "crashing w r = (if rWorker r = w \<and> rPhase r = SendCrash then 1 else 0)"

definition holds :: "nat \<Rightarrow> task_run \<Rightarrow> nat" where
  "holds t r = (if rTask r = t \<and> rPhase r \<noteq> Crashed then 1 else 0)"

definition ends :: "task_run \<Rightarrow> nat" where
  "ends r = (if rPhase r = Finished then 1 else 0)"

text \<open>
  A worker is busy exactly when one goroutine uses it, and only a worker that is marked
  unknown has a crash under way, one at most.
\<close>

definition mark_ok :: "dstate \<Rightarrow> nat \<Rightarrow> bool" where
  "mark_ok s w \<longleftrightarrow>
     rsum (at_work w) s = (if WorkerState (dTable s ! w) = WORKER_BUSY then 1 else 0) \<and>
     rsum (crashing w) s + count_list (pend s) (uuid_at s w) \<le>
       (if WorkerState (dTable s ! w) = WORKER_UNKNOWN then 1 else 0)"

definition run_ok :: "dstate \<Rightarrow> task_run \<Rightarrow> bool" where
  "run_ok s r \<longleftrightarrow> rWorker r < length (dTable s) \<and>
     (rPhase r = Calling \<or> rPhase r = SendCrash \<longrightarrow>
        taskStates s (uuid_at s (rWorker r)) = Some (rTask r))"

definition pend_ok :: "dstate \<Rightarrow> bool" where
  "pend_ok s \<longleftrightarrow> (\<forall>u \<in> set (pend s). u \<in> set (map wiUUID (dTable s)) \<and> taskStates s u \<noteq> None)"

text \<open>Each task is held once: by a goroutine that has not crashed, or by a pending uuid.\<close>

definition task_ok :: "nat \<Rightarrow> dstate \<Rightarrow> nat \<Rightarrow> bool" where
  "task_ok n s t \<longleftrightarrow>
     rsum (holds t) s + count_list (map (taskStates s) (pend s)) (Some t) = (if t < n then 1 else 0)"

definition count_ok :: "nat \<Rightarrow> dstate \<Rightarrow> bool" where
  "count_ok n s \<longleftrightarrow>
     dPanic s = None \<and> dCount s + length (finish s) = rsum ends s \<and>
     (dOr s = OrReturned \<longleftrightarrow> dCount s = n) \<and> (dMain s = MLeft \<longrightarrow> dOr s = OrReturned) \<and>
     (\<forall>u. dMain s \<noteq> MResend u)"

definition d_inv :: "nat \<Rightarrow> dstate \<Rightarrow> bool" where
  "d_inv n s \<longleftrightarrow>
     distinct (map wiUUID (dTable s)) \<and> (\<forall>r \<in> set (dRuns s). run_ok s r) \<and>
     (\<forall>w < length (dTable s). mark_ok s w) \<and> pend_ok s \<and> (\<forall>t. task_ok n s t) \<and> count_ok n s"

lemmas run_defs = at_work_def crashing_def holds_def ends_def
lemmas d_inv_defs = mark_ok_def run_ok_def pend_ok_def task_ok_def count_ok_def

lemma d_invD:
  assumes "d_inv n s"
  shows "distinct (map wiUUID (dTable s))" "\<And>r. r \<in> set (dRuns s) \<Longrightarrow> run_ok s r"
    "\<And>w. w < length (dTable s) \<Longrightarrow> mark_ok s w" "pend_ok s" "\<And>t. task_ok n s t" "count_ok n s"
  using assms by (auto simp: d_inv_def)

lemma d_invI:
  assumes "distinct (map wiUUID (dTable s))" "\<And>r. r \<in> set (dRuns s) \<Longrightarrow> run_ok s r"
    "\<And>w. w < length (dTable s) \<Longrightarrow> mark_ok s w" "pend_ok s" "\<And>t. task_ok n s t" "count_ok n s"
  shows "d_inv n s"
  using assms by (auto simp: d_inv_def)

lemma set_mark_simps [simp]:
  "dRuns (set_mark w st s) = dRuns s" "taskStates (set_mark w st s) = taskStates s"
  "finish (set_mark w st s) = finish s" "crashChan (set_mark w st s) = crashChan s"
  "dCount (set_mark w st s) = dCount s" "dOr (set_mark w st s) = dOr s"
  "dMain (set_mark w st s) = dMain s" "dPanic (set_mark w st s) = dPanic s"
  "length (dTable (set_mark w st s)) = length (dTable s)"
  by (simp_all add: set_mark_def)

lemma set_run_simps [simp]:
  "dTable (set_run i p s) = dTable s" "taskStates (set_run i p s) = taskStates s"
  "finish (set_run i p s) = finish s" "crashChan (set_run i p s) = crashChan s"
  "dCount (set_run i p s) = dCount s" "dOr (set_run i p s) = dOr s"
  "dMain (set_run i p s) = dMain s" "dPanic (set_run i p s) = dPanic s"
  "length (dRuns (set_run i p s)) = length (dRuns s)"
  "dRuns (set_run i p s) = (dRuns s)[i := (dRuns s ! i)\<lparr>rPhase := p\<rparr>]"
  by (simp_all add: set_run_def)

lemma set_mark_nth [simp]:
  "w < length (dTable s) \<Longrightarrow> dTable (set_mark w st s) ! v =
     (if v = w then SetState st (dTable s ! w) else dTable s ! v)"
  by (simp add: set_mark_def nth_list_update_cases)

lemma set_mark_uuids [simp]: "map wiUUID (dTable (set_mark w st s)) = map wiUUID (dTable s)"
proof (cases "w < length (dTable s)")
  case True
  then show ?thesis
    by (intro nth_equalityI) (auto simp: SetState_def)
qed (simp add: set_mark_def list_update_beyond)

lemma set_mark_uuid_at [simp]: "uuid_at (set_mark w st s) v = uuid_at s v"
proof (cases "w < length (dTable s)")
  case True
  then show ?thesis by (simp add: SetState_def)
qed (simp add: set_mark_def list_update_beyond)

lemma SetState_simps [simp]:
  "WorkerState (SetState st w) = st" "wiUUID (SetState st w) = wiUUID w" "wiIP (SetState st w) = wiIP w"
  by (simp_all add: SetState_def)

lemma pend_set [simp]: "pend (set_mark w st s) = pend s" "pend (set_run i p s) = pend s"
  by (simp_all add: pend_def)

lemma rsum_set_run:
  "i < length (dRuns s) \<Longrightarrow>
     rsum f (set_run i p s) + f (dRuns s ! i) = rsum f s + f ((dRuns s ! i)\<lparr>rPhase := p\<rparr>)"
  using sum_list_nat_update [of i "dRuns s" f "(dRuns s ! i)\<lparr>rPhase := p\<rparr>"]
  by (simp only: set_run_simps)

lemma rsum_same:
  assumes "i < length (dRuns s)" "f ((dRuns s ! i)\<lparr>rPhase := p\<rparr>) = f (dRuns s ! i)"
  shows "rsum f (set_run i p s) = rsum f s"
  using rsum_set_run [OF assms(1), of f p] assms(2) by simp

subsection \<open>The steps keep the invariant\<close>

lemma busy_alone:
  assumes inv: "d_inv n s" and i: "i < length (dRuns s)"
    and ph: "rPhase (dRuns s ! i) = Spawned \<or> rPhase (dRuns s ! i) = Calling"
  defines "w \<equiv> rWorker (dRuns s ! i)"
  shows "w < length (dTable s)" "WorkerState (dTable s ! w) = WORKER_BUSY"
    "uuid_at s w \<notin> set (pend s)" "rsum (crashing w) s = 0"
    "\<And>j. j < length (dRuns s) \<Longrightarrow> j \<noteq> i \<Longrightarrow> rWorker (dRuns s ! j) = w \<Longrightarrow>
       rPhase (dRuns s ! j) \<notin> {Spawned, Calling, SendCrash}"
proof -
  show w: "w < length (dTable s)" using d_invD(2) [OF inv nth_mem [OF i]] by (simp add: run_ok_def w_def)
  have one: "at_work w (dRuns s ! i) = 1" using ph by (simp add: at_work_def w_def)
  have m: "mark_ok s w" using d_invD(3) [OF inv w] .
  show b: "WorkerState (dTable s ! w) = WORKER_BUSY"
    using sum_list_nat_nth [OF i, of "at_work w"] one m by (auto simp: mark_ok_def split: if_splits)
  then show "uuid_at s w \<notin> set (pend s)" and c: "rsum (crashing w) s = 0"
    using m by (auto simp: mark_ok_def simp flip: count_list_pos)
  fix j assume j: "j < length (dRuns s)" "j \<noteq> i" "rWorker (dRuns s ! j) = w"
  have "at_work w (dRuns s ! j) = 0"
    using sum_list_nat_two [OF i j(1), of "at_work w"] j(2) one m b by (simp add: mark_ok_def)
  moreover have "crashing w (dRuns s ! j) = 0"
    using sum_list_nat_nth [OF j(1), of "crashing w"] c by simp
  ultimately show "rPhase (dRuns s ! j) \<notin> {Spawned, Calling, SendCrash}"
    using j(3) by (auto simp: at_work_def crashing_def split: if_splits)
qed

lemma in_set_update_nth:
  "r \<in> set (xs[i := v]) \<Longrightarrow> i < length xs \<Longrightarrow> r = v \<or> (\<exists>j < length xs. j \<noteq> i \<and> r = xs ! j)"
  by (metis in_set_conv_nth length_list_update nth_list_update_eq nth_list_update_neq)

lemma set_run_cases:
  assumes "r \<in> set (dRuns (set_run i p s))" "i < length (dRuns s)"
  obtains "r = (dRuns s ! i)\<lparr>rPhase := p\<rparr>"
  | j where "j < length (dRuns s)" "j \<noteq> i" "r = dRuns s ! j"
  using in_set_update_nth [of r "dRuns s" i] assms unfolding set_run_simps by blast

lemma run_ok_store:
  assumes inv: "d_inv n s" and i: "i < length (dRuns s)" and ph: "rPhase (dRuns s ! i) = Spawned"
    and s': "s' = set_run i Calling (s\<lparr>taskStates := (taskStates s)(uuid_at s (rWorker (dRuns s ! i)) \<mapsto> rTask (dRuns s ! i))\<rparr>)"
    and r: "r \<in> set (dRuns s')"
  shows "run_ok s' r"
proof -
  note al = busy_alone [OF inv i disjI1 [OF ph]]
  have "r \<in> set (dRuns (set_run i Calling s))" using r unfolding s' by simp
  then show ?thesis using i
  proof (cases rule: set_run_cases)
    case 1
    then show ?thesis using al(1) by (simp add: run_ok_def s')
  next
    case (2 j)
    have ok: "run_ok s r" using d_invD(2) [OF inv] 2 by simp
    show ?thesis
    proof (cases "rPhase r = Calling \<or> rPhase r = SendCrash")
      case True
      then have "rWorker r \<noteq> rWorker (dRuns s ! i)" using al(5) [of j] 2 by auto
      moreover have "rWorker r < length (dTable s)" using ok by (simp add: run_ok_def)
      ultimately have "uuid_at s (rWorker r) \<noteq> uuid_at s (rWorker (dRuns s ! i))"
        using d_invD(1) [OF inv] al(1) by (auto simp: distinct_conv_nth)
      then show ?thesis using ok by (simp add: run_ok_def s')
    next
      case False
      then show ?thesis using ok by (auto simp: run_ok_def s')
    qed
  qed
qed

lemma inv_store:
  assumes inv: "d_inv n s" and i: "i < length (dRuns s)" and st: "run_store i s = Some s'"
  shows "d_inv n s'"
proof -
  let ?r = "dRuns s ! i"
  let ?w = "rWorker ?r"
  let ?s1 = "s\<lparr>taskStates := (taskStates s)(uuid_at s ?w \<mapsto> rTask ?r)\<rparr>"
  have ph: "rPhase ?r = Spawned" and s': "s' = set_run i Calling ?s1"
    using st by (auto split: if_splits)
  note al = busy_alone [OF inv i disjI1 [OF ph]]
  have i1: "i < length (dRuns ?s1)" using i by simp
  have pend: "pend s' = pend s" unfolding s' by (simp add: pend_def)
  have tab: "dTable s' = dTable s" unfolding s' by simp
  have rs: "rsum f s' = rsum f s" if "f (?r\<lparr>rPhase := Calling\<rparr>) = f ?r" for f
    using rsum_same [OF i1, of f Calling] that unfolding s' by simp
  have pm: "map (taskStates s') (pend s') = map (taskStates s) (pend s)"
    using al(3) unfolding pend by (auto simp: s')
  show ?thesis
  proof (rule d_invI)
    show "distinct (map wiUUID (dTable s'))" using d_invD(1) [OF inv] tab by simp
  next
    fix r assume "r \<in> set (dRuns s')"
    then show "run_ok s' r" using run_ok_store [OF inv i ph s'] by blast
  next
    fix w assume "w < length (dTable s')"
    then have "mark_ok s w" using d_invD(3) [OF inv] tab by simp
    moreover have "rsum (at_work w) s' = rsum (at_work w) s" "rsum (crashing w) s' = rsum (crashing w) s"
      using ph by (intro rs; simp add: run_defs)+
    ultimately show "mark_ok s' w" by (simp add: mark_ok_def pend tab)
  next
    have "taskStates s' u = taskStates s u" if "u \<in> set (pend s)" for u
      using that al(3) by (auto simp: s')
    then show "pend_ok s'" using d_invD(4) [OF inv] by (simp add: pend_ok_def pend tab)
  next
    fix t
    have "rsum (holds t) s' = rsum (holds t) s" using ph by (intro rs) (simp add: run_defs)
    then show "task_ok n s' t" using d_invD(5) [OF inv, of t] pm by (simp add: task_ok_def)
  next
    have "rsum ends s' = rsum ends s" using ph by (intro rs) (simp add: run_defs)
    then show "count_ok n s'" using d_invD(6) [OF inv] by (simp add: count_ok_def s')
  qed
qed

lemma mark_ok_return:
  assumes inv: "d_inv n s" and i: "i < length (dRuns s)" and ph: "rPhase (dRuns s ! i) = Calling"
    and s': "s' = set_run i p (set_mark (rWorker (dRuns s ! i)) m s)"
    and pm: "p = SendFinish \<and> m = WORKER_IDLE \<or> p = SendCrash \<and> m = WORKER_UNKNOWN" and v: "v < length (dTable s')"
  shows "mark_ok s' v"
proof -
  let ?r = "dRuns s ! i"
  note al = busy_alone [OF inv i disjI2 [OF ph]]
  have i1: "i < length (dRuns (set_mark (rWorker ?r) m s))" using i by simp
  have pend: "pend s' = pend s" unfolding s' by simp
  have rs: "rsum f s' + f ?r = rsum f s + f (?r\<lparr>rPhase := p\<rparr>)" for f
    using rsum_set_run [OF i1, of f p] unfolding s' by simp
  have m0: "mark_ok s v" using d_invD(3) [OF inv] v s' by simp
  show ?thesis
  proof (cases "v = rWorker ?r")
    case True
    have "rsum (at_work v) s' = 0" "rsum (crashing v) s' \<le> (if m = WORKER_UNKNOWN then 1 else 0)"
      using rs [of "at_work v"] rs [of "crashing v"] m0 al(2,4) ph pm True
      by (auto simp: run_defs mark_ok_def)
    moreover have "WorkerState (dTable s' ! v) = m" using al(1) True by (simp add: s')
    moreover have "uuid_at s' v = uuid_at s v" unfolding s' by (simp del: set_mark_nth)
    then have "count_list (pend s') (uuid_at s' v) = 0"
      using al(3) True by (simp add: pend count_list_0_iff)
    ultimately show ?thesis using pm by (auto simp: mark_ok_def)
  next
    case False
    have "rsum (at_work v) s' = rsum (at_work v) s" "rsum (crashing v) s' = rsum (crashing v) s"
      using rs [of "at_work v"] rs [of "crashing v"] False by (simp_all add: run_defs)
    moreover have "dTable s' ! v = dTable s ! v" using al(1) False by (simp add: s')
    ultimately show ?thesis using m0 by (simp add: mark_ok_def pend)
  qed
qed

lemma inv_return:
  assumes inv: "d_inv n s" and i: "i < length (dRuns s)" and st: "run_return i ok s = Some s'"
  shows "d_inv n s'"
proof -
  let ?r = "dRuns s ! i"
  let ?w = "rWorker ?r"
  obtain p m where ph: "rPhase ?r = Calling" and s': "s' = set_run i p (set_mark ?w m s)"
    and pm: "p = SendFinish \<and> m = WORKER_IDLE \<or> p = SendCrash \<and> m = WORKER_UNKNOWN"
    using st by (auto split: if_splits)
  have i1: "i < length (dRuns (set_mark ?w m s))" using i by simp
  have pend: "pend s' = pend s" unfolding s' by simp
  have ts: "taskStates s' = taskStates s" unfolding s' by simp
  have uu: "uuid_at s' v = uuid_at s v" for v unfolding s' by (simp del: set_mark_nth)
  have rs: "rsum f s' + f ?r = rsum f s + f (?r\<lparr>rPhase := p\<rparr>)" for f
    using rsum_set_run [OF i1, of f p] unfolding s' by simp
  show ?thesis
  proof (rule d_invI)
    show "distinct (map wiUUID (dTable s'))" using d_invD(1) [OF inv] unfolding s' by simp
  next
    fix r assume "r \<in> set (dRuns s')"
    then have "r \<in> set (dRuns (set_run i p s))" unfolding s' by simp
    then show "run_ok s' r" using i
    proof (cases rule: set_run_cases)
      case 1
      then show ?thesis using d_invD(2) [OF inv nth_mem [OF i]] ph ts uu by (auto simp: run_ok_def s')
    next
      case (2 j)
      then have "run_ok s r" using d_invD(2) [OF inv] by simp
      then show ?thesis using ts uu unfolding run_ok_def by (simp add: s')
    qed
  next
    show "mark_ok s' v" if "v < length (dTable s')" for v by (rule mark_ok_return [OF inv i ph s' pm that])
  next
    have "set (map wiUUID (dTable s')) = set (map wiUUID (dTable s))" unfolding s' by (simp only: set_run_simps set_mark_uuids)
    then show "pend_ok s'" using d_invD(4) [OF inv] by (simp add: pend_ok_def pend ts)
  next
    fix t
    have "rsum (holds t) s' = rsum (holds t) s" using rs [of "holds t"] ph pm by (auto simp: run_defs)
    then show "task_ok n s' t" using d_invD(5) [OF inv, of t] by (simp add: task_ok_def pend ts)
  next
    have "rsum ends s' = rsum ends s" using rs [of ends] ph pm by (auto simp: run_defs)
    then show "count_ok n s'" using d_invD(6) [OF inv] by (simp add: count_ok_def s')
  qed
qed

text \<open>Counting over all tasks: the goroutines that have not crashed and the pending uuids.\<close>

definition alive :: "task_run \<Rightarrow> nat" where
  "alive r = (if rPhase r = Crashed then 0 else 1)"

lemma sum_indicator: "(\<Sum>t<(n::nat). if a = t then (1::nat) else 0) = (if a < n then 1 else 0)"
  by (simp add: sum.delta)

lemma sum_list_sum_swap:
  "sum_list (map (\<lambda>r. \<Sum>t<n. f t r) xs) = (\<Sum>t<(n::nat). sum_list (map (f t) xs) :: nat)"
  by (induction xs) (simp_all add: sum.distrib)

lemma alive_pend_total:
  assumes inv: "d_inv n s"
  shows "rsum alive s + length (pend s) = n"
proof -
  have "rTask r < n" if "r \<in> set (dRuns s)" "rPhase r \<noteq> Crashed" for r
  proof (rule ccontr)
    assume "\<not> rTask r < n"
    then have "rsum (holds (rTask r)) s = 0" using d_invD(5) [OF inv, of "rTask r"] by (simp add: task_ok_def)
    then show False using that by (auto simp: holds_def)
  qed
  then have "alive r = (\<Sum>t<n. holds t r)" if "r \<in> set (dRuns s)" for r
    using that sum_indicator [of "rTask r" n] by (cases "rPhase r = Crashed") (auto simp: alive_def holds_def)
  then have "rsum alive s = sum_list (map (\<lambda>r. \<Sum>t<n. holds t r) (dRuns s))"
    by (simp cong: map_cong)
  then have a: "rsum alive s = (\<Sum>t<n. rsum (holds t) s)"
    using sum_list_sum_swap [of holds n "dRuns s"] by simp
  have "\<exists>t<n. taskStates s u = Some t" if u: "u \<in> set (pend s)" for u
  proof -
    obtain t where t: "taskStates s u = Some t" using d_invD(4) [OF inv] u by (auto simp: pend_ok_def)
    then have "0 < count_list (map (taskStates s) (pend s)) (Some t)"
      using u by (metis count_list_pos in_set_conv_nth length_map nth_map)
    then have "t < n" using d_invD(5) [OF inv, of t] by (simp add: task_ok_def split: if_splits)
    with t show ?thesis by blast
  qed
  then have b: "length us = (\<Sum>t<n. count_list (map (taskStates s) us) (Some t))"
    if "set us \<subseteq> set (pend s)" for us
    using that
  proof (induction us)
    case (Cons u us)
    then obtain t where "t < n" "taskStates s u = Some t" by auto
    then have "(\<Sum>t<n. if taskStates s u = Some t then (1::nat) else 0) = 1"
      using sum_indicator [of t n] by simp
    moreover have "count_list (map (taskStates s) (u # us)) (Some t) =
        (if taskStates s u = Some t then 1 else 0) + count_list (map (taskStates s) us) (Some t)" for t
      by simp
    ultimately show ?case using Cons by (simp add: sum.distrib del: count_list.simps)
  qed simp
  have "rsum alive s + length (pend s) =
      (\<Sum>t<n. rsum (holds t) s + count_list (map (taskStates s) (pend s)) (Some t))"
    using a b [OF order_refl] by (simp add: sum.distrib)
  also have "\<dots> = n" using d_invD(5) [OF inv] by (simp add: task_ok_def)
  finally show ?thesis .
qed

lemma ends_le_alive: "ends r \<le> alive r"
  by (simp add: ends_def alive_def)

lemma not_left_sending:
  assumes inv: "d_inv n s" and i: "i < length (dRuns s)" "rPhase (dRuns s ! i) = SendFinish"
  shows "dMain s \<noteq> MLeft"
proof
  assume "dMain s = MLeft"
  then have "n \<le> rsum ends s" using d_invD(6) [OF inv] by (auto simp: count_ok_def)
  moreover have "rsum ends s = rsum ends (set_run i Finished s) - 1"
    "rsum alive s = rsum alive (set_run i Finished s)" "0 < rsum ends (set_run i Finished s)"
    using rsum_set_run [OF i(1), of ends Finished] rsum_set_run [OF i(1), of alive Finished] i(2)
    by (simp_all add: ends_def alive_def)
  moreover have "rsum ends (set_run i Finished s) \<le> rsum alive (set_run i Finished s)"
    by (intro sum_list_mono ends_le_alive)
  ultimately show False using alive_pend_total [OF inv] by linarith
qed

text \<open>
  A step that changes neither the table nor the stored tasks keeps the invariant when it only
  moves the holders of a task and the carriers of a crash.
\<close>

lemma inv_frame:
  assumes inv: "d_inv n s"
    and same: "dTable s' = dTable s" "taskStates s' = taskStates s"
    and runs: "\<And>r. r \<in> set (dRuns s') \<Longrightarrow> run_ok s r"
    and work: "\<And>w. rsum (at_work w) s' = rsum (at_work w) s"
    and crash: "\<And>w. w < length (dTable s) \<Longrightarrow>
      rsum (crashing w) s' + count_list (pend s') (uuid_at s w) =
      rsum (crashing w) s + count_list (pend s) (uuid_at s w)"
    and task: "\<And>t. rsum (holds t) s' + count_list (map (taskStates s) (pend s')) (Some t) =
      rsum (holds t) s + count_list (map (taskStates s) (pend s)) (Some t)"
    and pend: "\<And>u. u \<in> set (pend s') \<Longrightarrow> u \<in> set (map wiUUID (dTable s)) \<and> taskStates s u \<noteq> None"
    and count: "count_ok n s'"
  shows "d_inv n s'"
proof (rule d_invI)
  show "distinct (map wiUUID (dTable s'))" using d_invD(1) [OF inv] same by simp
  show "run_ok s' r" if "r \<in> set (dRuns s')" for r using runs [OF that] same by (simp add: run_ok_def)
  show "mark_ok s' w" if "w < length (dTable s')" for w
    using d_invD(3) [OF inv, of w] that same work crash [of w] by (simp add: mark_ok_def)
  show "pend_ok s'" using pend same by (auto simp: pend_ok_def)
  show "task_ok n s' t" for t using d_invD(5) [OF inv, of t] task [of t] same by (simp add: task_ok_def)
qed (rule count)

lemma run_ok_phase:
  assumes "d_inv n s" "i < length (dRuns s)" "p \<noteq> Calling" "p \<noteq> SendCrash"
    "r \<in> set (dRuns (set_run i p s))"
  shows "run_ok s r"
  using assms(5,2)
proof (cases rule: set_run_cases)
  case 1
  then show ?thesis using d_invD(2) [OF assms(1) nth_mem [OF assms(2)]] assms(3,4) by (simp add: run_ok_def)
next
  case (2 j)
  then show ?thesis using d_invD(2) [OF assms(1)] by simp
qed

lemma distinct_uuid_at:
  "d_inv n s \<Longrightarrow> v < length (dTable s) \<Longrightarrow> w < length (dTable s) \<Longrightarrow> uuid_at s v = uuid_at s w \<Longrightarrow> v = w"
  using d_invD(1) [of n s] by (auto simp: distinct_conv_nth)

lemma inv_finish:
  assumes inv: "d_inv n s" and i: "i < length (dRuns s)" and ph: "rPhase (dRuns s ! i) = SendFinish"
    and s': "s' = set_run i Finished (s\<lparr>finish := finish s @ [uuid_at s (rWorker (dRuns s ! i))]\<rparr>)"
  shows "d_inv n s'"
proof -
  let ?r = "dRuns s ! i"
  let ?w = "rWorker ?r"
  let ?u = "uuid_at s ?w"
  have C: "count_ok n s" using d_invD(6) [OF inv] .
  have rs: "rsum g s' + g ?r = rsum g s + g (?r\<lparr>rPhase := Finished\<rparr>)" for g
    using rsum_set_run [OF i, of g Finished] s' by simp
  have pend: "pend s' = pend s" using s' by (simp add: pend_def)
  show ?thesis
  proof (rule inv_frame [OF inv])
    show "run_ok s r" if "r \<in> set (dRuns s')" for r
      using run_ok_phase [OF inv i, of Finished r] that s' by simp
    show "rsum (at_work w) s' = rsum (at_work w) s" for w
      using rs [of "at_work w"] ph by (simp add: run_defs)
    show "rsum (crashing w) s' + count_list (pend s') (uuid_at s w) =
        rsum (crashing w) s + count_list (pend s) (uuid_at s w)" for w
      using rs [of "crashing w"] ph pend by (simp add: run_defs)
    show "rsum (holds t) s' + count_list (map (taskStates s) (pend s')) (Some t) =
        rsum (holds t) s + count_list (map (taskStates s) (pend s)) (Some t)" for t
      using rs [of "holds t"] ph pend by (simp add: run_defs)
    show "u \<in> set (map wiUUID (dTable s)) \<and> taskStates s u \<noteq> None" if "u \<in> set (pend s')" for u
      using d_invD(4) [OF inv] that pend by (simp add: pend_ok_def)
    have "rsum ends s' = rsum ends s + 1" using rs [of ends] ph by (simp add: run_defs)
    then show "count_ok n s'" using C unfolding count_ok_def s' by simp
  qed (simp_all add: s')
qed

lemma inv_crash:
  assumes inv: "d_inv n s" and i: "i < length (dRuns s)" and ph: "rPhase (dRuns s ! i) = SendCrash"
    and s': "s' = set_run i Crashed (s\<lparr>crashChan := crashChan s @ [uuid_at s (rWorker (dRuns s ! i))]\<rparr>)"
  shows "d_inv n s'"
proof -
  let ?r = "dRuns s ! i"
  let ?w = "rWorker ?r"
  let ?u = "uuid_at s ?w"
  have r: "run_ok s ?r" using d_invD(2) [OF inv nth_mem [OF i]] .
  have C: "count_ok n s" using d_invD(6) [OF inv] .
  have rs: "rsum g s' + g ?r = rsum g s + g (?r\<lparr>rPhase := Crashed\<rparr>)" for g
    using rsum_set_run [OF i, of g Crashed] s' by simp
  have w: "?w < length (dTable s)" "taskStates s ?u = Some (rTask ?r)"
    using r ph by (simp_all add: run_ok_def)
  have pend: "pend s' = crashChan s @ [?u] @ drop (length (crashChan s)) (pend s)"
    using s' by (simp add: pend_def)
  have psplit: "pend s = crashChan s @ drop (length (crashChan s)) (pend s)" by (simp add: pend_def)
  have pc: "count_list (pend s') v = count_list (pend s) v + (if v = ?u then 1 else 0)"
    "count_list (map (taskStates s) (pend s')) x =
       count_list (map (taskStates s) (pend s)) x + (if x = Some (rTask ?r) then 1 else 0)"
    "set (pend s') = insert ?u (set (pend s))" for v x
    using w(2) unfolding pend by (subst (2) psplit; simp)+
  show ?thesis
  proof (rule inv_frame [OF inv])
    show "run_ok s r" if "r \<in> set (dRuns s')" for r
      using run_ok_phase [OF inv i, of Crashed r] that s' by simp
    show "rsum (at_work w) s' = rsum (at_work w) s" for w
      using rs [of "at_work w"] ph by (simp add: run_defs)
    show "rsum (crashing v) s' + count_list (pend s') (uuid_at s v) =
        rsum (crashing v) s + count_list (pend s) (uuid_at s v)" if "v < length (dTable s)" for v
      using rs [of "crashing v"] ph pc(1) distinct_uuid_at [OF inv that w(1)]
      by (cases "v = ?w") (auto simp: run_defs)
    show "rsum (holds t) s' + count_list (map (taskStates s) (pend s')) (Some t) =
        rsum (holds t) s + count_list (map (taskStates s) (pend s)) (Some t)" for t
      using rs [of "holds t"] ph pc(2) by (cases "t = rTask ?r") (auto simp: run_defs)
    show "u \<in> set (map wiUUID (dTable s)) \<and> taskStates s u \<noteq> None" if "u \<in> set (pend s')" for u
      using d_invD(4) [OF inv] that pc(3) w by (auto simp: pend_ok_def)
    have "rsum ends s' = rsum ends s" using rs [of ends] ph by (simp add: run_defs)
    then show "count_ok n s'" using C unfolding count_ok_def s' by simp
  qed (simp_all add: s')
qed

lemma inv_send:
  assumes inv: "d_inv n s" and i: "i < length (dRuns s)" and st: "run_send i s = Some s'"
  shows "d_inv n s'"
  using st not_left_sending [OF inv i] inv_finish [OF inv i _ refl] inv_crash [OF inv i _ refl] by (auto split: if_splits)

text \<open>The steps of \<^verbatim>\<open>orDone\<close> and the end of the main loop move no goroutine.\<close>

lemma inv_same_runs:
  assumes inv: "d_inv n s" and same: "dTable s' = dTable s" "taskStates s' = taskStates s" "dRuns s' = dRuns s"
    and pend: "mset (pend s') = mset (pend s)" and count: "count_ok n s'"
  shows "d_inv n s'"
proof (rule inv_frame [OF inv same(1,2)])
  have c: "count_list (pend s') = count_list (pend s)"
    using pend by (metis count_mset ext)
  have "mset (map (taskStates s) (pend s')) = mset (map (taskStates s) (pend s))" using pend by simp
  then have c': "count_list (map (taskStates s) (pend s')) = count_list (map (taskStates s) (pend s))"
    by (metis count_mset ext)
  show "run_ok s r" if "r \<in> set (dRuns s')" for r using d_invD(2) [OF inv] that same by simp
  show "rsum (at_work w) s' = rsum (at_work w) s" for w using same by simp
  show "rsum (crashing w) s' + count_list (pend s') (uuid_at s w) =
      rsum (crashing w) s + count_list (pend s) (uuid_at s w)" for w using same c by simp
  show "rsum (holds t) s' + count_list (map (taskStates s) (pend s')) (Some t) =
      rsum (holds t) s + count_list (map (taskStates s) (pend s)) (Some t)" for t using same c' by simp
  show "u \<in> set (map wiUUID (dTable s)) \<and> taskStates s u \<noteq> None" if "u \<in> set (pend s')" for u
    using d_invD(4) [OF inv] that mset_eq_setD [OF pend] by (simp add: pend_ok_def)
qed (rule count)

lemma inv_or:
  assumes inv: "d_inv n s"
    and st: "or_finish n s = Some s' \<or> or_crash s = Some s' \<or> or_hand s = Some s' \<or> main_close s = Some s'"
  shows "d_inv n s'"
proof (rule inv_same_runs [OF inv])
  have C: "count_ok n s" using d_invD(6) [OF inv] .
  show "dTable s' = dTable s" "taskStates s' = taskStates s" "dRuns s' = dRuns s"
    using st by (auto split: or_state.splits list.splits main_state.splits if_splits)
  show "mset (pend s') = mset (pend s)"
    using st by (auto simp: pend_def split: or_state.splits list.splits main_state.splits if_splits)
  show "count_ok n s'" using st C
    by (auto simp: count_ok_def split: or_state.splits list.splits main_state.splits if_splits)
qed

text \<open>
  The main loop always finds the stored task of the crashed worker, on a worker that is not
  the crashed one.
\<close>

lemma pick_finds_task:
  assumes inv: "d_inv n s" and u: "dMain s = MSearch u"
    and w: "w < length (dTable s)" "Health (dTable s ! w)"
  shows "u \<noteq> uuid_at s w" "\<exists>t. taskStates s u = Some t"
proof -
  have up: "u \<in> set (pend s)" using u by (simp add: pend_def)
  then show "\<exists>t. taskStates s u = Some t" using d_invD(4) [OF inv] by (auto simp: pend_ok_def)
  show "u \<noteq> uuid_at s w"
  proof
    assume "u = uuid_at s w"
    then have "0 < count_list (pend s) (uuid_at s w)" using up by (simp add: count_list_pos)
    then show False using d_invD(3) [OF inv w(1)] w(2) by (auto simp: mark_ok_def Health_def)
  qed
qed

lemma inv_pick:
  assumes inv: "d_inv n s" and st: "main_pick w s = Some s'"
  shows "d_inv n s'"
proof -
  obtain u where u: "dMain s = MSearch u" and w: "w < length (dTable s)" "Health (dTable s ! w)"
    using st by (auto split: main_state.splits if_splits)
  obtain t where t: "taskStates s u = Some t" using pick_finds_task(2) [OF inv u w] by blast
  let ?r = "\<lparr>rTask = t, rWorker = w, rPhase = Spawned\<rparr>"
  have s': "s' = (set_mark w WORKER_BUSY s)\<lparr>dMain := MRange, dRuns := dRuns s @ [?r]\<rparr>"
    using st u w t pick_finds_task(1) [OF inv u w] by simp
  have rs: "rsum g s' = rsum g s + g ?r" for g by (simp add: s')
  have pend: "pend s = pend s' @ [u]" by (simp add: s' u pend_def)
  have ts: "taskStates s' = taskStates s" by (simp add: s')
  have uu: "uuid_at s' v = uuid_at s v" for v by (simp add: s' del: set_mark_nth)
  show ?thesis
  proof (rule d_invI)
    show "distinct (map wiUUID (dTable s'))" using d_invD(1) [OF inv] by (simp add: s')
    show "run_ok s' r" if "r \<in> set (dRuns s')" for r
    proof (cases "r = ?r")
      case True
      then show ?thesis using w by (simp add: run_ok_def s')
    next
      case False
      then have "run_ok s r" using that d_invD(2) [OF inv] by (auto simp: s')
      then show ?thesis using uu by (simp add: run_ok_def ts) (simp add: s')
    qed
    show "mark_ok s' v" if "v < length (dTable s')" for v
    proof -
      have m: "mark_ok s v" using that d_invD(3) [OF inv] by (simp add: s')
      have "count_list (pend s') (uuid_at s' v) \<le> count_list (pend s) (uuid_at s v)" by (simp add: pend uu)
      moreover have "WorkerState (dTable s' ! v) = (if v = w then WORKER_BUSY else WorkerState (dTable s ! v))"
        using w by (simp add: s')
      moreover have "rsum (at_work v) s' = rsum (at_work v) s + (if v = w then 1 else 0)"
        "rsum (crashing v) s' = rsum (crashing v) s"
        using rs [of "at_work v"] rs [of "crashing v"] by (simp_all add: run_defs)
      ultimately show ?thesis using m w(2) unfolding mark_ok_def Health_def
        by (cases "v = w") (simp_all split: if_splits)
    qed
    have "map wiUUID (dTable s') = map wiUUID (dTable s)" by (simp add: s')
    then have "set (map wiUUID (dTable s')) = set (map wiUUID (dTable s))" by (rule arg_cong)
    then show "pend_ok s'" using d_invD(4) [OF inv] by (simp add: pend_ok_def pend ts)
    show "task_ok n s' k" for k
      using d_invD(5) [OF inv, of k] rs [of "holds k"] t by (auto simp: task_ok_def ts pend run_defs split: if_splits)
    have "rsum ends s' = rsum ends s" using rs [of ends] by (simp add: ends_def)
    then show "count_ok n s'" using d_invD(6) [OF inv] unfolding count_ok_def by (simp add: s')
  qed
qed

lemma step_cases:
  assumes "distributeMapTask_step n l s = Some s'"
  obtains (store) i where "i < length (dRuns s)" "l = DStore i" "run_store i s = Some s'"
  | (return) i ok where "i < length (dRuns s)" "l = DReturn i ok" "run_return i ok s = Some s'"
  | (send) i where "i < length (dRuns s)" "l = DSend i" "run_send i s = Some s'"
  | (or) "or_finish n s = Some s' \<or> or_crash s = Some s' \<or> or_hand s = Some s' \<or> main_close s = Some s'"
  | (pick) w where "l = DPick w" "main_pick w s = Some s'"
  | (resend) "main_resend s = Some s'"
  using assms
  by (cases l) (simp_all del: run_store.simps run_return.simps run_send.simps or_finish.simps
    or_crash.simps or_hand.simps main_pick.simps main_resend.simps main_close.simps split: if_splits)

lemma no_resend: "d_inv n s \<Longrightarrow> main_resend s \<noteq> Some s'"
  using d_invD(6) [of n s] by (auto simp: count_ok_def split: main_state.splits)

lemma d_inv_step:
  assumes inv: "d_inv n s" and st: "distributeMapTask_step n l s = Some s'"
  shows "d_inv n s'"
  using st
proof (cases rule: step_cases)
  case (store i) then show ?thesis by (intro inv_store [OF inv])
next
  case (return i ok) then show ?thesis by (intro inv_return [OF inv])
next
  case (send i) then show ?thesis by (intro inv_send [OF inv])
next
  case or then show ?thesis by (rule inv_or [OF inv])
next
  case (pick w) then show ?thesis by (intro inv_pick [OF inv])
next
  case resend with no_resend [OF inv, of s'] show ?thesis by contradiction
qed

subsection \<open>The start\<close>

text \<open>
  The phase starts with one busy worker for each task; the others are idle or broken.
\<close>

definition d_start :: "nat \<Rightarrow> nat list \<Rightarrow> WorkerInfo list \<Rightarrow> bool" where
  "d_start n picks ws \<longleftrightarrow>
     0 < n \<and> length picks = n \<and> distinct picks \<and> (\<forall>p \<in> set picks. p < length ws) \<and>
     distinct (map wiUUID ws) \<and>
     (\<forall>w < length ws. WorkerState (ws ! w) = WORKER_BUSY \<longleftrightarrow> w \<in> set picks)"

lemma sum_list_indicator_distinct:
  "distinct xs \<Longrightarrow> (\<Sum>x\<leftarrow>xs. if x = a then 1 else 0) = (if a \<in> set xs then 1 else (0::nat))"
  by (induction xs) auto

lemma d_inv_init:
  assumes "d_start n picks ws"
  shows "d_inv n (d_init n picks ws)"
proof -
  let ?s = "d_init n picks ws"
  have len: "length picks = n" and dist: "distinct picks" using assms by (auto simp: d_start_def)
  have runs: "dRuns ?s = map (\<lambda>k. \<lparr>rTask = k, rWorker = picks ! k, rPhase = Spawned\<rparr>) [0..<n]"
    using len by (simp add: d_init_def)
  have pend: "pend ?s = []" by (simp add: pend_def d_init_def)
  have nth: "map (\<lambda>k. picks ! k) [0..<n] = picks" using len map_nth by blast
  have at: "rsum (at_work w) ?s = (if w \<in> set picks then 1 else 0)" for w
  proof -
    have "rsum (at_work w) ?s = (\<Sum>p\<leftarrow>map (\<lambda>k. picks ! k) [0..<n]. if p = w then 1 else 0)"
      by (simp add: runs at_work_def comp_def)
    then show ?thesis using sum_list_indicator_distinct [OF dist, of w] nth by simp
  qed
  have ho: "rsum (holds t) ?s = (if t < n then 1 else 0)" for t
    using sum_list_indicator_distinct [of "[0..<n]" t] by (simp add: runs holds_def comp_def)
  show ?thesis
  proof (rule d_invI)
    show "distinct (map wiUUID (dTable ?s))" using assms by (simp add: d_start_def d_init_def)
    show "run_ok ?s r" if "r \<in> set (dRuns ?s)" for r
    proof -
      from that obtain k where "k < n" "r = \<lparr>rTask = k, rWorker = picks ! k, rPhase = Spawned\<rparr>"
        by (auto simp: runs)
      then show ?thesis using assms len by (simp add: run_ok_def d_start_def) (simp add: d_init_def)
    qed
    show "mark_ok ?s w" if "w < length (dTable ?s)" for w
    proof -
      have c: "rsum (crashing w) ?s = 0" by (simp add: runs crashing_def comp_def)
      have "WorkerState (dTable ?s ! w) = WORKER_BUSY \<longleftrightarrow> w \<in> set picks"
        using that assms by (simp add: d_start_def d_init_def)
      then show ?thesis unfolding mark_ok_def pend c at by simp
    qed
    show "pend_ok ?s" by (simp add: pend_ok_def pend)
    show "task_ok n ?s t" for t using ho by (simp add: task_ok_def pend)
    show "count_ok n ?s" using assms by (auto simp: count_ok_def d_start_def d_init_def ends_def comp_def)
  qed
qed

subsection \<open>Termination\<close>

text \<open>
  A worker is marked unknown once and never taken again, so each failure pays for the steps
  that bring its task to another worker.
\<close>

fun phase_weight :: "run_phase \<Rightarrow> nat" where
  "phase_weight Spawned = 4"
| "phase_weight Calling = 3"
| "phase_weight SendFinish = 2"
| "phase_weight SendCrash = 9"
| "phase_weight Crashed = 0"
| "phase_weight Finished = 0"

fun main_weight :: "main_state \<Rightarrow> nat" where
  "main_weight MRange = 1"
| "main_weight (MSearch u) = 6"
| "main_weight (MResend u) = 0"
| "main_weight MLeft = 0"

abbreviation usable :: "WorkerInfo \<Rightarrow> nat" where
  "usable w \<equiv> (if WorkerState w = WORKER_UNKNOWN then 0 else 1)"

definition d_work :: "dstate \<Rightarrow> nat" where
  "d_work s =
     10 * sum_list (map usable (dTable s)) + rsum (\<lambda>r. phase_weight (rPhase r)) s +
     length (finish s) + 8 * length (crashChan s) + (case dOr s of OrOffer u \<Rightarrow> 7 | _ \<Rightarrow> 0) +
     main_weight (dMain s)"

lemma usable_set_mark:
  "w < length (dTable s) \<Longrightarrow>
     sum_list (map usable (dTable (set_mark w st s))) + usable (dTable s ! w) =
     sum_list (map usable (dTable s)) + (if st = WORKER_UNKNOWN then 0 else 1)"
  using sum_list_nat_update [of w "dTable s" usable "SetState st (dTable s ! w)"]
  by (simp add: set_mark_def)

lemma work_runs:
  assumes inv: "d_inv n s" and i: "i < length (dRuns s)"
    and st: "run_store i s = Some s' \<or> run_return i ok s = Some s' \<or> run_send i s = Some s'"
  shows "d_work s' < d_work s"
proof -
  let ?r = "dRuns s ! i"
  let ?W = "\<lambda>r. phase_weight (rPhase r)"
  have W: "rsum ?W (set_run i p t) + phase_weight (rPhase ?r) = rsum ?W s + phase_weight p"
    if "dRuns t = dRuns s" for p t
    using rsum_set_run [of i t ?W p] i that by simp
  consider (a) "rPhase ?r = Spawned" "run_store i s = Some s'"
    | (b) "rPhase ?r = Calling" "run_return i ok s = Some s'"
    | (c) "rPhase ?r = SendFinish \<or> rPhase ?r = SendCrash" "run_send i s = Some s'"
    using st by (auto split: if_splits)
  then show ?thesis
  proof cases
    case a
    let ?t = "s\<lparr>taskStates := (taskStates s)(uuid_at s (rWorker ?r) \<mapsto> rTask ?r)\<rparr>"
    have "s' = set_run i Calling ?t" using a by simp
    then show ?thesis using W [of ?t Calling] a(1) by (simp add: d_work_def del: set_run_simps(10))
  next
    case b
    note al = busy_alone [OF inv i disjI2 [OF b(1)]]
    have "usable (dTable s ! rWorker ?r) = 1" using al(2) by simp
    note U = usable_set_mark [OF al(1), unfolded this]
    show ?thesis using W [of "set_mark (rWorker ?r) (if ok then WORKER_IDLE else WORKER_UNKNOWN) s"
        "if ok then SendFinish else SendCrash"] U [of "if ok then WORKER_IDLE else WORKER_UNKNOWN"] b
      by (cases ok) (auto simp: d_work_def simp del: set_run_simps(10))
  next
    case c
    have "dMain s \<noteq> MLeft" if "rPhase ?r = SendFinish" using not_left_sending [OF inv i that] .
    then show ?thesis
      using c W [of "s\<lparr>finish := finish s @ [uuid_at s (rWorker ?r)]\<rparr>" Finished]
        W [of "s\<lparr>crashChan := crashChan s @ [uuid_at s (rWorker ?r)]\<rparr>" Crashed]
      by (auto simp: d_work_def simp del: set_run_simps(10) split: if_splits)
  qed
qed

lemma work_or:
  "or_finish n s = Some s' \<or> or_crash s = Some s' \<or> or_hand s = Some s' \<or> main_close s = Some s' \<Longrightarrow>
     d_work s' < d_work s"
  by (auto simp: d_work_def split: or_state.splits list.splits main_state.splits if_splits)

lemma work_pick:
  assumes inv: "d_inv n s" and st: "main_pick w s = Some s'"
  shows "d_work s' < d_work s"
proof -
  obtain u where u: "dMain s = MSearch u" and w: "w < length (dTable s)" "Health (dTable s ! w)"
    using st by (auto split: main_state.splits if_splits)
  obtain t where t: "taskStates s u = Some t" using pick_finds_task(2) [OF inv u w] by blast
  have s': "s' = (set_mark w WORKER_BUSY s)\<lparr>dMain := MRange,
      dRuns := dRuns s @ [\<lparr>rTask = t, rWorker = w, rPhase = Spawned\<rparr>]\<rparr>"
    using st u w t pick_finds_task(1) [OF inv u w] by simp
  show ?thesis using usable_set_mark [OF w(1), of WORKER_BUSY] w(2) u by (simp add: d_work_def s' Health_def)
qed

lemma d_work_step:
  assumes inv: "d_inv n s" and st: "distributeMapTask_step n l s = Some s'"
  shows "d_work s' < d_work s"
  using st
proof (cases rule: step_cases)
  case (store i) then show ?thesis using work_runs [OF inv, of i s'] by blast
next
  case (return i ok) then show ?thesis using work_runs [OF inv, of i s' ok] by blast
next
  case (send i) then show ?thesis using work_runs [OF inv, of i s'] by blast
next
  case or then show ?thesis by (rule work_or)
next
  case (pick w) then show ?thesis by (intro work_pick [OF inv])
next
  case resend with no_resend [OF inv, of s'] show ?thesis by contradiction
qed

interpretation dm: machine "distributeMapTask_step n" "d_inv n" d_work
  by unfold_locales (fact d_inv_step, fact d_work_step)

lemma d_work_init: "d_start n picks ws \<Longrightarrow> d_work (d_init n picks ws) \<le> 10 * length ws + 4 * n + 1"
proof -
  have "sum_list (map usable ws) \<le> length ws" by (induction ws) auto
  then show ?thesis by (simp add: d_work_def d_init_def comp_def sum_list_triv)
qed

subsection \<open>How the phase ends\<close>

abbreviation completions :: "dstate \<Rightarrow> nat \<Rightarrow> nat" where
  "completions s t \<equiv> length (filter (\<lambda>r. rTask r = t \<and> rPhase r = Finished) (dRuns s))"

lemma length_filter_sum: "length (filter P xs) = (\<Sum>x\<leftarrow>xs. if P x then 1 else 0)"
  by (induction xs) auto

lemma all_ended:
  assumes inv: "d_inv n s" and e: "rsum ends s = n"
  shows "pend s = []" "\<And>r. r \<in> set (dRuns s) \<Longrightarrow> rPhase r = Finished \<or> rPhase r = Crashed"
    "\<And>t. t < n \<Longrightarrow> completions s t = 1"
proof -
  have le: "rsum ends s \<le> rsum alive s" by (intro sum_list_mono ends_le_alive)
  then have "length (pend s) = 0" using alive_pend_total [OF inv] e by linarith
  then show p: "pend s = []" by simp
  have eq: "rsum ends s = rsum alive s" using alive_pend_total [OF inv] e le by simp
  have pt: "ends r = alive r" if "r \<in> set (dRuns s)" for r
    using that eq
  proof (induction "dRuns s" arbitrary: s)
    case (Cons x xs)
    have "sum_list (map ends xs) \<le> sum_list (map alive xs)" by (intro sum_list_mono ends_le_alive)
    moreover have "ends x \<le> alive x" by (rule ends_le_alive)
    moreover have "ends x + sum_list (map ends xs) = alive x + sum_list (map alive xs)"
      using Cons.prems(2) Cons.hyps(2) by (metis list.simps(9) sum_list.Cons)
    ultimately have "ends x = alive x" "sum_list (map ends xs) = sum_list (map alive xs)" by linarith+
    moreover have "r = x \<or> r \<in> set xs" using Cons.prems(1) Cons.hyps(2) by (metis set_ConsD)
    ultimately show ?case using Cons.hyps(1) [of "s\<lparr>dRuns := xs\<rparr>"] by auto
  qed simp
  show ph: "rPhase r = Finished \<or> rPhase r = Crashed" if "r \<in> set (dRuns s)" for r
    using pt [OF that] by (simp add: ends_def alive_def split: if_splits)
  show "completions s t = 1" if "t < n" for t
  proof -
    have "holds t r = (if rTask r = t \<and> rPhase r = Finished then 1 else 0)" if "r \<in> set (dRuns s)" for r
      using ph [OF that] by (auto simp: holds_def)
    then have "rsum (holds t) s = sum_list (map (\<lambda>r. if rTask r = t \<and> rPhase r = Finished then 1 else 0) (dRuns s))"
      by (simp cong: map_cong)
    moreover have "rsum (holds t) s = 1" using d_invD(5) [OF inv, of t] p that by (simp add: task_ok_def)
    ultimately show ?thesis by (simp add: length_filter_sum)
  qed
qed

lemma left_all_ended:
  assumes inv: "d_inv n s" and left: "dMain s = MLeft"
  shows "rsum ends s = n"
proof -
  have "rsum ends s \<le> rsum alive s" by (intro sum_list_mono ends_le_alive)
  then show ?thesis using alive_pend_total [OF inv] d_invD(6) [OF inv] left by (auto simp: count_ok_def)
qed

lemma no_step_runs:
  assumes inv: "d_inv n s" and st: "stuck (distributeMapTask_step n) s" and r: "r \<in> set (dRuns s)"
  shows "rPhase r \<noteq> Spawned" "rPhase r \<noteq> Calling"
    "length (finish s) < report_cap \<Longrightarrow> rPhase r \<noteq> SendFinish"
    "length (crashChan s) < report_cap \<Longrightarrow> rPhase r \<noteq> SendCrash"
proof -
  obtain i where i: "i < length (dRuns s)" "dRuns s ! i = r" using r by (auto simp: in_set_conv_nth)
  have p: "dPanic s = None" using d_invD(6) [OF inv] by (simp add: count_ok_def)
  have no: "distributeMapTask_step n l s = None" for l using st by (simp add: stuck_def)
  show "rPhase r \<noteq> Spawned" using no [of "DStore i"] i p by auto
  show "rPhase r \<noteq> Calling" using no [of "DReturn i True"] i p by auto
  show "rPhase r \<noteq> SendFinish" if "length (finish s) < report_cap"
    using no [of "DSend i"] i p that by (auto split: if_splits)
  show "rPhase r \<noteq> SendCrash" if "length (crashChan s) < report_cap"
    using no [of "DSend i"] i p that by (auto split: if_splits)
qed

text \<open>The phase comes to rest only when it is over or when no worker is left.\<close>

lemma stuck_left_or_dead:
  assumes inv: "d_inv n s" and st: "stuck (distributeMapTask_step n) s" and nl: "dMain s \<noteq> MLeft"
    and w: "w < length (dTable s)"
  shows "WorkerState (dTable s ! w) = WORKER_UNKNOWN"
proof (rule ccontr)
  assume alive: "WorkerState (dTable s ! w) \<noteq> WORKER_UNKNOWN"
  have C: "count_ok n s" using d_invD(6) [OF inv] .
  then have p: "dPanic s = None" by (simp add: count_ok_def)
  have no: "distributeMapTask_step n l s = None" for l using st by (simp add: stuck_def)
  have "at_work w r = 0" if "r \<in> set (dRuns s)" for r
    using no_step_runs(1,2) [OF inv st that] by (simp add: at_work_def)
  then have w0: "rsum (at_work w) s = 0" by simp
  have "WorkerState (dTable s ! w) = WORKER_IDLE"
    using d_invD(3) [OF inv w] alive unfolding mark_ok_def w0 by (cases "WorkerState (dTable s ! w)") simp_all
  then have "dMain s \<noteq> MSearch u" for u
    using no [of "DPick w"] w p by (auto simp: Health_def Let_def split: option.splits if_splits)
  then have r: "dMain s = MRange" using nl C by (cases "dMain s") (auto simp: count_ok_def)
  have sel: "dOr s = OrSelect" using no [of DHand] no [of DClose] p r by (cases "dOr s") auto
  then have e: "finish s = []" "crashChan s = []"
    using no [of DTakeFinish] no [of DTakeCrash] p by (auto split: list.splits)
  then have "pend s = []" using r sel by (simp add: pend_def)
  moreover have "alive r = ends r" if "r \<in> set (dRuns s)" for r
    using no_step_runs [OF inv st that] e by (cases "rPhase r") (auto simp: alive_def ends_def report_cap_def)
  then have "rsum alive s = rsum ends s" by (simp cong: map_cong)
  ultimately have "dCount s = n" using alive_pend_total [OF inv] C e by (simp add: count_ok_def)
  then show False using C sel by (simp add: count_ok_def)
qed

text \<open>The search of the master gives the start of the phase when all workers are idle.\<close>

lemma idle_idx_all: "(\<And>w. w \<in> set ws \<Longrightarrow> Health w) \<Longrightarrow> idle_idx ws (length ws) = [0..<length ws]"
  by (simp add: idle_idx_def)

lemma d_start_found:
  assumes "0 < n" "n \<le> length ws" "distinct (map wiUUID ws)" "\<And>w. w \<in> set ws \<Longrightarrow> Health w"
  shows "d_start n [0..<n] (mark_busy [0..<n] ws)"
proof -
  have nth: "mark_busy [0..<n] ws ! i = (if i < n then SetState WORKER_BUSY (ws ! i) else ws ! i)"
    if "i < length ws" for i using mark_busy_nth [of "[0..<n]" i ws] that by simp
  have "map wiUUID (mark_busy [0..<n] ws) = map wiUUID ws"
    by (rule nth_equalityI) (auto simp: nth)
  moreover have "WorkerState (ws ! i) \<noteq> WORKER_BUSY" if "i < length ws" for i
    using assms(4) [of "ws ! i"] that by (simp add: Health_def)
  ultimately show ?thesis using assms by (auto simp: d_start_def nth)
qed

subsection \<open>Properties\<close>

text \<open>
  C5. In the map phase, whatever calls fail and however the goroutines interleave, there is no
  panic, a crashed worker's task is always found again, and the phase is left only when every
  task has been completed exactly once and no goroutine is still under way.
\<close>

theorem map_phase_complete:
  assumes "d_start n picks ws" "reach (distributeMapTask_step n) (d_init n picks ws) s"
  shows "dPanic s = None \<and>
    (\<forall>u w. dMain s = MSearch u \<and> w < length (dTable s) \<and> Health (dTable s ! w) \<longrightarrow>
       u \<noteq> uuid_at s w \<and> (\<exists>t < n. taskStates s u = Some t)) \<and>
    (dMain s = MLeft \<longrightarrow> (\<forall>t < n. completions s t = 1) \<and>
       (\<forall>r \<in> set (dRuns s). rPhase r = Finished \<or> rPhase r = Crashed))"
proof (intro conjI allI impI)
  have inv: "d_inv n s" using dm.reach_inv [OF assms(2) d_inv_init [OF assms(1)]] .
  show "dPanic s = None" using d_invD(6) [OF inv] by (simp add: count_ok_def)
  show "u \<noteq> uuid_at s w" if "dMain s = MSearch u \<and> w < length (dTable s) \<and> Health (dTable s ! w)" for u w
    using pick_finds_task(1) [OF inv, of u w] that by simp
  show "\<exists>t < n. taskStates s u = Some t"
    if "dMain s = MSearch u \<and> w < length (dTable s) \<and> Health (dTable s ! w)" for u w
  proof -
    have "\<exists>t. taskStates s u = Some t" using pick_finds_task(2) [OF inv, of u w] that by simp
    then obtain t where t: "taskStates s u = Some t" ..
    have "u \<in> set (pend s)" using that by (simp add: pend_def)
    then have "0 < count_list (map (taskStates s) (pend s)) (Some t)"
      using t by (force simp: count_list_pos)
    then have "t < n" using d_invD(5) [OF inv, of t] by (simp add: task_ok_def split: if_splits)
    with t show ?thesis by blast
  qed
  assume left: "dMain s = MLeft"
  note e = all_ended [OF inv left_all_ended [OF inv left]]
  show "completions s t = 1" if "t < n" for t using e(3) that .
  show "\<forall>r \<in> set (dRuns s). rPhase r = Finished \<or> rPhase r = Crashed" using e(2) by blast
qed

definition two_workers :: "WorkerInfo list" where
  "two_workers = [newWorkerInfo ''a'' ''1'', newWorkerInfo ''b'' ''2'']"

text \<open>One task; the first worker fails, the second completes it.\<close>

definition retry_trace :: "dlabel list" where
  "retry_trace = [DStore 0, DReturn 0 False, DSend 0, DTakeCrash, DHand, DPick 1,
     DStore 1, DReturn 1 True, DSend 1, DTakeFinish, DClose]"

lemma two_workers_start: "d_start 1 [0..<1] (mark_busy [0..<1] two_workers)"
  by (rule d_start_found) (auto simp: two_workers_def newWorkerInfo_def Health_def)

theorem map_phase_complete_witness:
  "\<exists>s. exec (distributeMapTask_step 1) retry_trace (d_init 1 [0..<1] (mark_busy [0..<1] two_workers)) = Some s \<and>
     dMain s = MLeft \<and> completions s 0 = 1"
proof -
  let ?i = "d_init 1 [0..<1] (mark_busy [0..<1] two_workers)"
  have "map_option dMain (exec (distributeMapTask_step 1) retry_trace ?i) = Some MLeft" by code_simp
  then obtain s where s: "exec (distributeMapTask_step 1) retry_trace ?i = Some s" "dMain s = MLeft" by auto
  have "reach (distributeMapTask_step 1) ?i s" by (rule exec_reach [OF s(1) reach.start])
  then show ?thesis using map_phase_complete [OF two_workers_start] s by auto
qed

text \<open>
  C6. The map phase always comes to an end: an execution has at most ten steps per worker and four
  per task and one more, it can be continued until no step is possible, and then either the
  phase has been left or every worker has been marked as broken.
\<close>

theorem map_phase_ends:
  assumes "d_start n picks ws" "exec (distributeMapTask_step n) ls (d_init n picks ws) = Some s"
  shows "length ls \<le> 10 * length ws + 4 * n + 1 \<and>
    (\<exists>ls' s'. exec (distributeMapTask_step n) ls' s = Some s' \<and> stuck (distributeMapTask_step n) s') \<and>
    (stuck (distributeMapTask_step n) s \<longrightarrow>
       dMain s = MLeft \<or> (\<forall>w < length (dTable s). WorkerState (dTable s ! w) = WORKER_UNKNOWN))"
proof -
  note i0 = d_inv_init [OF assms(1)]
  have inv: "d_inv n s" using dm.exec_inv [OF assms(2) i0] .
  have "length ls \<le> 10 * length ws + 4 * n + 1"
    using dm.exec_bound [OF assms(2) i0] d_work_init [OF assms(1)] by simp
  then show ?thesis using dm.run_to_stuck [OF inv] stuck_left_or_dead [OF inv] by blast
qed

theorem map_phase_ends_witness:
  "\<exists>ls s. exec (distributeMapTask_step 1) ls (d_init 1 [0..<1] (mark_busy [0..<1] two_workers)) = Some s \<and>
     stuck (distributeMapTask_step 1) s"
  using map_phase_ends [OF two_workers_start, of "[]"] by simp

end
