(* ===== verification/Dispatch_Reduce.thy ===== *)
theory Dispatch_Reduce
  imports Dispatch_Map
begin

text \<open>
  The reduce phase of the master (\<^verbatim>\<open>distributeReduceTask\<close> of \<^verbatim>\<open>master/master.go\<close>). It differs from the
  map phase: the main loop assigns the variable \<^verbatim>\<open>workers\<close> that the goroutines of the first round
  captured, so \<^verbatim>\<open>workers[id]\<close> is read afresh at each use and may be outside the slice by then; the
  stored task of a crashed worker is used without a check; and the entry of the crashed worker
  is deleted by the goroutine that runs its task again, under the value the loop variable has
  at that moment. Each use of \<^verbatim>\<open>workers[id]\<close> is a step of its own.
\<close>

datatype reduce_phase =
  QDelete | QStore | QBusy | QCall | QWait | QMark bool | QSendF | QSendC | QEndF | QEndC

text \<open>\<open>qFirst\<close> tells the goroutines of the first round; \<open>qAt\<close> is the worker the call went to.\<close>

record reduce_run =
  qTask :: nat
  qId :: nat
  qFirst :: bool
  qPhase :: reduce_phase
  qAt :: "nat option"

record rstate =
  rTable :: "WorkerInfo list"
  rRuns :: "reduce_run list"
  rWorkers :: "nat list"
  rCrashVar :: uuid
  rTasks :: "uuid \<Rightarrow> nat option"
  rFinish :: "uuid list"
  rCrash :: "uuid list"
  rCount :: nat
  rOr :: or_state
  rMain :: main_state
  rPanic :: "panic option"

datatype rlabel = RStep nat | RReturn nat bool | RTakeFinish | RTakeCrash | RHand | RPick nat | RClose

definition r_init :: "nat \<Rightarrow> nat list \<Rightarrow> WorkerInfo list \<Rightarrow> rstate" where
  "r_init n picks ws =
     \<lparr>rTable = ws,
      rRuns = map (\<lambda>k. \<lparr>qTask = k, qId = k mod length picks, qFirst = True, qPhase = QStore, qAt = None\<rparr>) [0..<n],
      rWorkers = picks, rCrashVar = [], rTasks = (\<lambda>_. None), rFinish = [], rCrash = [], rCount = 0,
      rOr = OrSelect, rMain = MRange, rPanic = None\<rparr>"

definition q_phase :: "nat \<Rightarrow> reduce_phase \<Rightarrow> rstate \<Rightarrow> rstate" where
  "q_phase i p s = s\<lparr>rRuns := (rRuns s)[i := (rRuns s ! i)\<lparr>qPhase := p\<rparr>]\<rparr>"

definition q_call :: "nat \<Rightarrow> nat \<Rightarrow> rstate \<Rightarrow> rstate" where
  "q_call i w s = s\<lparr>rRuns := (rRuns s)[i := (rRuns s ! i)\<lparr>qPhase := QWait, qAt := Some w\<rparr>]\<rparr>"

definition r_mark :: "nat \<Rightarrow> worker_mark \<Rightarrow> rstate \<Rightarrow> rstate" where
  "r_mark w st s = s\<lparr>rTable := (rTable s)[w := SetState st (rTable s ! w)]\<rparr>"

text \<open>A step of goroutine \<open>i\<close> that uses \<^verbatim>\<open>workers[id]\<close>, which is the worker \<open>w\<close> by now.\<close>

definition reduce_use :: "nat \<Rightarrow> nat \<Rightarrow> rstate \<Rightarrow> rstate option" where
  "reduce_use i w s =
     (case qPhase (rRuns s ! i) of
        QStore \<Rightarrow>
          Some (q_phase i (if qFirst (rRuns s ! i) then QBusy else QCall)
            (s\<lparr>rTasks := (rTasks s)(wiUUID (rTable s ! w) \<mapsto> qTask (rRuns s ! i))\<rparr>))
      | QBusy \<Rightarrow> Some (q_phase i QCall (r_mark w WORKER_BUSY s))
      | QCall \<Rightarrow> Some (q_call i w s)
      | QMark ok \<Rightarrow>
          (if ok then Some (q_phase i QSendF (r_mark w WORKER_IDLE s))
           else Some (q_phase i QSendC (r_mark w WORKER_UNKNOWN s)))
      | QSendF \<Rightarrow>
          (if rMain s = MLeft then Some (s\<lparr>rPanic := Some SendOnClosedChannel\<rparr>)
           else if length (rFinish s) < report_cap
           then Some (q_phase i QEndF (s\<lparr>rFinish := rFinish s @ [wiUUID (rTable s ! w)]\<rparr>))
           else None)
      | QSendC \<Rightarrow>
          (if length (rCrash s) < report_cap
           then Some (q_phase i QEndC (s\<lparr>rCrash := rCrash s @ [wiUUID (rTable s ! w)]\<rparr>))
           else None)
      | _ \<Rightarrow> None)"

definition reduce_goroutine :: "nat \<Rightarrow> rstate \<Rightarrow> rstate option" where
  "reduce_goroutine i s =
     (if qPhase (rRuns s ! i) \<in> {QWait, QEndF, QEndC} then None
      else if qPhase (rRuns s ! i) = QDelete
      then Some (q_phase i QStore (s\<lparr>rTasks := (rTasks s)(rCrashVar s := None)\<rparr>))
      else if qId (rRuns s ! i) < length (rWorkers s)
      then reduce_use i (rWorkers s ! qId (rRuns s ! i)) s
      else Some (s\<lparr>rPanic := Some IndexOutOfRange\<rparr>))"

definition reduce_pick :: "nat \<Rightarrow> rstate \<Rightarrow> rstate option" where
  "reduce_pick w s =
     (case rMain s of
        MSearch u \<Rightarrow>
          (if w < length (rTable s) \<and> Health (rTable s ! w)
           then (let s' = (r_mark w WORKER_BUSY s)\<lparr>rWorkers := [w]\<rparr>
                 in case rTasks s u of
                      None \<Rightarrow> Some (s'\<lparr>rPanic := Some NilTypeAssertion\<rparr>)
                    | Some t \<Rightarrow>
                        Some (s'\<lparr>rMain := MRange,
                                 rRuns := rRuns s @ [\<lparr>qTask = t, qId = 0, qFirst = False,
                                                      qPhase = QDelete, qAt = None\<rparr>]\<rparr>))
           else None)
      | _ \<Rightarrow> None)"

fun distributeReduceTask_step :: "nat \<Rightarrow> rlabel \<Rightarrow> rstate \<Rightarrow> rstate option" where
  "distributeReduceTask_step n (RStep i) s =
     (if rPanic s = None \<and> i < length (rRuns s) then reduce_goroutine i s else None)"
| "distributeReduceTask_step n (RReturn i ok) s =
     (if rPanic s = None \<and> i < length (rRuns s) \<and> qPhase (rRuns s ! i) = QWait
      then Some (q_phase i (QMark ok) s) else None)"
| "distributeReduceTask_step n RTakeFinish s =
     (if rPanic s = None
      then (case (rOr s, rFinish s) of
              (OrSelect, u # rest) \<Rightarrow>
                Some (s\<lparr>rFinish := rest, rCount := rCount s + 1,
                        rOr := (if rCount s + 1 = n then OrReturned else OrSelect)\<rparr>)
            | _ \<Rightarrow> None)
      else None)"
| "distributeReduceTask_step n RTakeCrash s =
     (if rPanic s = None
      then (case (rOr s, rCrash s) of
              (OrSelect, u # rest) \<Rightarrow> Some (s\<lparr>rCrash := rest, rOr := OrOffer u\<rparr>)
            | _ \<Rightarrow> None)
      else None)"
| "distributeReduceTask_step n RHand s =
     (if rPanic s = None
      then (case (rOr s, rMain s) of
              (OrOffer u, MRange) \<Rightarrow> Some (s\<lparr>rOr := OrSelect, rCrashVar := u, rMain := MSearch u\<rparr>)
            | _ \<Rightarrow> None)
      else None)"
| "distributeReduceTask_step n (RPick w) s = (if rPanic s = None then reduce_pick w s else None)"
| "distributeReduceTask_step n RClose s =
     (if rPanic s = None \<and> rOr s = OrReturned \<and> rMain s = MRange
      then Some (s\<lparr>rMain := MLeft\<rparr>) else None)"

subsection \<open>The phase when no call fails\<close>

fun fails :: "rlabel \<Rightarrow> bool" where
  "fails (RReturn i ok) \<longleftrightarrow> \<not> ok"
| "fails _ \<longleftrightarrow> False"

definition reduce_step_ok :: "nat \<Rightarrow> rlabel \<Rightarrow> rstate \<Rightarrow> rstate option" where
  "reduce_step_ok n l s = (if fails l then None else distributeReduceTask_step n l s)"

definition q_called :: "reduce_phase \<Rightarrow> bool" where
  "q_called p \<longleftrightarrow> p \<in> {QWait, QMark True, QSendF, QEndF}"

text \<open>Goroutine \<open>i\<close> runs task \<open>i\<close> on the \<open>i\<close>-th of the workers.\<close>

definition q_ok :: "nat list \<Rightarrow> nat \<Rightarrow> reduce_run \<Rightarrow> bool" where
  "q_ok picks i q \<longleftrightarrow> qTask q = i \<and> qId q = i \<and> qFirst q \<and>
     (q_called (qPhase q) \<and> qAt q = Some (picks ! i) \<or> qPhase q \<in> {QStore, QBusy, QCall})"

abbreviation q_ended :: "rstate \<Rightarrow> nat" where
  "q_ended s \<equiv> sum_list (map (\<lambda>q. if qPhase q = QEndF then 1 else 0) (rRuns s))"

definition r_inv :: "nat \<Rightarrow> nat list \<Rightarrow> rstate \<Rightarrow> bool" where
  "r_inv n picks s \<longleftrightarrow>
     rPanic s = None \<and> rWorkers s = picks \<and> length picks = n \<and> length (rRuns s) = n \<and>
     (\<forall>i < n. q_ok picks i (rRuns s ! i)) \<and> rCrash s = [] \<and>
     (rOr s = OrSelect \<or> rOr s = OrReturned) \<and> (rMain s = MRange \<or> rMain s = MLeft) \<and>
     rCount s + length (rFinish s) = q_ended s \<and> (rOr s = OrReturned \<longleftrightarrow> rCount s = n) \<and>
     (rMain s = MLeft \<longrightarrow> rOr s = OrReturned)"

fun q_weight :: "reduce_phase \<Rightarrow> nat" where
  "q_weight QStore = 7" | "q_weight QBusy = 6" | "q_weight QCall = 5" | "q_weight QWait = 4"
| "q_weight (QMark ok) = 3" | "q_weight QSendF = 2" | "q_weight QSendC = 0" | "q_weight QDelete = 0"
| "q_weight QEndF = 0" | "q_weight QEndC = 0"

definition r_work :: "rstate \<Rightarrow> nat" where
  "r_work s = sum_list (map (\<lambda>q. q_weight (qPhase q)) (rRuns s)) + length (rFinish s) +
     (if rMain s = MLeft then 0 else 1)"

lemma r_invD:
  assumes "r_inv n picks s"
  shows "rPanic s = None" "rWorkers s = picks" "length picks = n" "length (rRuns s) = n"
    "\<And>i. i < n \<Longrightarrow> q_ok picks i (rRuns s ! i)" "rCrash s = []"
  using assms by (auto simp: r_inv_def)

lemma q_ended_le: "q_ended s \<le> length (rRuns s)"
proof -
  have "q_ended s \<le> sum_list (map (\<lambda>q. 1) (rRuns s))" by (intro sum_list_mono) simp
  then show ?thesis by (simp add: sum_list_triv)
qed

lemma q_ended_less:
  assumes "i < length (rRuns s)" "qPhase (rRuns s ! i) \<noteq> QEndF"
  shows "q_ended s < length (rRuns s)"
proof -
  let ?s = "s\<lparr>rRuns := (rRuns s)[i := (rRuns s ! i)\<lparr>qPhase := QEndF\<rparr>]\<rparr>"
  have "q_ended ?s = q_ended s + 1"
    using sum_list_nat_update [OF assms(1), of "\<lambda>q. if qPhase q = QEndF then 1 else 0"
        "(rRuns s ! i)\<lparr>qPhase := QEndF\<rparr>"] assms(2) by simp
  then show ?thesis using q_ended_le [of ?s] by simp
qed

text \<open>
  What a step of a goroutine does to the run and to the reports; the other fields of the
  control state stay.
\<close>

lemma reduce_goroutine_ok:
  assumes inv: "r_inv n picks s" and i: "i < n" and st: "reduce_goroutine i s = Some s'"
  shows "\<exists>q. rRuns s' = (rRuns s)[i := q] \<and> q_ok picks i q \<and>
    (qPhase q = QEndF \<and> length (rFinish s') = length (rFinish s) + 1 \<and> qPhase (rRuns s ! i) = QSendF \<or>
     qPhase q \<noteq> QEndF \<and> rFinish s' = rFinish s \<and> q_weight (qPhase q) < q_weight (qPhase (rRuns s ! i)) \<and>
       qPhase (rRuns s ! i) \<noteq> QEndF) \<and>
    rPanic s' = None \<and> rWorkers s' = rWorkers s \<and> rCrash s' = rCrash s \<and> rOr s' = rOr s \<and>
    rMain s' = rMain s \<and> rCount s' = rCount s"
proof -
  let ?q = "rRuns s ! i"
  note D = r_invD [OF inv]
  have q: "q_ok picks i ?q" using D(5) [OF i] .
  have left: "rMain s \<noteq> MLeft" if "qPhase ?q = QSendF"
    using q_ended_less [of i s] that i D(4) inv by (auto simp: r_inv_def)
  have use: "reduce_use i (picks ! i) s = Some s'" and nd: "qPhase ?q \<noteq> QDelete" "qPhase ?q \<noteq> QWait"
      "qPhase ?q \<noteq> QEndF" "qPhase ?q \<noteq> QEndC"
    using st q i D(2,3) by (auto simp: reduce_goroutine_def q_ok_def q_called_def split: if_splits)
  show ?thesis
  proof (cases "qPhase ?q")
    case QStore
    then show ?thesis using use q D(1)
      by (intro exI [of _ "?q\<lparr>qPhase := QBusy\<rparr>"]) (auto simp: reduce_use_def q_phase_def q_ok_def)
  next
    case QBusy
    then show ?thesis using use q D(1)
      by (intro exI [of _ "?q\<lparr>qPhase := QCall\<rparr>"]) (auto simp: reduce_use_def q_phase_def r_mark_def q_ok_def)
  next
    case QCall
    then show ?thesis using use q D(1)
      by (intro exI [of _ "?q\<lparr>qPhase := QWait, qAt := Some (picks ! i)\<rparr>"])
        (auto simp: reduce_use_def q_call_def q_ok_def q_called_def)
  next
    case (QMark ok)
    then show ?thesis using use q D(1)
      by (intro exI [of _ "?q\<lparr>qPhase := QSendF\<rparr>"])
        (auto simp: reduce_use_def q_phase_def r_mark_def q_ok_def q_called_def split: if_splits)
  next
    case QSendF
    then show ?thesis using use q D(1) left
      by (intro exI [of _ "?q\<lparr>qPhase := QEndF\<rparr>"])
        (auto simp: reduce_use_def q_phase_def q_ok_def q_called_def split: if_splits)
  qed (use q nd in \<open>auto simp: q_ok_def q_called_def\<close>)
qed

text \<open>Replacing a run by one that is further keeps the invariant and lowers the measure.\<close>

lemma reduce_move:
  assumes inv: "r_inv n picks s" and i: "i < n"
    and runs: "rRuns s' = (rRuns s)[i := q]" and q: "q_ok picks i q"
    and fin: "qPhase q = QEndF \<and> length (rFinish s') = length (rFinish s) + 1 \<and> qPhase (rRuns s ! i) = QSendF \<or>
       qPhase q \<noteq> QEndF \<and> rFinish s' = rFinish s \<and> q_weight (qPhase q) < q_weight (qPhase (rRuns s ! i)) \<and>
         qPhase (rRuns s ! i) \<noteq> QEndF"
    and same: "rPanic s' = None" "rWorkers s' = rWorkers s" "rCrash s' = rCrash s" "rOr s' = rOr s"
      "rMain s' = rMain s" "rCount s' = rCount s"
  shows "r_inv n picks s'" "r_work s' < r_work s"
proof -
  note D = r_invD [OF inv]
  have li: "i < length (rRuns s)" using i D(4) by simp
  have "q_ended s' + (if qPhase (rRuns s ! i) = QEndF then 1 else 0) =
      q_ended s + (if qPhase q = QEndF then 1 else 0)"
    using sum_list_nat_update [OF li, of "\<lambda>q. if qPhase q = QEndF then 1 else 0" q] runs by simp
  then have e: "rCount s' + length (rFinish s') = q_ended s'"
    using fin same inv by (auto simp: r_inv_def)
  have "q_ok picks j (rRuns s' ! j)" if "j < n" for j
    using D(5) [OF that] q that D(4) by (cases "j = i") (auto simp: runs)
  then show "r_inv n picks s'"
    using inv same e runs by (auto simp: r_inv_def)
  have "sum_list (map (\<lambda>q. q_weight (qPhase q)) (rRuns s')) + q_weight (qPhase (rRuns s ! i)) =
      sum_list (map (\<lambda>q. q_weight (qPhase q)) (rRuns s)) + q_weight (qPhase q)"
    using sum_list_nat_update [OF li, of "\<lambda>q. q_weight (qPhase q)" q] runs by simp
  then show "r_work s' < r_work s" using fin same by (auto simp: r_work_def)
qed

lemma reduce_step_ok_step:
  assumes inv: "r_inv n picks s" and st: "reduce_step_ok n l s = Some s'"
  shows "r_inv n picks s' \<and> r_work s' < r_work s"
proof -
  note D = r_invD [OF inv]
  have step: "distributeReduceTask_step n l s = Some s'" and nf: "\<not> fails l"
    using st by (auto simp: reduce_step_ok_def split: if_splits)
  show ?thesis
  proof (cases l)
    case (RStep i)
    then have i: "i < n" and g: "reduce_goroutine i s = Some s'"
      using step D(4) by (auto split: if_splits)
    from reduce_goroutine_ok [OF inv i g] show ?thesis
      using reduce_move [OF inv i, of s'] by blast
  next
    case (RReturn i ok)
    then have i: "i < n" and w: "qPhase (rRuns s ! i) = QWait" and s': "s' = q_phase i (QMark True) s"
      using step nf D(4) by (auto split: if_splits)
    have "q_ok picks i ((rRuns s ! i)\<lparr>qPhase := QMark True\<rparr>)"
      using D(5) [OF i] w by (auto simp: q_ok_def q_called_def)
    then show ?thesis using reduce_move [OF inv i, of s' "(rRuns s ! i)\<lparr>qPhase := QMark True\<rparr>"] w D(1)
      by (simp add: s' q_phase_def)
  qed (use step inv in \<open>auto simp: r_inv_def r_work_def reduce_pick_def split: or_state.splits list.splits
         main_state.splits if_splits\<close>)
qed

interpretation dr: machine "reduce_step_ok n" "r_inv n picks" r_work
  by unfold_locales (use reduce_step_ok_step in blast)+

lemma r_inv_init:
  assumes "0 < n" "length picks = n"
  shows "r_inv n picks (r_init n picks ws)"
  using assms by (auto simp: r_inv_def r_init_def q_ok_def comp_def)

lemma r_work_init: "r_work (r_init n picks ws) = 7 * n + 1"
  by (simp add: r_work_def r_init_def comp_def sum_list_triv)

text \<open>Once the phase is left every task has been run to its end, on its own worker.\<close>

lemma r_left_done:
  assumes inv: "r_inv n picks s" and left: "rMain s = MLeft" and i: "i < n"
  shows "qTask (rRuns s ! i) = i" "qPhase (rRuns s ! i) = QEndF" "qAt (rRuns s ! i) = Some (picks ! i)"
proof -
  note D = r_invD [OF inv]
  have "n \<le> q_ended s" using inv left by (auto simp: r_inv_def)
  then show e: "qPhase (rRuns s ! i) = QEndF" using q_ended_less [of i s] i D(4) by fastforce
  show "qTask (rRuns s ! i) = i" "qAt (rRuns s ! i) = Some (picks ! i)"
    using D(5) [OF i] e by (auto simp: q_ok_def)
qed

lemma r_stuck_left:
  assumes inv: "r_inv n picks s" and st: "stuck (reduce_step_ok n) s"
  shows "rMain s = MLeft"
proof (rule ccontr)
  assume nl: "rMain s \<noteq> MLeft"
  note D = r_invD [OF inv]
  have no: "\<not> fails l \<Longrightarrow> distributeReduceTask_step n l s = None" for l
    using st by (auto simp: stuck_def reduce_step_ok_def split: if_splits)
  have r: "rMain s = MRange" and sel: "rOr s = OrSelect"
    using nl no [of RClose] inv D(1) by (auto simp: r_inv_def)
  then have f: "rFinish s = []" using no [of RTakeFinish] D(1) by (auto split: list.splits)
  have "qPhase (rRuns s ! i) = QEndF" if i: "i < n" for i
    using no [of "RStep i"] no [of "RReturn i True"] i D(1,2,3,4) D(5) [OF i] r f
    by (cases "qPhase (rRuns s ! i)")
      (auto simp: reduce_goroutine_def reduce_use_def q_ok_def q_called_def report_cap_def split: if_splits)
  then have "map (\<lambda>q. if qPhase q = QEndF then 1 else 0) (rRuns s) = replicate n (1::nat)"
    using D(4) by (intro nth_equalityI) simp_all
  then have "q_ended s = n" by (simp add: sum_list_replicate)
  then show False using inv sel f by (auto simp: r_inv_def)
qed

subsection \<open>The phase when a call fails\<close>

text \<open>
  Two reducers, three workers; the call of the first one fails while the second goroutine has
  not yet used its worker. The main loop shortens \<^verbatim>\<open>workers\<close> to one entry, and the second goroutine
  reads outside it.
\<close>

definition three_workers :: "WorkerInfo list" where
  "three_workers = map (\<lambda>u. newWorkerInfo u u) [''a'', ''b'', ''c'']"

definition crash_trace :: "rlabel list" where
  "crash_trace =
     [RStep 0, RStep 0, RStep 0, RReturn 0 False, RStep 0, RStep 0, RTakeCrash, RHand, RPick 2, RStep 1]"

lemma crash_trace_panics:
  "map_option rPanic (exec (distributeReduceTask_step 2) crash_trace
     (r_init 2 [0, 1] (mark_busy [0, 1] three_workers))) = Some (Some IndexOutOfRange)"
  by code_simp

subsection \<open>Properties\<close>

text \<open>
  C18. In the reduce phase, when no remote call fails, no goroutine panics, an execution has at most
  seven steps per task and one more, it comes to rest only when the phase is left, and then
  every reduce task has been run to its end, task \<open>i\<close> on the \<open>i\<close>-th of the chosen workers.
\<close>

theorem reduce_phase_complete:
  assumes "0 < n" "length picks = n" "exec (reduce_step_ok n) ls (r_init n picks ws) = Some s"
  shows "rPanic s = None \<and> length ls \<le> 7 * n + 1 \<and>
    (stuck (reduce_step_ok n) s \<longrightarrow> rMain s = MLeft) \<and>
    (rMain s = MLeft \<longrightarrow> (\<forall>i < n. qTask (rRuns s ! i) = i \<and> qPhase (rRuns s ! i) = QEndF \<and>
       qAt (rRuns s ! i) = Some (picks ! i)))"
proof -
  note i0 = r_inv_init [OF assms(1,2), of ws]
  have inv: "r_inv n picks s" using dr.exec_inv [OF assms(3) i0] .
  have "length ls \<le> 7 * n + 1"
    using dr.exec_bound [OF assms(3) i0] r_work_init [of n picks ws] by simp
  then show ?thesis using r_invD(1) [OF inv] r_stuck_left [OF inv] r_left_done [OF inv] by blast
qed

theorem reduce_phase_complete_witness:
  "\<exists>s. exec (reduce_step_ok 1) [RStep 0, RStep 0, RStep 0, RReturn 0 True, RStep 0, RStep 0, RTakeFinish, RClose]
       (r_init 1 [2] three_workers) = Some s \<and> rMain s = MLeft \<and> qAt (rRuns s ! 0) = Some 2"
proof -
  let ?ls = "[RStep 0, RStep 0, RStep 0, RReturn 0 True, RStep 0, RStep 0, RTakeFinish, RClose]"
  have "map_option rMain (exec (reduce_step_ok 1) ?ls (r_init 1 [2] three_workers)) = Some MLeft"
    by code_simp
  then obtain s where "exec (reduce_step_ok 1) ?ls (r_init 1 [2] three_workers) = Some s" "rMain s = MLeft"
    by auto
  then show ?thesis using reduce_phase_complete [of 1 "[2]" ?ls three_workers s] by auto
qed


end
