(* ===== verification/Job.thy ===== *)
theory Job
  imports Dispatch_Reduce Apps
begin

text \<open>
  A whole job (\<^verbatim>\<open>StartMaster\<close> of \<^verbatim>\<open>master/mainInterface.go\<close> with the workers of one machine): the
  registered workers, the distribution of the input, the map calls with their reports to the
  master, and the reduce calls, in any order within each phase. The calls are those of
  \<^verbatim>\<open>Worker_Node\<close>, the tables those of \<^verbatim>\<open>Master_State\<close>; that every task is called exactly once when
  no call fails is what \<^verbatim>\<open>Dispatch_Map\<close> and \<^verbatim>\<open>Dispatch_Reduce\<close> show. The workers share one disk.
\<close>

subsection \<open>The run\<close>

text \<open>\<^verbatim>\<open>StartWorker\<close>: a new worker, with the id that the registration returns.\<close>

definition job_workers :: "uuid list \<Rightarrow> nat \<Rightarrow> bool \<Rightarrow> Worker list" where
  "job_workers us R inRAM = map (\<lambda>k. setID (int k) (newWorker (us ! k) (int R) inRAM)) [0..<length us]"

definition job_master :: "uuid list \<Rightarrow> addr list \<Rightarrow> (nat \<Rightarrow> uuid) \<Rightarrow> nat \<Rightarrow> Master" where
  "job_master us ips rus R = fst (register_all (zip us ips) (NewMaster rus (int (length us)) (int R)))"

text \<open>Task \<open>i\<close> goes to worker \<open>i\<close>, which reports its files to the master.\<close>

inductive map_calls :: "mapf \<Rightarrow> Worker list \<Rightarrow> nat list \<Rightarrow> host \<Rightarrow> Master \<Rightarrow> host \<Rightarrow> Master \<Rightarrow> bool"
  for f ws where
  none: "map_calls f ws [] h ms h ms"
| call: "Worker_Map f True h (ws ! i) (map_toRPC (MapTasks ms ! i)) (Done (w, h1, filenames)) \<Longrightarrow>
    UpdateIMDInfo (wUUID (ws ! i)) filenames ms = Done ms1 \<Longrightarrow>
    map_calls f ws order h1 ms1 h2 ms2 \<Longrightarrow> map_calls f ws (i # order) h ms h2 ms2"

inductive_cases map_calls_NilE: "map_calls f ws [] h ms h' ms'"
inductive_cases map_calls_ConsE: "map_calls f ws (i # order) h ms h' ms'"

text \<open>Reduce task \<open>r\<close> goes to worker \<open>r\<close>.\<close>

fun reduce_calls ::
  "(KV list \<Rightarrow> KV list) \<Rightarrow> reducef \<Rightarrow> addr list \<Rightarrow> Worker list \<Rightarrow> Master \<Rightarrow> nat list \<Rightarrow> host \<Rightarrow> host outcome" where
  "reduce_calls srt g ips ws ms [] h = Done h"
| "reduce_calls srt g ips ws ms (r # order) h =
     bind_outcome
       (Worker_Reduce srt g (\<lambda>ip. if ip \<in> set ips then Some (disk h) else None) h (ws ! r)
          (reduce_toRPC (ReduceTasks ms ! r)))
       (\<lambda>(w, h'). reduce_calls srt g ips ws ms order h')"

inductive job ::
  "(KV list \<Rightarrow> KV list) \<Rightarrow> mapf \<Rightarrow> reducef \<Rightarrow> uuid list \<Rightarrow> addr list \<Rightarrow> nat \<Rightarrow> bool \<Rightarrow> path list \<Rightarrow>
   host \<Rightarrow> host \<Rightarrow> bool"
  for srt f g us ips R inRAM files h where
  "distributeWork (disk h) tus files (job_master us ips rus R) = Done ms1 \<Longrightarrow>
   distinct order \<Longrightarrow> set order = {0..<length us} \<Longrightarrow>
   map_calls f (job_workers us R inRAM) order h ms1 h2 ms2 \<Longrightarrow>
   distinct rorder \<Longrightarrow> set rorder = {0..<R} \<Longrightarrow>
   reduce_calls srt g ips (job_workers us R inRAM) ms2 rorder h2 = Done h3 \<Longrightarrow>
   job srt f g us ips R inRAM files h h3"

text \<open>What a job is set up with: distinct uuids of one length, an address for each, enough
  workers for the reducers, and paths that can be created.\<close>

definition job_setup :: "uuid list \<Rightarrow> addr list \<Rightarrow> nat \<Rightarrow> bool \<Rightarrow> path list \<Rightarrow> host \<Rightarrow> bool" where
  "job_setup us ips R inRAM files h \<longleftrightarrow>
     distinct us \<and> (\<forall>u \<in> set us. length u = length (hd us)) \<and> length ips = length us \<and>
     0 < R \<and> R \<le> length us \<and> files \<noteq> [] \<and>
     (\<forall>u t. writable h (imd_path h inRAM u t)) \<and> (\<forall>r. writable h (mr_out_path r)) \<and>
     (\<forall>p \<in> set files. (\<exists>c. disk h p = Some c \<and> int (length c) \<le> max_alloc) \<and>
        (\<forall>u t. p \<noteq> imd_path h inRAM u t))"

subsection \<open>Paths\<close>

lemma imd_path_uuid_inj:
  assumes "length u = length v" "imd_path h inRAM u s = imd_path h inRAM v t"
  shows "u = v \<and> s = t"
proof -
  have "u @ ''-'' @ show_nat s @ ''.txt'' = v @ ''-'' @ show_nat t @ ''.txt''"
    using assms(2) by (simp add: imd_path_def imd_name_def split: if_splits)
  then show ?thesis using assms(1) by (auto dest: show_nat_inj)
qed

lemma slash_imd_path: "CHR ''/'' \<in> set (imd_path h inRAM u t)"
  by (simp add: imd_path_def)

lemma slash_mr_out_path: "CHR ''/'' \<notin> set (mr_out_path i)"
proof -
  have "\<not> is_digit (CHR ''/'')" by (simp add: is_digit_def)
  then have "CHR ''/'' \<notin> set (show_nat n)" for n using show_nat_digits by blast
  then show ?thesis by (simp add: mr_out_path_def itoa_def)
qed

lemma mr_out_path_inj: "mr_out_path (int a) = mr_out_path (int b) \<longleftrightarrow> a = b"
  by (auto simp: mr_out_path_def itoa_def dest: show_nat_inj)

lemma mr_out_not_imd [simp]: "mr_out_path i \<noteq> imd_path h inRAM u t"
  using slash_imd_path [of h inRAM u t] slash_mr_out_path [of i] by auto

subsection \<open>The map phase\<close>

lemma partialContent_cong: "d (FileName fi) = d' (FileName fi) \<Longrightarrow> partialContent d fi = partialContent d' fi"
  by (simp add: partialContent_def)

lemma map_feeds_cong:
  "\<forall>fi \<in> set fis. d (FileName fi) = d' (FileName fi) \<Longrightarrow> map_feeds f d fis = map_feeds f d' fis"
proof (induction fis)
  case (Cons fi fis)
  then show ?case using partialContent_cong [of d fi d'] by simp
qed simp

text \<open>The buckets of a task, for the pairs \<open>es\<close> that its chunks emit.\<close>

definition buckets_ok :: "nat \<Rightarrow> KV list list \<Rightarrow> KV list list \<Rightarrow> bool" where
  "buckets_ok R es imd \<longleftrightarrow> length imd = R \<and>
     (\<forall>t < R. mset (imd ! t) = filter_mset (\<lambda>kv. reducer_index R (Key kv) = t) (mset (concat es)))"

definition imd_entry :: "host \<Rightarrow> bool \<Rightarrow> uuid list \<Rightarrow> addr list \<Rightarrow> nat \<Rightarrow> nat \<Rightarrow> IMDInfo" where
  "imd_entry h inRAM us ips t i = \<lparr>imdIP = ips ! i, imdFileName = imd_path h inRAM (us ! i) t\<rparr>"

definition map_ready :: "mapf \<Rightarrow> uuid list \<Rightarrow> addr list \<Rightarrow> nat \<Rightarrow> bool \<Rightarrow> (nat \<Rightarrow> KV list list) \<Rightarrow>
  nat set \<Rightarrow> host \<Rightarrow> Master \<Rightarrow> bool" where
  "map_ready f us ips R inRAM es I h ms \<longleftrightarrow>
     length (ReduceTasks ms) = R \<and> (\<forall>u t. writable h (imd_path h inRAM u t)) \<and>
     (\<forall>i \<in> I. i < length us \<and> serviceDiscovey ms (us ! i) = ips ! i \<and>
        map_feeds f (disk h) (map_toRPC (MapTasks ms ! i)) = Done (es i) \<and> map_toRPC (MapTasks ms ! i) \<noteq> [] \<and>
        (\<forall>fi \<in> set (map_toRPC (MapTasks ms ! i)). \<forall>u t. FileName fi \<noteq> imd_path h inRAM u t))"

lemma job_worker_sel:
  assumes "i < length us"
  shows "wUUID (job_workers us R inRAM ! i) = us ! i" "wNReduce (job_workers us R inRAM ! i) = int R"
    "storeInRAM (job_workers us R inRAM ! i) = inRAM" "wID (job_workers us R inRAM ! i) = int i"
  using assms by (simp_all add: job_workers_def setID_def newWorker_def)

lemma map_ready_next:
  assumes "map_ready f us ips R inRAM es (insert i I) h ms"
    and "h1 = h\<lparr>disk := disk h1\<rparr>" "\<forall>p. (\<forall>t. p \<noteq> imd_path h inRAM (us ! i) t) \<longrightarrow> disk h1 p = disk h p"
    and "ms1 = ms\<lparr>ReduceTasks := rts\<rparr>" "length rts = R"
  shows "map_ready f us ips R inRAM es I h1 ms1"
proof -
  have path: "imd_path h1 inRAM u t = imd_path h inRAM u t" for u t
    by (subst assms(2)) simp
  have wr: "writable h1 = writable h" by (subst assms(2)) simp
  have sd: "serviceDiscovey ms1 u = serviceDiscovey ms u" for u by (simp add: assms(4) serviceDiscovey_def)
  have "map_feeds f (disk h1) (map_toRPC (MapTasks ms ! j)) = map_feeds f (disk h) (map_toRPC (MapTasks ms ! j))"
    if "j \<in> I" for j
    using assms(1,3) that by (intro map_feeds_cong) (auto simp: map_ready_def)
  then show ?thesis using assms(1) sd by (auto simp: map_ready_def path wr assms(4,5))
qed

lemma map_call_result:
  assumes rdy: "map_ready f us ips R inRAM es (insert i I) h ms" and R: "0 < R"
    and run: "Worker_Map f True h (job_workers us R inRAM ! i) (map_toRPC (MapTasks ms ! i)) (Done (w, h1, names))"
  shows "h1 = h\<lparr>disk := disk h1\<rparr>" "names = map (imd_path h inRAM (us ! i)) [0..<R]"
    "\<exists>imd. buckets_ok R (es i) imd \<and> (\<forall>t < R. disk h1 (imd_path h inRAM (us ! i) t) = Some (encodeIMDKVs (imd ! t)))"
    "\<forall>p. (\<forall>t. p \<noteq> imd_path h inRAM (us ! i) t) \<longrightarrow> disk h1 p = disk h p"
proof -
  have i: "i < length us" using rdy by (simp add: map_ready_def)
  note sel = job_worker_sel [OF i]
  obtain es' imd where "map_feeds f (disk h) (map_toRPC (MapTasks ms ! i)) = Done es'"
    "length imd = R" "names = map (imd_path h inRAM (us ! i)) [0..<R]"
    "\<forall>t < R. disk h1 (imd_path h inRAM (us ! i) t) = Some (encodeIMDKVs (imd ! t))"
    "\<forall>t < R. mset (imd ! t) = filter_mset (\<lambda>kv. reducer_index R (Key kv) = t) (mset (concat es'))"
    "\<forall>p. (\<forall>t. p \<noteq> imd_path h inRAM (us ! i) t) \<longrightarrow> disk h1 p = disk h p" "h1 = h\<lparr>disk := disk h1\<rparr>"
    using Worker_Map_buckets [OF run, of R] R rdy by (auto simp: sel map_ready_def)
  moreover have "es' = es i" using calculation(1) rdy by (simp add: map_ready_def)
  ultimately show "h1 = h\<lparr>disk := disk h1\<rparr>" "names = map (imd_path h inRAM (us ! i)) [0..<R]"
    "\<exists>imd. buckets_ok R (es i) imd \<and> (\<forall>t < R. disk h1 (imd_path h inRAM (us ! i) t) = Some (encodeIMDKVs (imd ! t)))"
    "\<forall>p. (\<forall>t. p \<noteq> imd_path h inRAM (us ! i) t) \<longrightarrow> disk h1 p = disk h p"
    by (auto simp: buckets_ok_def)
qed

lemma update_call:
  assumes rdy: "map_ready f us ips R inRAM es (insert i I) h ms"
    and up: "UpdateIMDInfo (us ! i) (map (imd_path h inRAM (us ! i)) [0..<R]) ms = Done ms1"
  shows "\<exists>rts. ms1 = ms\<lparr>ReduceTasks := rts\<rparr> \<and> length rts = R \<and>
    (\<forall>t < R. IMDs (rts ! t) = IMDs (ReduceTasks ms ! t) @ [imd_entry h inRAM us ips t i])"
proof -
  have len: "length (ReduceTasks ms) = R" and sd: "serviceDiscovey ms (us ! i) = ips ! i"
    using rdy by (auto simp: map_ready_def)
  from len have "length (map (imd_path h inRAM (us ! i)) [0..<R]) \<le> length (ReduceTasks ms)" by simp
  from UpdateIMDInfo_eq [OF this, of "us ! i"] obtain rts where
    "ms1 = ms\<lparr>ReduceTasks := rts\<rparr>" "length rts = R"
    "\<forall>k < R. IMDs (rts ! k) = IMDs (ReduceTasks ms ! k) @ (if k < R then [\<lparr>imdIP = serviceDiscovey ms (us ! i),
       imdFileName = map (imd_path h inRAM (us ! i)) [0..<R] ! k\<rparr>] else [])"
    using up len by auto
  then show ?thesis using sd by (intro exI [of _ rts]) (simp add: imd_entry_def)
qed

definition written :: "host \<Rightarrow> bool \<Rightarrow> uuid list \<Rightarrow> nat \<Rightarrow> nat \<Rightarrow> KV list list \<Rightarrow> host \<Rightarrow> bool" where
  "written h inRAM us R i imd h2 \<longleftrightarrow>
     (\<forall>t < R. disk h2 (imd_path h inRAM (us ! i) t) = Some (encodeIMDKVs (imd ! t)))"

lemma map_calls_result:
  assumes "map_calls f (job_workers us R inRAM) order h ms h2 ms2"
    and "map_ready f us ips R inRAM es (set order) h ms" "0 < R" "distinct order"
    and us: "distinct us" "\<forall>u \<in> set us. length u = length (hd us)"
  shows "\<exists>B. (\<forall>i \<in> set order. buckets_ok R (es i) (B i) \<and> written h inRAM us R i (B i) h2) \<and>
    h2 = h\<lparr>disk := disk h2\<rparr> \<and>
    (\<forall>p. (\<forall>i \<in> set order. \<forall>t. p \<noteq> imd_path h inRAM (us ! i) t) \<longrightarrow> disk h2 p = disk h p) \<and>
    length (ReduceTasks ms2) = R \<and>
    (\<forall>t < R. IMDs (ReduceTasks ms2 ! t) = IMDs (ReduceTasks ms ! t) @ map (imd_entry h inRAM us ips t) order)"
  using assms(1,2,4)
proof (induction order arbitrary: h ms)
  case Nil
  then show ?case by (auto elim!: map_calls_NilE simp: map_ready_def)
next
  case (Cons i order)
  note R = assms(3)
  have rdy: "map_ready f us ips R inRAM es (insert i (set order)) h ms" using Cons.prems(2) by simp
  have i: "i < length us" using rdy by (simp add: map_ready_def)
  obtain w h1 names ms1 where
    run: "Worker_Map f True h (job_workers us R inRAM ! i) (map_toRPC (MapTasks ms ! i)) (Done (w, h1, names))"
    and up: "UpdateIMDInfo (us ! i) names ms = Done ms1"
    and rest: "map_calls f (job_workers us R inRAM) order h1 ms1 h2 ms2"
    using Cons.prems(1) by (auto elim!: map_calls_ConsE simp: job_worker_sel [OF i])
  note r = map_call_result [OF rdy R run]
  obtain imd where imd: "buckets_ok R (es i) imd" "written h inRAM us R i imd h1"
    using r(3) by (auto simp: written_def)
  obtain rts where ms1: "ms1 = ms\<lparr>ReduceTasks := rts\<rparr>" "length rts = R"
    and rts: "\<forall>t < R. IMDs (rts ! t) = IMDs (ReduceTasks ms ! t) @ [imd_entry h inRAM us ips t i]"
    using update_call [OF rdy up [unfolded r(2)]] by blast
  have path: "imd_path h1 inRAM u t = imd_path h inRAM u t" for u t by (subst r(1)) simp
  have entry: "imd_entry h1 inRAM us ips t = imd_entry h inRAM us ips t" for t
    by (simp add: imd_entry_def path fun_eq_iff)
  have nxt: "map_ready f us ips R inRAM es (set order) h1 ms1"
    by (rule map_ready_next [OF rdy r(1) r(4) ms1])
  obtain B where B: "\<forall>j \<in> set order. buckets_ok R (es j) (B j) \<and> written h inRAM us R j (B j) h2"
    and h2: "h2 = h1\<lparr>disk := disk h2\<rparr>"
    and off: "\<forall>p. (\<forall>j \<in> set order. \<forall>t. p \<noteq> imd_path h inRAM (us ! j) t) \<longrightarrow> disk h2 p = disk h1 p"
    and len: "length (ReduceTasks ms2) = R"
    and imds: "\<forall>t < R. IMDs (ReduceTasks ms2 ! t) = IMDs (rts ! t) @ map (imd_entry h inRAM us ips t) order"
    using Cons.IH [OF rest nxt] Cons.prems(3) by (auto simp: path entry written_def ms1)
  have sep: "imd_path h inRAM (us ! i) s \<noteq> imd_path h inRAM (us ! j) t" if "j \<in> set order" for j s t
  proof
    assume eq: "imd_path h inRAM (us ! i) s = imd_path h inRAM (us ! j) t"
    have j: "j < length us" "j \<noteq> i" using that rdy Cons.prems(3) by (auto simp: map_ready_def)
    then have "length (us ! i) = length (us ! j)" using us(2) i by simp
    from imd_path_uuid_inj [OF this eq] show False using us(1) i j by (simp add: nth_eq_iff_index_eq)
  qed
  have wi: "written h inRAM us R i imd h2" using imd(2) off sep by (simp add: written_def)
  define B' where "B' = (\<lambda>j. if j = i then imd else B j)"
  have "\<forall>j \<in> set (i # order). buckets_ok R (es j) (B' j) \<and> written h inRAM us R j (B' j) h2"
    using B imd(1) wi by (simp add: B'_def)
  moreover have "h2 = h\<lparr>disk := disk h2\<rparr>" using h2 r(1)
    by (metis host.surjective host.update_convs(1))
  moreover have "disk h2 p = disk h p" if "\<forall>j \<in> set (i # order). \<forall>t. p \<noteq> imd_path h inRAM (us ! j) t" for p
    using off r(4) that by simp
  ultimately show ?case using len imds rts by (intro exI [of _ B']) auto
qed

lemma map_calls_exist:
  assumes "map_ready f us ips R inRAM es (set order) h ms" "0 < R"
  shows "\<exists>h2 ms2. map_calls f (job_workers us R inRAM) order h ms h2 ms2"
  using assms(1)
proof (induction order arbitrary: h ms)
  case Nil
  then show ?case using map_calls.none by blast
next
  case (Cons i order)
  have rdy: "map_ready f us ips R inRAM es (insert i (set order)) h ms" using Cons.prems by simp
  have i: "i < length us" using rdy by (simp add: map_ready_def)
  obtain w h1 names where
    run: "Worker_Map f True h (job_workers us R inRAM ! i) (map_toRPC (MapTasks ms ! i)) (Done (w, h1, names))"
    using Worker_Map_returns [of f h "map_toRPC (MapTasks ms ! i)" "es i" "job_workers us R inRAM ! i" R True]
      rdy assms(2) by (auto simp: map_ready_def job_worker_sel [OF i])
  note r = map_call_result [OF rdy assms(2) run]
  have "length names \<le> length (ReduceTasks ms)" using rdy r(2) by (simp add: map_ready_def)
  then obtain ms1 where up: "UpdateIMDInfo (us ! i) names ms = Done ms1" using UpdateIMDInfo_eq by blast
  obtain rts where ms1: "ms1 = ms\<lparr>ReduceTasks := rts\<rparr>" "length rts = R"
    using update_call [OF rdy up [unfolded r(2)]] by blast
  from Cons.IH [OF map_ready_next [OF rdy r(1) r(4) ms1]] show ?case
    using run up by (metis map_calls.call job_worker_sel(1) [OF i])
qed

subsection \<open>The reduce phase\<close>

text \<open>The line a reducer prints for a key of a list of pairs.\<close>

definition reduce_text :: "reducef \<Rightarrow> KV list \<Rightarrow> string" where
  "reduce_text g kvs =
     concat (map (\<lambda>k. out_line (hd (g k (values_of kvs k)))) (sorted_list_of_set (Key ` set kvs)))"

definition bucket :: "nat \<Rightarrow> nat \<Rightarrow> KV list \<Rightarrow> KV list" where
  "bucket R r kvs = filter (\<lambda>kv. reducer_index R (Key kv) = r) kvs"

lemma gather_task:
  assumes "IMDs rt = map (imd_entry h0 inRAM us ips t) order" "t < R"
    and "\<forall>i \<in> set order. ips ! i \<in> set live \<and> written h0 inRAM us R i (B i) h \<and> imd_ok (B i ! t)"
  shows "gather_imd (\<lambda>ip. if ip \<in> set live then Some (disk h) else None) (reduce_toRPC rt) =
    Done (concat (map (\<lambda>i. B i ! t) order))"
proof (rule gather_imd_written)
  show "list_all2 (\<lambda>fi kvs. \<exists>d. (if Ip fi \<in> set live then Some (disk h) else None) = Some d \<and>
      d (Filename fi) = Some (encodeIMDKVs kvs) \<and> imd_ok kvs) (reduce_toRPC rt) (map (\<lambda>i. B i ! t) order)"
    using assms by (simp add: reduce_toRPC_def imd_entry_def list_all2_map1 list_all2_map2 list_all2_same written_def)
qed

lemma buckets_concat:
  assumes "\<forall>i \<in> set order. buckets_ok R (es i) (B i)" "t < R"
  shows "mset (concat (map (\<lambda>i. B i ! t) order)) = mset (bucket R t (concat (map (\<lambda>i. concat (es i)) order)))"
  using assms by (induction order) (auto simp: buckets_ok_def bucket_def)

text \<open>Task \<open>r\<close> is called on the worker \<open>ws ! r\<close>, whose number \<open>wid r\<close> names the output file.\<close>

lemma reduce_calls_result:
  assumes g: "bag_reducer g" and srt: "key_sorter srt"
    and wr: "\<forall>r. writable h (mr_out_path r)"
    and rs: "\<forall>r \<in> set rs. wID (ws ! r) = int (wid r)" "inj_on wid (set rs)" "distinct rs"
    and gat: "\<And>(h' :: host) r. r \<in> set rs \<Longrightarrow> (\<forall>u t. disk h' (imd_path h inRAM u t) = disk h (imd_path h inRAM u t)) \<Longrightarrow>
      \<exists>kvs. gather_imd (\<lambda>ip. if ip \<in> set ips then Some (disk h') else None) (reduce_toRPC (ReduceTasks ms ! r)) =
        Done kvs \<and> mset kvs = mset (K r)"
  shows "\<exists>h'. reduce_calls srt g ips ws ms rs h = Done h' \<and>
    (\<forall>r \<in> set rs. disk h' (mr_out_path (int (wid r))) = Some (reduce_text g (K r))) \<and>
    (\<forall>p. (\<forall>r \<in> set rs. p \<noteq> mr_out_path (int (wid r))) \<longrightarrow> disk h' p = disk h p)"
  using wr rs gat
proof (induction rs arbitrary: h)
  case Nil
  then show ?case by simp
next
  case (Cons r rs)
  obtain kvs where kvs: "gather_imd (\<lambda>ip. if ip \<in> set ips then Some (disk h) else None)
      (reduce_toRPC (ReduceTasks ms ! r)) = Done kvs" "mset kvs = mset (K r)"
    using Cons.prems(5) [of r h] by auto
  have out: "reduce_loop g (srt kvs) 0 [] [] = Done (reduce_text g (K r))"
    unfolding reduce_text_def by (rule bag_reducer.reduce_bag [OF g srt kvs(2)])
  let ?h = "h\<lparr>disk := (disk h)(mr_out_path (int (wid r)) \<mapsto> reduce_text g (K r))\<rparr>"
  have call: "Worker_Reduce srt g (\<lambda>ip. if ip \<in> set ips then Some (disk h) else None) h
      (ws ! r) (reduce_toRPC (ReduceTasks ms ! r)) =
      Done (setWorkerState W_IDLE (setWorkerState W_BUSY (ws ! r)), ?h)"
    using kvs(1) out Cons.prems(1,2) by (simp add: Worker_Reduce_def)
  have "\<exists>h'. reduce_calls srt g ips ws ms rs ?h = Done h' \<and>
      (\<forall>r \<in> set rs. disk h' (mr_out_path (int (wid r))) = Some (reduce_text g (K r))) \<and>
      (\<forall>p. (\<forall>r \<in> set rs. p \<noteq> mr_out_path (int (wid r))) \<longrightarrow> disk h' p = disk ?h p)"
  proof (rule Cons.IH)
    show "\<forall>r. writable ?h (mr_out_path r)" using Cons.prems(1) by simp
    show "\<forall>r \<in> set rs. wID (ws ! r) = int (wid r)" "inj_on wid (set rs)" "distinct rs" using Cons.prems(2-4) by auto
    fix h' :: host and q
    assume "q \<in> set rs" "\<forall>u t. disk h' (imd_path ?h inRAM u t) = disk ?h (imd_path ?h inRAM u t)"
    then show "\<exists>kvs. gather_imd (\<lambda>ip. if ip \<in> set ips then Some (disk h') else None)
        (reduce_toRPC (ReduceTasks ms ! q)) = Done kvs \<and> mset kvs = mset (K q)"
      using Cons.prems(5) [of q h'] mr_out_not_imd [THEN not_sym] by simp
  qed
  then obtain h' where h': "reduce_calls srt g ips ws ms rs ?h = Done h'"
    "\<forall>r \<in> set rs. disk h' (mr_out_path (int (wid r))) = Some (reduce_text g (K r))"
    "\<forall>p. (\<forall>r \<in> set rs. p \<noteq> mr_out_path (int (wid r))) \<longrightarrow> disk h' p = disk ?h p" by blast
  have "\<forall>q \<in> set rs. mr_out_path (int (wid r)) \<noteq> mr_out_path (int (wid q))"
    using Cons.prems(3,4) by (auto simp: mr_out_path_inj inj_on_def)
  then have "disk h' (mr_out_path (int (wid r))) = Some (reduce_text g (K r))"
    using h'(3) [rule_format, of "mr_out_path (int (wid r))"] by simp
  then show ?case using call h' by auto
qed

subsection \<open>The whole job\<close>

text \<open>All pairs that a map function without errors emits, task by task and file by file.\<close>

definition task_pairs :: "(string \<Rightarrow> string \<Rightarrow> KV list) \<Rightarrow> fs \<Rightarrow> path list \<Rightarrow> nat \<Rightarrow> nat \<Rightarrow> KV list list" where
  "task_pairs m d files n i =
     map (\<lambda>p. m p (concat (chunk_lines (read_strings (the (d p))) n i))) files"

definition all_pairs :: "(string \<Rightarrow> string \<Rightarrow> KV list) \<Rightarrow> fs \<Rightarrow> path list \<Rightarrow> nat \<Rightarrow> KV list" where
  "all_pairs m d files n = concat (map (\<lambda>i. concat (task_pairs m d files n i)) [0..<n])"

definition shuffle_clean :: "KV list \<Rightarrow> bool" where
  "shuffle_clean kvs \<longleftrightarrow> (\<forall>kv \<in> set kvs. kv_wf kv \<and> starts_clean (Key kv) \<and> ends_clean (Value kv))"

lemma shuffle_clean_ok:
  assumes "shuffle_clean kvs" "set xs \<subseteq> set kvs"
  shows "imd_ok xs"
proof (cases "xs = []")
  case True
  then show ?thesis by (simp add: imd_ok_def imd_ends_clean_def)
next
  case False
  then have "hd xs \<in> set kvs" "last xs \<in> set kvs" using assms(2) by auto
  then show ?thesis using assms
    by (auto simp: shuffle_clean_def imd_ok_def imd_ends_clean_def list_all_iff)
qed

lemma reduce_text_bag:
  assumes "bag_reducer g" "mset kvs = mset kvs'"
  shows "reduce_text g kvs = reduce_text g kvs'"
proof -
  have "g k (values_of kvs k) = g k (values_of kvs' k)" for k
    by (rule bag_reducer.bag [OF assms(1)]) (simp add: mset_filter assms(2))
  moreover have "set kvs = set kvs'" using assms(2) by (rule mset_eq_setD)
  ultimately show ?thesis by (simp add: reduce_text_def)
qed

lemma map_feeds_shares:
  assumes "list_all2 (share_ok d n i) files fis"
    and "\<forall>p \<in> set files. \<exists>c. d p = Some c \<and> int (length c) \<le> max_alloc"
  shows "map_feeds (\<lambda>fn c. Done (m fn c)) d (map (\<lambda>fi. \<lparr>FileName = FileName fi, From = wrap64 (From fi), To = wrap64 (To fi)\<rparr>) fis)
    = Done (map (\<lambda>p. m p (concat (chunk_lines (read_strings (the (d p))) n i))) files) \<and>
    map FileName fis = files"
  using assms
proof (induction rule: list_all2_induct)
  case (Cons p ps fi fis)
  from Cons.hyps(1) obtain c a b where c: "d p = Some c" "FileName fi = p" "From fi = int a" "To fi = int b" "a \<le> b"
    "b \<le> length c" "take (b - a) (drop a c) = concat (chunk_lines (read_strings c) n i)"
    by (auto simp: share_ok_def)
  have lim: "int (length c) \<le> max_alloc" using Cons.prems c(1) by auto
  then have "int b \<le> 2 ^ 48" "int a \<le> 2 ^ 48" using c(5,6) by (simp_all add: max_alloc_def)
  then have "wrap64 (int a) = int a" "wrap64 (int b) = int b" by (auto intro!: wrap64_id simp: int64_def)
  then have "partialContent d \<lparr>FileName = FileName fi, From = wrap64 (From fi), To = wrap64 (To fi)\<rparr> =
      Done (concat (chunk_lines (read_strings c) n i))"
    using partialContent_inside [of d "\<lparr>FileName = p, From = int a, To = int b\<rparr>" c a b] c lim by simp
  then show ?case using Cons.IH Cons.prems c by simp
qed simp

lemma job_master_facts:
  assumes "distinct us" "length ips = length us"
  shows "totalWorkers (job_master us ips rus R) = int (length us)"
    "ReduceTasks (job_master us ips rus R) = newReduceTasks rus (int R)"
    "i < length us \<Longrightarrow> serviceDiscovey (job_master us ips rus R) (us ! i) = ips ! i"
proof -
  let ?regs = "zip us ips"
  let ?ws = "map (\<lambda>(u, ip). newWorkerInfo u ip) ?regs"
  have jm: "job_master us ips rus R = (NewMaster rus (int (length us)) (int R))
      \<lparr>Workers := ?ws, numWorkers := int (length ?regs)\<rparr>"
    using register_all_result [OF registry_ok_NewMaster, of ?regs rus "int (length us)" "int R"]
    by (simp add: job_master_def NewMaster_def)
  then show "totalWorkers (job_master us ips rus R) = int (length us)"
    "ReduceTasks (job_master us ips rus R) = newReduceTasks rus (int R)" by (simp_all add: NewMaster_def)
  have "map wiUUID ?ws = us"
    using assms(2) by (intro nth_equalityI) (auto simp: newWorkerInfo_def)
  moreover have "newWorkerInfo (us ! i) (ips ! i) \<in> set ?ws" if "i < length us"
    using that assms(2) by (force simp: set_zip)
  ultimately show "i < length us \<Longrightarrow> serviceDiscovey (job_master us ips rus R) (us ! i) = ips ! i"
    using discover_distinct [of ?ws "newWorkerInfo (us ! i) (ips ! i)" "[]"] assms(1)
    by (simp add: serviceDiscovey_def jm newWorkerInfo_def)
qed

text \<open>The tasks of \<open>n\<close> workers after the distribution of the input.\<close>

lemma distributed_tasks:
  assumes ms: "totalWorkers ms = int n" "0 < n"
    and files: "files \<noteq> []" "\<forall>p \<in> set files. (\<exists>c. disk h p = Some c \<and> int (length c) \<le> max_alloc) \<and> (\<forall>u t. p \<noteq> imd_path h inRAM u t)"
    and dw: "distributeWork (disk h) tus files ms = Done ms1"
  shows "\<exists>mts. ms1 = ms\<lparr>MapTasks := mts\<rparr> \<and> length mts = n \<and>
    (\<forall>i < n. map_feeds (\<lambda>fn c. Done (m fn c)) (disk h) (map_toRPC (mts ! i)) = Done (task_pairs m (disk h) files n i) \<and>
      map_toRPC (mts ! i) \<noteq> [] \<and> (\<forall>fi \<in> set (map_toRPC (mts ! i)). \<forall>u t. FileName fi \<noteq> imd_path h inRAM u t))"
proof -
  have lim: "\<forall>p \<in> set files. \<exists>c. disk h p = Some c \<and> int (length c) \<le> max_alloc" and ex: "\<forall>p \<in> set files. disk h p \<noteq> None"
    using files(2) by auto
  obtain mts where ms1: "ms1 = ms\<lparr>MapTasks := mts\<rparr>" "length mts = n"
    and sh: "\<And>i. i < n \<Longrightarrow> list_all2 (share_ok (disk h) n i) files (mtFiles (mts ! i))"
    using distributeWork_Done [OF ms ex, of tus] dw by auto
  have "map_feeds (\<lambda>fn c. Done (m fn c)) (disk h) (map_toRPC (mts ! i)) = Done (task_pairs m (disk h) files n i)"
    "map FileName (map_toRPC (mts ! i)) = files" if "i < n" for i
    using map_feeds_shares [OF sh [OF that] lim, of m]
    by (simp_all add: map_toRPC_def task_pairs_def comp_def)
  moreover have "map_toRPC (mts ! i) \<noteq> []" if "i < n" for i
    using sh [OF that] files(1) by (auto simp: map_toRPC_def)
  moreover have "FileName fi \<noteq> imd_path h inRAM u t"
    if "i < n" "fi \<in> set (map_toRPC (mts ! i))" for i fi u t
  proof -
    have "FileName fi \<in> set files" using calculation(2) [OF that(1)] that(2) by (metis image_eqI list.set_map)
    then show ?thesis using files(2) by auto
  qed
  ultimately show ?thesis using ms1 by blast
qed

lemma job_map_ready:
  assumes su: "job_setup us ips R inRAM files h"
    and dw: "distributeWork (disk h) tus files (job_master us ips rus R) = Done ms1"
  shows "map_ready (\<lambda>fn c. Done (m fn c)) us ips R inRAM (task_pairs m (disk h) files (length us)) {0..<length us} h ms1"
    "\<forall>t < R. IMDs (ReduceTasks ms1 ! t) = []"
proof -
  have n: "0 < length us" and us: "distinct us" "length ips = length us" and files: "files \<noteq> []"
    "\<forall>p \<in> set files. (\<exists>c. disk h p = Some c \<and> int (length c) \<le> max_alloc) \<and> (\<forall>u t. p \<noteq> imd_path h inRAM u t)"
    using su by (auto simp: job_setup_def)
  note jm = job_master_facts [OF us]
  obtain mts where ms1: "ms1 = (job_master us ips rus R)\<lparr>MapTasks := mts\<rparr>"
    and ok: "\<forall>i < length us. map_feeds (\<lambda>fn c. Done (m fn c)) (disk h) (map_toRPC (mts ! i)) =
        Done (task_pairs m (disk h) files (length us) i) \<and>
      map_toRPC (mts ! i) \<noteq> [] \<and> (\<forall>fi \<in> set (map_toRPC (mts ! i)). \<forall>u t. FileName fi \<noteq> imd_path h inRAM u t)"
    using distributed_tasks [OF jm(1) n files dw, of m] by blast
  have "serviceDiscovey ms1 u = serviceDiscovey (job_master us ips rus R) u" for u
    by (simp add: ms1 serviceDiscovey_def)
  then show "map_ready (\<lambda>fn c. Done (m fn c)) us ips R inRAM (task_pairs m (disk h) files (length us)) {0..<length us} h ms1"
    using su jm ok by (simp add: map_ready_def ms1 newReduceTasks_def job_setup_def)
  show "\<forall>t < R. IMDs (ReduceTasks ms1 ! t) = []"
    by (simp add: ms1 jm newReduceTasks_def newReduceTask_def)
qed

lemma buckets_subset:
  assumes "buckets_ok R es imd" "t < R"
  shows "set (imd ! t) \<subseteq> set (concat es)"
proof -
  have "set_mset (mset (imd ! t)) \<subseteq> set_mset (mset (concat es))"
    using assms by (auto simp: buckets_ok_def)
  then show ?thesis by simp
qed

lemma all_pairs_order:
  assumes "distinct order" "set order = {0..<n}"
  shows "mset (concat (map (\<lambda>i. concat (task_pairs m d files n i)) order)) = mset (all_pairs m d files n)"
proof -
  have "mset order = mset [0..<n]" using assms by (metis distinct_upt set_eq_iff_mset_eq_distinct set_upt)
  then have "image_mset (\<lambda>i. mset (concat (task_pairs m d files n i))) (mset order) =
      image_mset (\<lambda>i. mset (concat (task_pairs m d files n i))) (mset [0..<n])" by simp
  moreover have "mset (concat (map (\<lambda>i. concat (task_pairs m d files n i)) is)) =
      sum_mset (image_mset (\<lambda>i. mset (concat (task_pairs m d files n i))) (mset is))" for "is"
    by (induction "is") auto
  ultimately show ?thesis by (simp add: all_pairs_def)
qed

text \<open>From a finished map phase the reduce phase leaves the right output files.\<close>

lemma job_reduce_part:
  assumes su: "job_setup us ips R inRAM files h" and g: "bag_reducer g" and srt: "key_sorter srt"
    and clean: "shuffle_clean (all_pairs m (disk h) files (length us))"
    and dw: "distributeWork (disk h) tus files (job_master us ips rus R) = Done ms1"
    and ord: "distinct order" "set order = {0..<length us}"
    and calls: "map_calls (\<lambda>fn c. Done (m fn c)) (job_workers us R inRAM) order h ms1 h2 ms2"
    and rord: "distinct rorder" "set rorder = {0..<R}"
  shows "\<exists>h3. reduce_calls srt g ips (job_workers us R inRAM) ms2 rorder h2 = Done h3 \<and>
    (\<forall>r < R. disk h3 (mr_out_path (int r)) =
       Some (reduce_text g (bucket R r (all_pairs m (disk h) files (length us))))) \<and>
    (\<forall>p. (\<forall>r < R. p \<noteq> mr_out_path (int r)) \<and> (\<forall>u t. p \<noteq> imd_path h inRAM u t) \<longrightarrow> disk h3 p = disk h p)"
proof -
  let ?es = "task_pairs m (disk h) files (length us)"
  let ?all = "all_pairs m (disk h) files (length us)"
  have R: "0 < R" "R \<le> length us" and us: "distinct us" "\<forall>u \<in> set us. length u = length (hd us)"
    "length ips = length us" using su by (auto simp: job_setup_def)
  note rdy = job_map_ready [OF su dw]
  obtain B where B: "\<forall>i < length us. buckets_ok R (?es i) (B i) \<and> written h inRAM us R i (B i) h2"
    and h2: "h2 = h\<lparr>disk := disk h2\<rparr>"
    and imds: "\<forall>t < R. IMDs (ReduceTasks ms2 ! t) = map (imd_entry h inRAM us ips t) order"
    and off: "\<forall>p. (\<forall>u t. p \<noteq> imd_path h inRAM u t) \<longrightarrow> disk h2 p = disk h p"
  proof -
    have "map_ready (\<lambda>fn c. Done (m fn c)) us ips R inRAM ?es (set order) h ms1" using rdy(1) ord(2) by simp
    from map_calls_result [OF calls this R(1) ord(1) us(1,2)] obtain B where
      "\<forall>i \<in> set order. buckets_ok R (?es i) (B i) \<and> written h inRAM us R i (B i) h2" "h2 = h\<lparr>disk := disk h2\<rparr>"
      "\<forall>t < R. IMDs (ReduceTasks ms2 ! t) = IMDs (ReduceTasks ms1 ! t) @ map (imd_entry h inRAM us ips t) order"
      "\<forall>p. (\<forall>i \<in> set order. \<forall>t. p \<noteq> imd_path h inRAM (us ! i) t) \<longrightarrow> disk h2 p = disk h p"
      by blast
    then show ?thesis using rdy(2) ord(2) by (intro that [of B]) simp_all
  qed
  have path: "imd_path h2 inRAM u t = imd_path h inRAM u t" for u t by (subst h2) simp
  have "set (concat (?es i)) \<subseteq> set ?all" if "i < length us" for i using that by (auto simp: all_pairs_def)
  then have ok: "imd_ok (B i ! t)" if "i < length us" "t < R" for i t
    using buckets_subset [of R "?es i" "B i" t] B that by (intro shuffle_clean_ok [OF clean]) blast
  have bag: "mset (concat (map (\<lambda>i. B i ! t) order)) = mset (bucket R t ?all)" if "t < R" for t
    using buckets_concat [of order R ?es B t] that B ord all_pairs_order [OF ord, of m "disk h" files]
    by (simp add: bucket_def)
  have "\<exists>h3. reduce_calls srt g ips (job_workers us R inRAM) ms2 rorder h2 = Done h3 \<and>
    (\<forall>r \<in> set rorder. disk h3 (mr_out_path (int r)) = Some (reduce_text g (bucket R r ?all))) \<and>
    (\<forall>p. (\<forall>r \<in> set rorder. p \<noteq> mr_out_path (int r)) \<longrightarrow> disk h3 p = disk h2 p)"
  proof (rule reduce_calls_result [where wid = "\<lambda>r. r", OF g srt])
    show "\<forall>r. writable h2 (mr_out_path r)" using su by (subst h2) (simp add: job_setup_def)
    show "\<forall>r \<in> set rorder. wID (job_workers us R inRAM ! r) = int r" using rord R by (auto simp: job_worker_sel)
    show "inj_on (\<lambda>r. r) (set rorder)" "distinct rorder" using rord by simp_all
    fix h' :: host and r
    assume r: "r \<in> set rorder" and eq: "\<forall>u t. disk h' (imd_path h2 inRAM u t) = disk h2 (imd_path h2 inRAM u t)"
    then have "gather_imd (\<lambda>ip. if ip \<in> set ips then Some (disk h') else None) (reduce_toRPC (ReduceTasks ms2 ! r)) =
        Done (concat (map (\<lambda>i. B i ! r) order))"
      using gather_task [of "ReduceTasks ms2 ! r" h inRAM us ips r order R ips B h'] imds rord ord us(3) B ok
      by (auto simp: written_def path)
    then show "\<exists>kvs. gather_imd (\<lambda>ip. if ip \<in> set ips then Some (disk h') else None)
        (reduce_toRPC (ReduceTasks ms2 ! r)) = Done kvs \<and> mset kvs = mset (bucket R r ?all)"
      using bag r rord by auto
  qed
  then show ?thesis using rord off by auto
qed

lemma job_output:
  assumes "job_setup us ips R inRAM files h" "bag_reducer g" "key_sorter srt"
    and "shuffle_clean (all_pairs m (disk h) files (length us))"
    and "job srt (\<lambda>fn c. Done (m fn c)) g us ips R inRAM files h h3" and "r < R"
  shows "disk h3 (mr_out_path (int r)) = Some (reduce_text g (bucket R r (all_pairs m (disk h) files (length us))))"
  using assms(5)
proof cases
  case (1 tus rus ms1 order h2 ms2 rorder)
  from job_reduce_part [OF assms(1-4) 1(1-6)] 1(7) assms(6) show ?thesis by auto
qed

text \<open>A job writes its outputs and its intermediate files and nothing else.\<close>

lemma job_frame:
  assumes "job_setup us ips R inRAM files h" "bag_reducer g" "key_sorter srt"
    and "shuffle_clean (all_pairs m (disk h) files (length us))"
    and "job srt (\<lambda>fn c. Done (m fn c)) g us ips R inRAM files h h3"
    and "\<forall>r < R. p \<noteq> mr_out_path (int r)" "\<forall>u t. p \<noteq> imd_path h inRAM u t"
  shows "disk h3 p = disk h p"
  using assms(5)
proof cases
  case (1 tus rus ms1 order h2 ms2 rorder)
  from job_reduce_part [OF assms(1-4) 1(1-6)] 1(7) assms(6,7) show ?thesis by auto
qed

lemma job_exists_from:
  assumes su: "job_setup us ips R inRAM files h" "bag_reducer g" "key_sorter srt"
    and clean: "shuffle_clean (all_pairs m (disk h) files (length us))"
  shows "\<exists>tus ms1 h2 ms2 h3. distributeWork (disk h) tus files (job_master us ips rus R) = Done ms1 \<and>
    map_calls (\<lambda>fn c. Done (m fn c)) (job_workers us R inRAM) [0..<length us] h ms1 h2 ms2 \<and>
    reduce_calls srt g ips (job_workers us R inRAM) ms2 [0..<R] h2 = Done h3"
proof -
  let ?f = "\<lambda>fn c. Done (m fn c)" let ?n = "length us"
  have R: "0 < R" and n: "0 < ?n" and us: "distinct us" "length ips = ?n"
    and files: "\<forall>p \<in> set files. disk h p \<noteq> None" using su(1) by (auto simp: job_setup_def)
  obtain ms1 where dw: "distributeWork (disk h) (\<lambda>_. []) files (job_master us ips rus R) = Done ms1"
    using distributeWork_Done [OF job_master_facts(1) [OF us] n files] by blast
  obtain h2 ms2 where calls: "map_calls ?f (job_workers us R inRAM) [0..<?n] h ms1 h2 ms2"
  proof -
    have "map_ready ?f us ips R inRAM (task_pairs m (disk h) files ?n) (set [0..<?n]) h ms1"
      using job_map_ready(1) [OF su(1) dw] by simp
    from map_calls_exist [OF this R] show ?thesis using that by blast
  qed
  obtain h3 where "reduce_calls srt g ips (job_workers us R inRAM) ms2 [0..<R] h2 = Done h3"
    using job_reduce_part [OF su clean dw _ _ calls, of "[0..<R]"] by auto
  with dw calls show ?thesis by blast
qed

lemma job_exists:
  assumes "job_setup us ips R inRAM files h" "bag_reducer g" "key_sorter srt"
    and "shuffle_clean (all_pairs m (disk h) files (length us))"
  shows "\<exists>h3. job srt (\<lambda>fn c. Done (m fn c)) g us ips R inRAM files h h3"
proof -
  obtain tus ms1 h2 ms2 h3 where "distributeWork (disk h) tus files (job_master us ips (\<lambda>_. []) R) = Done ms1"
    "map_calls (\<lambda>fn c. Done (m fn c)) (job_workers us R inRAM) [0..<length us] h ms1 h2 ms2"
    "reduce_calls srt g ips (job_workers us R inRAM) ms2 [0..<R] h2 = Done h3"
    using job_exists_from [OF assms] by blast
  from job.intros [OF this(1) _ _ this(2) _ _ this(3)] show ?thesis by auto
qed

subsection \<open>Jobs on rows\<close>

lemma read_strings_line:
  assumes "NL \<notin> set l"
  shows "read_strings (l @ NL # s) = (l @ [NL]) # read_strings s"
proof -
  have "takeWhile (\<lambda>c. c \<noteq> NL) (l @ NL # s) = l" "dropWhile (\<lambda>c. c \<noteq> NL) (l @ NL # s) = NL # s"
    using assms by (induction l) auto
  then show ?thesis by (simp add: read_strings.simps [of "l @ NL # s"])
qed

lemma read_strings_rows:
  "\<forall>r \<in> set rows. row_ok r \<Longrightarrow> read_strings (row_text rows) = map (\<lambda>r. row_line r @ [NL]) rows"
proof (induction rows)
  case Nil
  then show ?case by (simp add: row_text_def read_strings.simps)
next
  case (Cons r rows)
  then show ?case
    using read_strings_line [of "row_line r" "row_text rows"] row_line_clean(3) [of r] by (simp add: row_text_def)
qed

lemma chunk_lines_map: "chunk_lines (map g xs) n i = map g (chunk_lines xs n i)"
  by (simp add: chunk_lines_def take_map drop_map)

lemma set_chunk_lines: "set (chunk_lines xs n i) \<subseteq> set xs"
  unfolding chunk_lines_def by (meson in_set_dropD in_set_takeD subsetI)

lemma mset_concat_swap:
  "mset (concat (map (\<lambda>i. concat (map (\<lambda>p. F i p) ps)) is)) =
   mset (concat (map (\<lambda>p. concat (map (\<lambda>i. F i p) is)) ps))"
proof (induction "is")
  case Nil
  then show ?case by (induction ps) auto
next
  case (Cons i "is")
  have "mset (concat (map (\<lambda>p. F i p @ G p) ps)) = mset (concat (map (F i) ps)) + mset (concat (map G ps))" for G
    by (induction ps) auto
  then show ?case using Cons by simp
qed

text \<open>Together the chunks of the files give one pair per row, for a map function on rows.\<close>

lemma all_pairs_rows:
  assumes m: "\<And>fn rs. \<forall>r \<in> set rs. row_ok r \<Longrightarrow> m fn (row_text rs) = map row_kv rs"
    and d: "\<forall>p \<in> set files. d p = Some (row_text (rows p)) \<and> (\<forall>r \<in> set (rows p). row_ok r)" and n: "0 < n"
  shows "mset (all_pairs m d files n) = mset (map row_kv (concat (map rows files)))"
proof -
  have chunk: "m p (concat (chunk_lines (read_strings (the (d p))) n i)) = map row_kv (chunk_lines (rows p) n i)"
    if "p \<in> set files" for p i
  proof -
    have ok: "\<forall>r \<in> set (rows p). row_ok r" "d p = Some (row_text (rows p))" using d that by auto
    have "concat (chunk_lines (read_strings (the (d p))) n i) = row_text (chunk_lines (rows p) n i)"
      unfolding ok(2) option.sel read_strings_rows [OF ok(1)] chunk_lines_map by (simp add: row_text_def)
    then show ?thesis using m ok(1) set_chunk_lines [of "rows p" n i] by auto
  qed
  have "concat (map (\<lambda>i. map row_kv (chunk_lines (rows p) n i)) [0..<n]) = map row_kv (rows p)" for p
    using chunk_lines_concat [OF n, of "map row_kv (rows p)"] by (simp add: chunk_lines_map [abs_def])
  moreover have "all_pairs m d files n =
      concat (map (\<lambda>i. concat (map (\<lambda>p. map row_kv (chunk_lines (rows p) n i)) files)) [0..<n])"
    unfolding all_pairs_def task_pairs_def using chunk by (simp cong: map_cong)
  ultimately show ?thesis
    using mset_concat_swap [of "\<lambda>i p. map row_kv (chunk_lines (rows p) n i)" files "[0..<n]"]
    by (simp add: map_concat comp_def)
qed

lemma rows_shuffle_clean:
  assumes "mset kvs = mset (map row_kv rs)" "\<forall>r \<in> set rs. row_ok r \<and> starts_clean (Key (row_kv r))"
  shows "shuffle_clean kvs"
  using assms(2) mset_eq_setD [OF assms(1)]
  by (auto simp: shuffle_clean_def row_ok_def row_kv_def kv_wf_def split_beta)

text \<open>The pairs of an \<^verbatim>\<open>agg\<close> job on rows, and its output.\<close>

lemma agg_pairs:
  assumes rows: "\<forall>p \<in> set files. d p = Some (row_text (rows p)) \<and>
      (\<forall>r \<in> set (rows p). row_ok r \<and> starts_clean (Key (row_kv r)))" and n: "0 < n"
  shows "mset (all_pairs agg_Map d files n) = mset (map row_kv (concat (map rows files)))"
    and "shuffle_clean (all_pairs agg_Map d files n)"
proof -
  have m: "agg_Map fn (row_text rs) = map row_kv rs" if "\<forall>r \<in> set rs. row_ok r" for fn rs
    using content_rows [OF that] by (auto simp: agg_Map_def row_kv_def)
  show all: "mset (all_pairs agg_Map d files n) = mset (map row_kv (concat (map rows files)))"
    using rows by (intro all_pairs_rows [OF m _ n]) auto
  show "shuffle_clean (all_pairs agg_Map d files n)" using rows by (intro rows_shuffle_clean [OF all]) auto
qed

lemma agg_frame:
  assumes su: "job_setup us ips R inRAM files h" and srt: "key_sorter srt"
    and rows: "\<forall>p \<in> set files. disk h p = Some (row_text (rows p)) \<and>
      (\<forall>r \<in> set (rows p). row_ok r \<and> starts_clean (Key (row_kv r)))"
    and run: "job srt (\<lambda>fn c. Done (agg_Map fn c)) agg_Reduce us ips R inRAM files h h'"
    and p: "\<forall>r < R. p \<noteq> mr_out_path (int r)" "\<forall>u t. p \<noteq> imd_path h inRAM u t"
  shows "disk h' p = disk h p"
proof -
  have "0 < length us" using su by (auto simp: job_setup_def)
  from job_frame [OF su agg.bag_reducer_axioms srt agg_pairs(2) [OF rows this] run p] show ?thesis .
qed

lemma agg_job:
  assumes su: "job_setup us ips R inRAM files h" and srt: "key_sorter srt"
    and rows: "\<forall>p \<in> set files. disk h p = Some (row_text (rows p)) \<and>
      (\<forall>r \<in> set (rows p). row_ok r \<and> starts_clean (Key (row_kv r)))"
  shows "(\<exists>h'. job srt (\<lambda>fn c. Done (agg_Map fn c)) agg_Reduce us ips R inRAM files h h') \<and>
    (\<forall>h'. job srt (\<lambda>fn c. Done (agg_Map fn c)) agg_Reduce us ips R inRAM files h h' \<longrightarrow>
       (\<forall>r < R. disk h' (mr_out_path (int r)) =
          Some (let kvs = map row_kv (concat (map rows files))
                in concat (map (\<lambda>k. k @ '' '' @ itoa (wrap64 (sum_list (nums_of (values_of kvs k)))) @ [NL])
                     (sorted_list_of_set {k \<in> Key ` set kvs. reducer_index R k = r})))))"
proof -
  let ?kvs = "map row_kv (concat (map rows files))"
  let ?all = "all_pairs agg_Map (disk h) files (length us)"
  have n: "0 < length us" using su by (auto simp: job_setup_def)
  note all = agg_pairs(1) [OF rows n] and clean = agg_pairs(2) [OF rows n]
  note jobs = job_exists [OF su agg.bag_reducer_axioms srt clean] job_output [OF su agg.bag_reducer_axioms srt clean]
  have "reduce_text agg_Reduce (bucket R r ?all) =
      concat (map (\<lambda>k. k @ '' '' @ itoa (wrap64 (sum_list (nums_of (values_of ?kvs k)))) @ [NL])
        (sorted_list_of_set {k \<in> Key ` set ?kvs. reducer_index R k = r}))" for r
  proof -
    have "mset (bucket R r ?all) = mset (bucket R r ?kvs)" using all by (simp add: bucket_def)
    then have "reduce_text agg_Reduce (bucket R r ?all) = reduce_text agg_Reduce (bucket R r ?kvs)"
      by (rule reduce_text_bag [OF agg.bag_reducer_axioms])
    moreover have "Key ` set (bucket R r ?kvs) = {k \<in> Key ` set ?kvs. reducer_index R k = r}"
      by (auto simp: bucket_def)
    moreover have "values_of (bucket R r ?kvs) k = values_of ?kvs k" if "reducer_index R k = r" for k
      using that by (auto simp: bucket_def intro!: arg_cong [where f = "map Value"] filter_cong)
    ultimately show ?thesis
      by (auto simp: reduce_text_def out_line_def agg_Reduce_def agg_sum_eq int64_0
        intro!: arg_cong [where f = concat] map_cong)
  qed
  with jobs show ?thesis by (simp add: Let_def)
qed

subsection \<open>A small host\<close>

text \<open>A disk with one file of three rows, on which the properties are instantiated.\<close>

definition sample_rows :: "(string \<times> string \<times> string) list" where
  "sample_rows = [(''1'', ''a'', itoa 5), (''2'', ''b'', itoa 6), (''3'', ''a'', itoa 7)]"

definition sample_host :: host where
  "sample_host = \<lparr>disk = [''in'' \<mapsto> row_text sample_rows], writable = (\<lambda>_. True), shm_is_dir = True, temp_dir = ''/tmp''\<rparr>"

lemma sample_host_setup:
  assumes "distinct us" "\<forall>u \<in> set us. length u = length (hd us)" "length ips = length us" "0 < R" "R \<le> length us"
  shows "job_setup us ips R True [''in''] sample_host"
proof -
  have "''in'' \<noteq> imd_path sample_host True u t" for u t
  proof -
    have "CHR ''/'' \<notin> set ''in''" by simp
    then show ?thesis using slash_imd_path [of sample_host True u t] by metis
  qed
  moreover have "int (length (row_text sample_rows)) \<le> max_alloc" by code_simp
  ultimately show ?thesis using assms by (simp add: job_setup_def sample_host_def)
qed

lemma sample_rows_ok: "\<forall>p \<in> set [''in'']. disk sample_host p = Some (row_text ((\<lambda>_. sample_rows) p)) \<and>
    (\<forall>r \<in> set ((\<lambda>_. sample_rows) p). row_ok r \<and> starts_clean (Key (row_kv r)))"
proof -
  have "\<forall>r \<in> set sample_rows. row_ok r \<and> starts_clean (Key (row_kv r))" by code_simp
  then show ?thesis by (simp add: sample_host_def)
qed

end
