(* ===== verification/Pipeline.thy ===== *)
theory Pipeline
  imports Mysql_Export Flow_Config Runtime Job
begin

text \<open>
  The runs that put source, job and sink together: the runner interface and its in-process
  implementation (\<^verbatim>\<open>batch/runner.go\<close>, \<^verbatim>\<open>batch/runner_legacy.go\<close>), the MySQL pipeline (\<^verbatim>\<open>batch/pipeline.go\<close>)
  and the configured flow (\<^verbatim>\<open>batch/flow.go\<close>). A run is a relation between the state before and the result and
  the state after; a run that panics or does not return is related to nothing.
\<close>

subsection \<open>Runners\<close>

record MapReduceRunConfig =
  mrFiles :: "path list"
  mrPluginPath :: path
  mrReducers :: int
  mrWorkers :: int
  mrInRAM :: bool
  mrPort :: int

text \<open>An implementation of \<^verbatim>\<open>Runner\<close>: the error it returns and the host it leaves.\<close>

type_synonym runner = "MapReduceRunConfig \<Rightarrow> host \<Rightarrow> string option \<Rightarrow> host \<Rightarrow> bool"

text \<open>
  \<^verbatim>\<open>LegacyRunner.Run\<close>: the checks, with \<open>Some\<close> what they return and the error \<open>ctxErr\<close> of a context that is
  already over.
\<close>

definition legacy_checks :: "string option \<Rightarrow> MapReduceRunConfig \<Rightarrow> string option option" where
  "legacy_checks ctxErr cfg =
     (if mrFiles cfg = [] then Some None
      else if mrPluginPath cfg = [] then Some (Some ''plugin path is required'')
      else if mrReducers cfg \<le> 0 then Some (Some ''reducers must be > 0'')
      else if mrWorkers cfg \<le> 0 then Some (Some ''workers must be > 0'')
      else (case ctxErr of Some er \<Rightarrow> Some (Some er) | None \<Rightarrow> None))"

text \<open>What the \<^verbatim>\<open>select\<close> of the waiting loop finds ready: the end of the job or the closed channel of the context.\<close>

datatype wait_event = EvDone "string option" | EvCancel

fun legacy_wait :: "string \<Rightarrow> wait_event list \<Rightarrow> bool \<Rightarrow> string option option" where
  "legacy_wait ctxErr [] canceled = None"
| "legacy_wait ctxErr (EvDone (Some er) # evs) canceled = Some (Some er)"
| "legacy_wait ctxErr (EvDone None # evs) canceled = Some (if canceled then Some ctxErr else None)"
| "legacy_wait ctxErr (EvCancel # evs) canceled = legacy_wait ctxErr evs True"

text \<open>
  \<open>start\<close> is \<^verbatim>\<open>StartSingleMachineJobWithAddr\<close> on the files, the plugin, the numbers of reducers and workers, the
  place of the intermediate files and the address of the master.
\<close>

type_synonym job_start = "path list \<Rightarrow> path \<Rightarrow> int \<Rightarrow> int \<Rightarrow> bool \<Rightarrow> addr \<Rightarrow> host \<Rightarrow> string option \<Rightarrow> host \<Rightarrow> bool"

definition LegacyRunner_Run :: "job_start \<Rightarrow> string option \<Rightarrow> string \<Rightarrow> wait_event list \<Rightarrow> runner" where
  "LegacyRunner_Run start ctxErr cancelErr evs cfg h res h' \<longleftrightarrow>
     (case legacy_checks ctxErr cfg of
        Some r \<Rightarrow> res = r \<and> h' = h
      | None \<Rightarrow>
          (\<exists>er. start (mrFiles cfg) (mrPluginPath cfg) (mrReducers cfg) (mrWorkers cfg) (mrInRAM cfg)
                 ('':'' @ itoa (if mrPort cfg \<le> 0 then 10000 else mrPort cfg)) h er h' \<and>
               legacy_wait cancelErr (evs @ [EvDone er]) False = Some res))"

text \<open>The runner of the process: \<^verbatim>\<open>SetDefaultRunner\<close> ignores nil.\<close>

definition SetDefaultRunner :: "'r option \<Rightarrow> 'r \<Rightarrow> 'r" where
  "SetDefaultRunner r def = (case r of None \<Rightarrow> def | Some x \<Rightarrow> x)"

definition RunMapReduce :: "runner \<Rightarrow> runner" where
  "RunMapReduce defaultRunner cfg h res h' \<longleftrightarrow> defaultRunner cfg h res h'"

subsection \<open>The pipeline\<close>

record PipelineConfig =
  plDB :: DBConfig
  plSourceDB :: DBConfig
  plSinkDB :: DBConfig
  plSource :: SourceConfig
  plSink :: SinkConfig
  plPluginPath :: path
  plReducers :: int
  plWorkers :: int
  plInRAM :: bool
  plPort :: int

definition pipeline_withDefaults :: "PipelineConfig \<Rightarrow> PipelineConfig" where
  "pipeline_withDefaults c =
     c\<lparr>plReducers := (if plReducers c \<le> 0 then 8 else plReducers c),
       plWorkers := (if plWorkers c \<le> 0 then 16 else plWorkers c),
       plPort := (if plPort c = 0 then 10000 else plPort c),
       plSource := source_WithDefaults (plSource c), plSink := sink_WithDefaults (plSink c)\<rparr>"

definition cleanupReduceOutputs :: "source_env \<Rightarrow> string \<Rightarrow> fs \<Rightarrow> fs" where
  "cleanupReduceOutputs e inputGlob d = (case glob e inputGlob d of Inl _ \<Rightarrow> d | Inr outs \<Rightarrow> remove_all e outs d)"

definition pipeline_dbs :: "PipelineConfig \<Rightarrow> DBConfig \<times> DBConfig" where
  "pipeline_dbs c =
     ((if DbDatabase (plSourceDB c) = [] then plDB c else plSourceDB c),
      (if DbDatabase (plSinkDB c) = [] then plDB c else plSinkDB c))"

definition pipeline_checks :: "(string \<Rightarrow> string option) \<Rightarrow> PipelineConfig \<Rightarrow> string option" where
  "pipeline_checks ping c =
     (if plPluginPath c = [] then Some ''plugin path is required''
      else if Table (plSource c) = [] then Some ''source table is required''
      else if TargetTable (plSink c) = [] then Some ''target table is required''
      else or_error (openDB ping (fst (pipeline_dbs c))) (openDB ping (snd (pipeline_dbs c))))"

definition pipeline_run_config :: "PipelineConfig \<Rightarrow> path list \<Rightarrow> MapReduceRunConfig" where
  "pipeline_run_config c files =
     \<lparr>mrFiles = files, mrPluginPath = plPluginPath c, mrReducers = plReducers c, mrWorkers = plWorkers c,
      mrInRAM = plInRAM c, mrPort = plPort c\<rparr>"

definition RunPipeline :: "(string \<Rightarrow> string option) \<Rightarrow> source_env \<Rightarrow> 'db sink_exec \<Rightarrow> runner \<Rightarrow> PipelineConfig \<Rightarrow>
    host \<Rightarrow> 'db \<Rightarrow> string option \<Rightarrow> host \<Rightarrow> 'db \<Rightarrow> bool" where
  "RunPipeline ping e ex run cfg h db res h' db' \<longleftrightarrow>
     (let c = pipeline_withDefaults cfg in
      case pipeline_checks ping c of
        Some er \<Rightarrow> res = Some er \<and> h' = h \<and> db' = db
      | None \<Rightarrow>
          (\<exists>r d1. ExportSourceByPKRange e (plSource c) (disk h) r d1 \<and>
             (case r of
                Inl er \<Rightarrow> res = Some er \<and> h' = h\<lparr>disk := d1\<rparr> \<and> db' = db
              | Inr files \<Rightarrow>
                  (if files = [] then res = None \<and> h' = h\<lparr>disk := d1\<rparr> \<and> db' = db
                   else (\<exists>rr. RunMapReduce run (pipeline_run_config c files)
                                (h\<lparr>disk := cleanupReduceOutputs e (InputGlob (plSink c)) d1\<rparr>) rr h' \<and>
                          (case rr of
                             Some er \<Rightarrow> res = Some er \<and> db' = db
                           | None \<Rightarrow> ImportReduceOutputs ex (glob e) (disk h') (plSink c) db = (res, db')))))))"

subsection \<open>The flow\<close>

record ('db, 's) flow_env =
  fePing :: "string \<Rightarrow> string option"
  feSource :: source_env
  feExec :: "'db sink_exec"
  feServe :: "'s serve"
  feDial :: "string \<Rightarrow> 's rres"
  feRedis :: redis_host
  feBuild :: build_env
  feMkdir :: "path \<Rightarrow> bool"
  feRoot :: path

text \<open>The state of a flow; \<open>wConn\<close> is the connection that a successful import into Redis ends with.\<close>

record ('db, 's) world =
  wHost :: host
  wDb :: 'db
  wPlugins :: tfs
  wConn :: "'s conn option"

text \<open>The text of an error; the one of a lost connection stands for whatever the network reports.\<close>

definition redis_text :: "redis_err \<Rightarrow> string" where
  "redis_text er =
     (case er of
        NetErr \<Rightarrow> ''connection'' | NumErr _ \<Rightarrow> ''strconv.Atoi: parsing'' | Server s \<Rightarrow> s
      | UnknownType c \<Rightarrow> ''unexpected resp type'' | Msg s \<Rightarrow> s)"

definition flow_source :: "('db, 's) flow_env \<Rightarrow> FlowSourceConfig \<Rightarrow> fs \<Rightarrow> path list result \<Rightarrow> fs \<Rightarrow> bool" where
  "flow_source E s d r d' \<longleftrightarrow>
     (if fsType s = ''mysql'' then
        (case openDB (fePing E) (fsDB s) of
           Some er \<Rightarrow> r = Inl er \<and> d' = d
         | None \<Rightarrow> SourceAdapter_Export (feSource E) (fsConfig s) d r d')
      else if fsType s = ''redis'' then
        (\<exists>rr. ExportSource (feServe E) (feDial E) (feRedis E) (fsRedis s) (fsRedisConfig s) d = Some (Done (rr, d')) \<and>
              r = (case rr of Inl er \<Rightarrow> Inl (redis_text er) | Inr fs \<Rightarrow> Inr fs))
      else r = Inr [] \<and> d' = d)"

definition flow_inputGlob :: "FlowSinkConfig \<Rightarrow> string option" where
  "flow_inputGlob s =
     (if fkType s = ''mysql'' then Some (SinkAdapter_InputGlob (fkConfig s))
      else if fkType s = ''redis'' then Some (redis_InputGlob (fkRedisConfig s)) else None)"

definition flow_sink :: "('db, 's) flow_env \<Rightarrow> FlowSinkConfig \<Rightarrow> ('db, 's) world \<Rightarrow> string option \<Rightarrow> ('db, 's) world \<Rightarrow> bool" where
  "flow_sink E s w er w' \<longleftrightarrow>
     (if fkType s = ''mysql'' then
        (case openDB (fePing E) (fkDB s) of
           Some e \<Rightarrow> er = Some e \<and> w' = w
         | None \<Rightarrow>
             (case ImportReduceOutputs (feExec E) (glob (feSource E)) (disk (wHost w)) (fkConfig s) (wDb w) of
                (r, db') \<Rightarrow> er = r \<and> w' = w\<lparr>wDb := db'\<rparr>))
      else if fkType s = ''redis'' then
        (\<exists>rr. redis_ImportReduceOutputs (feServe E) (feDial E) (rh_glob (feRedis E)) (fkRedis s) (fkRedisConfig s)
                (disk (wHost w)) = Some (Done rr) \<and>
              (case rr of Inl e \<Rightarrow> er = Some (redis_text e) \<and> w' = w | Inr c \<Rightarrow> er = None \<and> w' = w\<lparr>wConn := Some c\<rparr>))
      else er = None \<and> w' = w)"

definition runMapReduce :: "runner \<Rightarrow> path list \<Rightarrow> path \<Rightarrow> FlowTransformConfig \<Rightarrow> host \<Rightarrow> string option \<Rightarrow> host \<Rightarrow> bool" where
  "runMapReduce run files pluginPath tf h res h' \<longleftrightarrow>
     RunMapReduce run
       \<lparr>mrFiles = files, mrPluginPath = pluginPath, mrReducers = tfReducers tf, mrWorkers = tfWorkers tf,
        mrInRAM = tfInRAM tf, mrPort = tfPort tf\<rparr> h res h'"

text \<open>The function that \<^verbatim>\<open>runFlowInternal\<close> runs inside \<^verbatim>\<open>withTransformParams\<close>, in the environment \<open>env\<close> of the process.\<close>

definition flow_body :: "('db, 's) flow_env \<Rightarrow> (environ \<Rightarrow> runner) \<Rightarrow> FlowConfig \<Rightarrow> environ \<Rightarrow> ('db, 's) world \<Rightarrow>
    string option \<Rightarrow> ('db, 's) world \<Rightarrow> bool" where
  "flow_body E run c env w er w' \<longleftrightarrow>
     (case resolveTransformPlugin (feBuild E) (feMkdir E) (feRoot E) (Transform c) (wPlugins w) of
        (Inl e, f') \<Rightarrow> er = Some e \<and> w' = w\<lparr>wPlugins := f'\<rparr>
      | (Inr plugin, f') \<Rightarrow>
          (\<exists>r d1. flow_source E (Source c) (disk (wHost w)) r d1 \<and>
             (let w1 = w\<lparr>wPlugins := f', wHost := (wHost w)\<lparr>disk := d1\<rparr>\<rparr> in
              case r of
                Inl e \<Rightarrow> er = Some e \<and> w' = w1
              | Inr files \<Rightarrow>
                  (if files = [] then er = None \<and> w' = w1
                   else (case flow_inputGlob (Sink c) of
                           None \<Rightarrow> er = None \<and> w' = w1
                         | Some g \<Rightarrow>
                             (\<exists>rr h2. runMapReduce (run env) files plugin (Transform c)
                                  ((wHost w)\<lparr>disk := cleanupReduceOutputs (feSource E) g d1\<rparr>) rr h2 \<and>
                                (let w2 = w1\<lparr>wHost := h2\<rparr> in
                                 case rr of
                                   Some e \<Rightarrow> er = Some e \<and> w' = w2
                                 | None \<Rightarrow> flow_sink E (Sink c) w2 er w')))))))"

text \<open>
  \<^verbatim>\<open>runFlowInternal\<close>. The parameters are set in some order of the map; \<open>pick\<close> is what the body returns in the environment in
  which it is called.
\<close>

datatype flow_failure = Invalid flow_error | Failed string

definition called_in :: "(string \<times> string) list \<Rightarrow> environ \<Rightarrow> environ \<Rightarrow> bool" where
  "called_in ps env env1 \<longleftrightarrow> (if ps = [] then env1 = env else (\<exists>r. set_params ps [] env = (Inr r, env1)))"

definition runFlowInternal :: "('db, 's) flow_env \<Rightarrow> (environ \<Rightarrow> runner) \<Rightarrow> FlowConfig \<Rightarrow> environ \<Rightarrow> ('db, 's) world \<Rightarrow>
    flow_failure option \<Rightarrow> environ \<Rightarrow> ('db, 's) world \<Rightarrow> bool" where
  "runFlowInternal E run cfg env w res env' w' \<longleftrightarrow>
     (let c = flow_withDefaults cfg in
      case ValidateFlowConfig c of
        Some er \<Rightarrow> res = Some (Invalid er) \<and> env' = env \<and> w' = w
      | None \<Rightarrow>
          (\<exists>ps pick er. mset ps = mset (tfParams (Transform c)) \<and>
             (\<forall>env1. called_in ps env env1 \<longrightarrow> flow_body E run c env1 w (fst (pick env1 w)) (snd (pick env1 w))) \<and>
             withTransformParams ps pick env w = (er, env', w') \<and> res = map_option Failed er))"

text \<open>\<^verbatim>\<open>RunFlow\<close> and \<^verbatim>\<open>RunFlowBenchmark\<close> differ in the durations that the second one returns.\<close>

definition RunFlow :: "('db, 's) flow_env \<Rightarrow> (environ \<Rightarrow> runner) \<Rightarrow> FlowConfig \<Rightarrow> environ \<Rightarrow> ('db, 's) world \<Rightarrow>
    flow_failure option \<Rightarrow> environ \<Rightarrow> ('db, 's) world \<Rightarrow> bool" where
  "RunFlow E run cfg env w res env' w' \<longleftrightarrow> runFlowInternal E run cfg env w res env' w'"

definition RunFlowBenchmark :: "('db, 's) flow_env \<Rightarrow> (environ \<Rightarrow> runner) \<Rightarrow> FlowConfig \<Rightarrow> environ \<Rightarrow> ('db, 's) world \<Rightarrow>
    flow_failure option \<Rightarrow> environ \<Rightarrow> ('db, 's) world \<Rightarrow> bool" where
  "RunFlowBenchmark E run cfg env w res env' w' \<longleftrightarrow> runFlowInternal E run cfg env w res env' w'"

subsection \<open>Files of the source and of the job\<close>

lemma source_defaults_twice: "source_WithDefaults (source_WithDefaults c) = source_WithDefaults c"
  by (simp add: source_WithDefaults_def or_default_def)

lemma sink_defaults_twice: "sink_WithDefaults (sink_WithDefaults c) = sink_WithDefaults c"
  by (simp add: sink_WithDefaults_def or_default_def)

text \<open>The row of a table as the three texts of its line, and the pairs of a table.\<close>

definition table_row :: "int \<times> sql_row \<Rightarrow> string \<times> string \<times> string" where
  "table_row r = (case snd r of (c1, c2, c3) \<Rightarrow> (asString c1, asString c2, asString c3))"

definition table_kvs :: "(int \<times> sql_row) list \<Rightarrow> KV list" where
  "table_kvs tbl = map (\<lambda>r. row_kv (table_row r)) tbl"

text \<open>What the target table should hold: the 64-bit sum of the numbers of each key of the source.\<close>

definition key_sum :: "(int \<times> sql_row) list \<Rightarrow> string \<Rightarrow> int" where
  "key_sum tbl k = wrap64 (sum_list (nums_of (values_of (table_kvs tbl) k)))"

definition pipeline_spec :: "bool \<Rightarrow> (int \<times> sql_row) list \<Rightarrow> (string \<rightharpoonup> int) \<Rightarrow> (string \<rightharpoonup> int)" where
  "pipeline_spec replace tbl t =
     (\<lambda>k. if k \<in> Key ` set (table_kvs tbl) then Some (key_sum tbl k) else if replace then None else t k)"

text \<open>Rows whose texts keep the line format and whose keys survive the lines of the sink.\<close>

definition rows_clean :: "(int \<times> sql_row) list \<Rightarrow> bool" where
  "rows_clean tbl \<longleftrightarrow> (\<forall>r \<in> set tbl. row_ok (table_row r) \<and> is_word (Key (row_kv (table_row r))) \<and>
     length (Key (row_kv (table_row r))) \<le> 255)"

lemma shard_line_row: "shard_line (snd r) = row_line (table_row r) @ [NL]"
  by (simp add: shard_line_def row_line_def table_row_def split: prod.splits)

text \<open>The names that the pattern \<^verbatim>\<open>mr-out-*.txt\<close> matches, and a \<^verbatim>\<open>filepath.Glob\<close> that lists them.\<close>

definition is_mr_out :: "path \<Rightarrow> bool" where
  "is_mr_out p \<longleftrightarrow> take 7 p = ''mr-out-'' \<and> 11 \<le> length p \<and> drop (length p - 4) p = ''.txt'' \<and> CHR ''/'' \<notin> set p"

definition mr_outs :: "fs \<Rightarrow> path set" where
  "mr_outs d = {p. is_mr_out p \<and> d p \<noteq> None}"

definition lists_mr_out :: "source_env \<Rightarrow> string \<Rightarrow> bool" where
  "lists_mr_out e pattern \<longleftrightarrow>
     (\<forall>d. finite (mr_outs d) \<longrightarrow> (\<exists>outs. glob e pattern d = Inr outs \<and> distinct outs \<and> set outs = mr_outs d)) \<and>
     (\<forall>p. is_mr_out p \<longrightarrow> can_remove e p)"

lemma is_mr_out_path: "is_mr_out (mr_out_path i)"
  using slash_mr_out_path [of i] by (simp add: is_mr_out_def mr_out_path_def)

lemma mr_outs_finite:
  assumes "finite (mr_outs d)" "\<forall>p. is_mr_out p \<longrightarrow> d' p = None \<or> d' p = d p"
  shows "finite (mr_outs d')"
  by (rule finite_subset [OF _ assms(1)]) (use assms(2) in \<open>fastforce simp: mr_outs_def\<close>)

lemma cleanup_result:
  assumes "lists_mr_out e g" "finite (mr_outs d)"
  shows "cleanupReduceOutputs e g d = (\<lambda>p. if is_mr_out p then None else d p)"
proof -
  obtain outs where o: "glob e g d = Inr outs" "set outs = mr_outs d" using assms by (auto simp: lists_mr_out_def)
  then show ?thesis
    using assms(1) by (auto simp: cleanupReduceOutputs_def remove_all_def lists_mr_out_def mr_outs_def fun_eq_iff)
qed

lemma imd_not_mr_out: "\<not> is_mr_out (imd_path h inRAM u t)"
  using slash_imd_path [of h inRAM u t] by (simp add: is_mr_out_def)

text \<open>The pairs of the reducers: each key once, with its sum.\<close>

definition reducer_rows :: "(int \<times> sql_row) list \<Rightarrow> nat \<Rightarrow> nat \<Rightarrow> (string \<times> int) list" where
  "reducer_rows tbl R r =
     map (\<lambda>k. (k, key_sum tbl k)) (sorted_list_of_set {k \<in> Key ` set (table_kvs tbl). reducer_index R k = r})"

lemma reducer_rows_set: "set (reducer_rows tbl R r) = {(k, key_sum tbl k) | k. k \<in> Key ` set (table_kvs tbl) \<and> reducer_index R k = r}"
  by (auto simp: reducer_rows_def)

lemma reducer_rows_distinct: "distinct (reducer_rows tbl R r)"
  by (simp add: reducer_rows_def distinct_map inj_on_def)

lemma reducer_rows_ok: "rows_clean tbl \<Longrightarrow> p \<in> set (reducer_rows tbl R r) \<Longrightarrow> number_ok p"
  by (auto simp: reducer_rows_set number_ok_def rows_clean_def table_kvs_def key_sum_def wrap64_range)

text \<open>Read in any order, the files of all reducers give every key once.\<close>

lemma mset_reducer_rows_part:
  "distinct rs \<Longrightarrow> mset (concat (map (reducer_rows tbl R) rs)) =
     image_mset (\<lambda>k. (k, key_sum tbl k)) (mset_set {k \<in> Key ` set (table_kvs tbl). reducer_index R k \<in> set rs})"
proof (induction rs)
  case (Cons r rs)
  let ?K = "Key ` set (table_kvs tbl)"
  have "{k \<in> ?K. reducer_index R k \<in> set (r # rs)} = {k \<in> ?K. reducer_index R k = r} \<union> {k \<in> ?K. reducer_index R k \<in> set rs}"
    by auto
  moreover have "{k \<in> ?K. reducer_index R k = r} \<inter> {k \<in> ?K. reducer_index R k \<in> set rs} = {}" using Cons.prems by auto
  ultimately have "mset_set {k \<in> ?K. reducer_index R k \<in> set (r # rs)} =
      mset_set {k \<in> ?K. reducer_index R k = r} + mset_set {k \<in> ?K. reducer_index R k \<in> set rs}"
    by (simp add: mset_set_Union)
  moreover have "mset (reducer_rows tbl R r) = image_mset (\<lambda>k. (k, key_sum tbl k)) (mset_set {k \<in> ?K. reducer_index R k = r})"
    by (simp add: reducer_rows_def flip: sorted_list_of_mset_set)
  ultimately show ?case using Cons by simp
qed simp

lemma mset_reducer_rows:
  assumes "distinct rs" "set rs = {0..<R}" "0 < R"
  shows "mset (concat (map (reducer_rows tbl R) rs)) = image_mset (\<lambda>k. (k, key_sum tbl k)) (mset_set (Key ` set (table_kvs tbl)))"
proof -
  have "{k \<in> Key ` set (table_kvs tbl). reducer_index R k \<in> set rs} = Key ` set (table_kvs tbl)"
    using assms(2,3) fnv.part_less by auto
  then show ?thesis using mset_reducer_rows_part [OF assms(1)] by simp
qed

lemma stage_sum_keys:
  assumes "finite K"
  shows "stage_sum (image_mset (\<lambda>k. (k, s k)) (mset_set K)) k = (if k \<in> K then s k else 0)"
proof -
  have "{x \<in> K. x = k} = (if k \<in> K then {k} else {})" by auto
  then show ?thesis using assms by (simp add: stage_sum_def filter_mset_image_mset image_mset.compositionality comp_def filter_mset_mset_set)
qed

lemma upserted_keys:
  "finite K \<Longrightarrow> upserted t (image_mset (\<lambda>k. (k, s k)) (mset_set K)) = (\<lambda>k. if k \<in> K then Some (s k) else t k)"
  by (auto simp: upserted_def stage_sum_keys image_image fun_eq_iff)

subsection \<open>From the table to the files of the reducers\<close>

lemma export_rows:
  assumes left: "export_left tbl c d fs d1" and srt: "sorted (map fst tbl)"
    and fit: "shards_fit (fst (hd tbl)) (fst (last tbl)) (Shards c)"
  obtains rows where "\<forall>f \<in> set fs. d1 f = Some (row_text (rows f))" "concat (map rows fs) = map table_row tbl"
proof
  define tasks where "tasks = shard_tasks c (fst (hd tbl)) (fst (last tbl))"
  define rows where "rows f = the (map_of (map (\<lambda>t. (sFile t, map table_row (in_range (sStart t) (sEnd t) tbl))) tasks) f)" for f
  have fs: "fs = map sFile tasks" "distinct (map sFile tasks)"
    and d1: "\<forall>t \<in> set tasks. d1 (sFile t) = Some (concat (map (\<lambda>r. shard_line (snd r)) (in_range (sStart t) (sEnd t) tbl)))"
    using left by (auto simp: export_left_def Let_def tasks_def)
  have rows: "rows (sFile t) = map table_row (in_range (sStart t) (sEnd t) tbl)" if "t \<in> set tasks" for t
  proof -
    have "map_of (map (\<lambda>t. (sFile t, map table_row (in_range (sStart t) (sEnd t) tbl))) tasks) (sFile t) =
        Some (map table_row (in_range (sStart t) (sEnd t) tbl))"
      by (rule map_of_is_SomeI) (use fs(2) that in \<open>auto simp: comp_def\<close>)
    then show ?thesis by (simp add: rows_def)
  qed
  show "\<forall>f \<in> set fs. d1 f = Some (row_text (rows f))"
    using d1 rows by (auto simp: fs(1) row_text_def shard_line_row comp_def)
  have "concat (map rows fs) = concat (map (\<lambda>t. map table_row (in_range (sStart t) (sEnd t) tbl)) tasks)"
    using rows by (simp add: fs(1) comp_def cong: map_cong)
  also have "\<dots> = map table_row (concat (map (\<lambda>t. in_range (sStart t) (sEnd t) tbl) tasks))"
    by (simp add: map_concat comp_def)
  finally show "concat (map rows fs) = map table_row tbl" using tasks_rows [OF fit srt] by (simp add: tasks_def)
qed

lemma rows_clean_in:
  assumes "rows_clean tbl" "concat (map rows fs) = map table_row tbl" "f \<in> set fs" "r \<in> set (rows f)"
  shows "row_ok r \<and> starts_clean (Key (row_kv r))"
proof -
  have "r \<in> set (map table_row tbl)" using assms(3,4) by (simp flip: assms(2)) blast
  then show ?thesis using assms(1) is_word_starts_clean by (auto simp: rows_clean_def)
qed

text \<open>The outputs of the job are the only files that the pattern of the sink matches.\<close>

lemma agg_outputs:
  assumes su: "job_setup us ips R inRAM fs h" and srt: "key_sorter srt" and cl: "rows_clean tbl"
    and rows: "\<forall>f \<in> set fs. disk h f = Some (row_text (rows f))" "concat (map rows fs) = map table_row tbl"
    and run: "job srt (\<lambda>fn c. Done (agg_Map fn c)) agg_Reduce us ips R inRAM fs h h'" and none: "mr_outs (disk h) = {}"
  shows "mr_outs (disk h') = (\<lambda>r. mr_out_path (int r)) ` {0..<R}"
    and "\<forall>r < R. disk h' (mr_out_path (int r)) = Some (concat (map number_line (reducer_rows tbl R r)))"
proof -
  have ok: "\<forall>f \<in> set fs. disk h f = Some (row_text (rows f)) \<and> (\<forall>r \<in> set (rows f). row_ok r \<and> starts_clean (Key (row_kv r)))"
    using rows(1) rows_clean_in [OF cl rows(2)] by blast
  have kvs: "map row_kv (concat (map rows fs)) = table_kvs tbl" by (simp add: rows(2) table_kvs_def)
  show out: "\<forall>r < R. disk h' (mr_out_path (int r)) = Some (concat (map number_line (reducer_rows tbl R r)))"
    using agg_job [OF su srt ok] run
    by (simp add: kvs Let_def reducer_rows_def number_line_def out_line_def key_sum_def comp_def)
  show "mr_outs (disk h') = (\<lambda>r. mr_out_path (int r)) ` {0..<R}"
  proof (rule set_eqI)
    fix p
    show "p \<in> mr_outs (disk h') \<longleftrightarrow> p \<in> (\<lambda>r. mr_out_path (int r)) ` {0..<R}"
    proof (cases "\<exists>r < R. p = mr_out_path (int r)")
      case True
      then show ?thesis using out is_mr_out_path by (auto simp: mr_outs_def)
    next
      case False
      have "disk h' p = disk h p" if "is_mr_out p"
        using that False imd_not_mr_out by (intro agg_frame [OF su srt ok run]) auto
      then show ?thesis using False none by (auto simp: mr_outs_def)
    qed
  qed
qed

text \<open>What the sink reads from them.\<close>

lemma outs_pairs:
  assumes "distinct outs" "set outs = (\<lambda>r. mr_out_path (int r)) ` {0..<R}" "0 < R" "rows_clean tbl"
    and d: "\<forall>r < R. d (mr_out_path (int r)) = Some (concat (map number_line (reducer_rows tbl R r)))"
  shows "\<forall>f \<in> set outs. \<exists>s. d f = Some s \<and> \<not> snd (scan_lines s)"
    and "mset (stage_file_pairs d outs) = image_mset (\<lambda>k. (k, key_sum tbl k)) (mset_set (Key ` set (table_kvs tbl)))"
    and "storable (stage_file_pairs d outs)"
proof -
  obtain rs where rs: "outs = map (\<lambda>r. mr_out_path (int r)) rs" using assms(2) by (metis (no_types, lifting) ex_map_conv imageE)
  have dist: "distinct rs" using assms(1) by (simp add: rs distinct_map)
  have set: "set rs = {0..<R}"
  proof -
    have "inj (\<lambda>r. mr_out_path (int r))" by (simp add: inj_def mr_out_path_inj)
    then show ?thesis using assms(2) by (simp add: rs inj_image_eq_iff)
  qed
  define rows where "rows f = reducer_rows tbl R (THE r. f = mr_out_path (int r))" for f
  have rows: "rows (mr_out_path (int r)) = reducer_rows tbl R r" for r by (simp add: rows_def mr_out_path_inj)
  have "\<forall>f \<in> set outs. d f = Some (concat (map number_line (rows f))) \<and> (\<forall>p \<in> set (rows f). number_ok p)"
    using d reducer_rows_ok [OF assms(4)] by (auto simp: rs set rows)
  note nf = number_files [OF this]
  show "\<forall>f \<in> set outs. \<exists>s. d f = Some s \<and> \<not> snd (scan_lines s)" "storable (stage_file_pairs d outs)" using nf(1,3) by blast+
  show "mset (stage_file_pairs d outs) = image_mset (\<lambda>k. (k, key_sum tbl k)) (mset_set (Key ` set (table_kvs tbl)))"
    using mset_reducer_rows [OF dist set assms(3), of tbl] unfolding nf(2) by (simp add: rs rows comp_def)
qed

subsection \<open>A pipeline with the sum application\<close>

text \<open>A start of the job of \<^verbatim>\<open>Job\<close> with the given workers, whose calls do not fail.\<close>

definition job_start_of :: "(KV list \<Rightarrow> KV list) \<Rightarrow> mapf \<Rightarrow> reducef \<Rightarrow> uuid list \<Rightarrow> addr list \<Rightarrow> job_start" where
  "job_start_of srt f g us ips files plugin nReducer nWorker inRAM masterAddr h er h' \<longleftrightarrow>
     int (length us) = nWorker \<and> er = None \<and> job srt f g us ips (nat nReducer) inRAM files h h'"

text \<open>Workers that can run the job: enough of them, with different names, on a host where files can be made.\<close>

definition workers_ready :: "uuid list \<Rightarrow> addr list \<Rightarrow> int \<Rightarrow> int \<Rightarrow> bool \<Rightarrow> host \<Rightarrow> bool" where
  "workers_ready us ips nReducer nWorker inRAM h \<longleftrightarrow>
     distinct us \<and> (\<forall>u \<in> set us. length u = length (hd us)) \<and> length ips = length us \<and> int (length us) = nWorker \<and>
     nReducer \<le> nWorker \<and> (\<forall>u t. writable h (imd_path h inRAM u t)) \<and> (\<forall>r. writable h (mr_out_path r))"

text \<open>The files of the source do not get in the way of those of the job.\<close>

definition files_apart :: "SourceConfig \<Rightarrow> bool \<Rightarrow> host \<Rightarrow> bool" where
  "files_apart c inRAM h \<longleftrightarrow>
     (\<forall>i. \<not> is_mr_out (shard_file c i) \<and> (\<forall>u t. shard_file c i \<noteq> imd_path h inRAM u t))"

lemma export_left_files:
  assumes "export_left tbl c d fs d1" "shards_fit (fst (hd tbl)) (fst (last tbl)) (Shards c)" "f \<in> set fs"
  shows "\<exists>i. f = shard_file c i"
  using assms(1,3) by (auto simp: export_left_def Let_def shard_tasks_eq [OF assms(2)])

lemma export_left_length:
  assumes "export_left tbl c d fs d1" "sorted (map fst tbl)" "shards_fit (fst (hd tbl)) (fst (last tbl)) (Shards c)"
    and "f \<in> set fs" "d1 f = Some s"
  shows "length s \<le> length (concat (map (\<lambda>r. shard_line (snd r)) tbl))"
proof -
  have "export_good tbl fs d1"
    using assms(1) tasks_text [OF assms(2,3) refl, of d1] unfolding export_left_def Let_def by blast
  then have "concat (map (\<lambda>r. shard_line (snd r)) tbl) = concat (map (\<lambda>f. the (d1 f)) fs)" by (simp add: export_good_def)
  moreover have "length s \<le> length (concat (map (\<lambda>f. the (d1 f)) fs))"
    using assms(4,5) member_le_sum_list [of "length s" "map length (map (\<lambda>f. the (d1 f)) fs)"]
    by (force simp: length_concat)
  ultimately show ?thesis by simp
qed

lemma pipeline_job_setup:
  assumes left: "export_left tbl c (disk h) fs d1" and srt: "sorted (map fst tbl)" and ne: "tbl \<noteq> []"
    and fit: "shards_fit (fst (hd tbl)) (fst (last tbl)) (Shards c)"
    and len: "int (length (concat (map (\<lambda>r. shard_line (snd r)) tbl))) \<le> max_alloc"
    and apart: "files_apart c inRAM h" and wr: "workers_ready us ips R W inRAM h" and R: "0 < R"
    and d2: "d2 = (\<lambda>p. if is_mr_out p then None else d1 p)"
  shows "job_setup us ips (nat R) inRAM fs (h\<lparr>disk := d2\<rparr>) \<and> fs \<noteq> [] \<and> (\<forall>f \<in> set fs. d2 f = d1 f) \<and>
    finite (mr_outs d2) \<and> mr_outs d2 = {}"
proof -
  obtain rows where rows: "\<forall>f \<in> set fs. d1 f = Some (row_text (rows f))" "concat (map rows fs) = map table_row tbl"
    using export_rows [OF left srt fit] .
  have ne': "fs \<noteq> []" using rows(2) ne by auto
  have d2f: "\<forall>f \<in> set fs. d2 f = d1 f"
    using export_left_files [OF left fit] apart by (auto simp: d2 files_apart_def)
  have "(\<exists>s. d2 p = Some s \<and> int (length s) \<le> max_alloc) \<and> (\<forall>u t. p \<noteq> imd_path h inRAM u t)" if p: "p \<in> set fs" for p
  proof -
    have "d1 p = Some (row_text (rows p))" using rows(1) p by blast
    moreover from this have "int (length (row_text (rows p))) \<le> max_alloc" using export_left_length [OF left srt fit p] len by force
    moreover have "\<forall>u t. p \<noteq> imd_path h inRAM u t" using export_left_files [OF left fit p] apart by (auto simp: files_apart_def)
    ultimately show ?thesis using d2f p by simp
  qed
  moreover have "nat R \<le> length us" using wr by (auto simp: workers_ready_def)
  ultimately have "job_setup us ips (nat R) inRAM fs (h\<lparr>disk := d2\<rparr>)"
    using wr R ne' by (simp add: job_setup_def workers_ready_def)
  moreover have "mr_outs d2 = {}" by (auto simp: mr_outs_def d2)
  ultimately show ?thesis using ne' d2f by simp
qed

text \<open>What the surroundings of a whole run provide.\<close>

definition pipeline_ready :: "source_env \<Rightarrow> (int \<times> sql_row) list \<Rightarrow> PipelineConfig \<Rightarrow> uuid list \<Rightarrow> addr list \<Rightarrow> host \<Rightarrow> bool" where
  "pipeline_ready e tbl c us ips h \<longleftrightarrow>
     serves_table e (plSource c) tbl \<and> shards_fit (fst (hd tbl)) (fst (last tbl)) (Shards (plSource c)) \<and> rows_clean tbl \<and>
     int (length (concat (map (\<lambda>r. shard_line (snd r)) tbl))) \<le> max_alloc \<and>
     files_apart (plSource c) (plInRAM c) h \<and> workers_ready us ips (plReducers c) (plWorkers c) (plInRAM c) h \<and>
     lists_mr_out e (InputGlob (plSink c)) \<and> finite (mr_outs (disk h))"

text \<open>The job on an export, and the import of its outputs.\<close>

lemma pipeline_transform:
  assumes rd: "pipeline_ready e tbl c us ips h" and ne: "tbl \<noteq> []" and R: "0 < plReducers c" and srt: "key_sorter srt"
    and left: "export_left tbl (plSource c) (disk h) fs d1"
  defines "d2 \<equiv> cleanupReduceOutputs e (InputGlob (plSink c)) d1"
  shows "fs \<noteq> [] \<and> (\<exists>h'. job srt (\<lambda>fn c. Done (agg_Map fn c)) agg_Reduce us ips (nat (plReducers c)) (plInRAM c) fs (h\<lparr>disk := d2\<rparr>) h')"
    and "job srt (\<lambda>fn c. Done (agg_Map fn c)) agg_Reduce us ips (nat (plReducers c)) (plInRAM c) fs (h\<lparr>disk := d2\<rparr>) h' \<Longrightarrow>
      mr_outs (disk h') = (\<lambda>r. mr_out_path (int r)) ` {0..<nat (plReducers c)} \<and>
      (\<forall>r < nat (plReducers c). disk h' (mr_out_path (int r)) = Some (concat (map number_line (reducer_rows tbl (nat (plReducers c)) r))))"
proof -
  note rds = rd [unfolded pipeline_ready_def]
  have st: "sorted (map fst tbl)" using rds by (simp add: serves_table_def)
  have fit: "shards_fit (fst (hd tbl)) (fst (last tbl)) (Shards (plSource c))" using rds by blast
  have "finite (mr_outs d1)"
  proof (rule mr_outs_finite)
    show "finite (mr_outs (disk h))" using rds by blast
    show "\<forall>p. is_mr_out p \<longrightarrow> d1 p = None \<or> d1 p = disk h p"
      using export_left_files [OF left fit] left rds by (fastforce simp: export_left_def Let_def files_apart_def)
  qed
  then have d2: "d2 = (\<lambda>p. if is_mr_out p then None else d1 p)" using rds unfolding d2_def by (intro cleanup_result) auto
  have len: "int (length (concat (map (\<lambda>r. shard_line (snd r)) tbl))) \<le> max_alloc" and ap: "files_apart (plSource c) (plInRAM c) h"
    and wr: "workers_ready us ips (plReducers c) (plWorkers c) (plInRAM c) h" and cl: "rows_clean tbl" using rds by auto
  note su = pipeline_job_setup [OF left st ne fit len ap wr R d2]
  obtain rows where rows: "\<forall>f \<in> set fs. d1 f = Some (row_text (rows f))" "concat (map rows fs) = map table_row tbl"
    using export_rows [OF left st fit] .
  have rows': "\<forall>f \<in> set fs. disk (h\<lparr>disk := d2\<rparr>) f = Some (row_text (rows f))" using rows(1) su by simp
  then have ok: "\<forall>f \<in> set fs. disk (h\<lparr>disk := d2\<rparr>) f = Some (row_text (rows f)) \<and>
      (\<forall>r \<in> set (rows f). row_ok r \<and> starts_clean (Key (row_kv r)))" using rows_clean_in [OF cl rows(2)] by blast
  have js: "job_setup us ips (nat (plReducers c)) (plInRAM c) fs (h\<lparr>disk := d2\<rparr>)" using su by blast
  show "fs \<noteq> [] \<and> (\<exists>h'. job srt (\<lambda>fn c. Done (agg_Map fn c)) agg_Reduce us ips (nat (plReducers c)) (plInRAM c) fs (h\<lparr>disk := d2\<rparr>) h')"
    using su agg_job [OF js srt ok] by blast
  show "mr_outs (disk h') = (\<lambda>r. mr_out_path (int r)) ` {0..<nat (plReducers c)} \<and>
      (\<forall>r < nat (plReducers c). disk h' (mr_out_path (int r)) = Some (concat (map number_line (reducer_rows tbl (nat (plReducers c)) r))))"
    if run: "job srt (\<lambda>fn c. Done (agg_Map fn c)) agg_Reduce us ips (nat (plReducers c)) (plInRAM c) fs (h\<lparr>disk := d2\<rparr>) h'"
    using agg_outputs [OF js srt cl rows' rows(2) run] su by simp
qed

definition sink_ready :: "'db sink_exec \<Rightarrow> ('db \<Rightarrow> string \<rightharpoonup> int) \<Rightarrow> ('db \<Rightarrow> (string \<times> int) multiset) \<Rightarrow> SinkConfig \<Rightarrow> bool" where
  "sink_ready ex tgt stg c \<longleftrightarrow>
     (case sink_columns c of
        Inl _ \<Rightarrow> False
      | Inr (table, keyCol, valCol) \<Rightarrow>
          sink_laws ex tgt stg table (backquote # TargetTable c @ ''_staging_tmp'' @ [backquote]) keyCol valCol) \<and>
     BatchSize c \<le> 32767"

lemma pipeline_import:
  assumes snk: "sink_ready ex tgt stg c" "sink_WithDefaults c = c" and gl: "lists_mr_out e (InputGlob c)"
    and cl: "rows_clean tbl" and R: "0 < R"
    and outs: "mr_outs d = (\<lambda>r. mr_out_path (int r)) ` {0..<R}"
      "\<forall>r < R. d (mr_out_path (int r)) = Some (concat (map number_line (reducer_rows tbl R r)))"
  shows "\<exists>db'. ImportReduceOutputs ex (glob e) d c db = (None, db') \<and> tgt db' = pipeline_spec (Replace c) tbl (tgt db)"
proof -
  obtain fs where fs: "glob e (InputGlob c) d = Inr fs" "distinct fs" "set fs = (\<lambda>r. mr_out_path (int r)) ` {0..<R}"
  proof -
    have "finite (mr_outs d)" by (simp add: outs(1))
    then show ?thesis using gl that unfolding lists_mr_out_def outs(1) [symmetric] by blast
  qed
  obtain table keyCol valCol where col: "sink_columns c = Inr (table, keyCol, valCol)"
    and laws: "sink_laws ex tgt stg table (backquote # TargetTable c @ ''_staging_tmp'' @ [backquote]) keyCol valCol"
    using snk(1) by (auto simp: sink_ready_def split: sum.splits)
  note op = outs_pairs [OF fs(2,3) R cl outs(2)]
  have ne: "fs \<noteq> []" using fs(3) R by auto
  have sums: "\<forall>k. int64 (stage_sum (mset (stage_file_pairs d fs)) k)"
    by (simp add: op(2) stage_sum_keys key_sum_def wrap64_range int64_0)
  have "\<exists>db'. ImportReduceOutputs ex (glob e) d c db = (None, db') \<and>
      tgt db' = upserted (if Replace c then Map.empty else tgt db) (mset (stage_file_pairs d fs)) \<and> stg db' = {#}"
    using import_result [where glb = "glob e" and d = d and files = fs and cfg = c, unfolded snk(2),
        OF col laws fs(1) ne op(1) _ op(3) sums] snk(1) by (simp add: sink_ready_def)
  then show ?thesis by (auto simp: op(2) upserted_keys pipeline_spec_def fun_eq_iff)
qed

definition agg_runner :: "(KV list \<Rightarrow> KV list) \<Rightarrow> uuid list \<Rightarrow> addr list \<Rightarrow> runner" where
  "agg_runner srt us ips = LegacyRunner_Run (job_start_of srt (\<lambda>fn c. Done (agg_Map fn c)) agg_Reduce us ips) None [] []"

lemma agg_runner_iff:
  assumes "mrFiles m \<noteq> []" "mrPluginPath m \<noteq> []" "0 < mrReducers m" "0 < mrWorkers m" "int (length us) = mrWorkers m"
  shows "agg_runner srt us ips m h res h' \<longleftrightarrow>
    res = None \<and> job srt (\<lambda>fn c. Done (agg_Map fn c)) agg_Reduce us ips (nat (mrReducers m)) (mrInRAM m) (mrFiles m) h h'"
  using assms by (auto simp: agg_runner_def LegacyRunner_Run_def legacy_checks_def job_start_of_def)

text \<open>A pipeline past its checks, with a source that gives files and a runner that does not fail.\<close>

lemma RunPipeline_run:
  assumes c: "c = pipeline_withDefaults cfg" and chk: "pipeline_checks ping c = None"
    and expD: "\<And>r d1. ExportSourceByPKRange e (plSource c) (disk h) r d1 \<Longrightarrow> \<exists>fs. r = Inr fs \<and> fs \<noteq> []"
    and run: "\<And>fs d1 rr h'. fs \<noteq> [] \<Longrightarrow> RunMapReduce run (pipeline_run_config c fs)
        (h\<lparr>disk := cleanupReduceOutputs e (InputGlob (plSink c)) d1\<rparr>) rr h' \<longleftrightarrow> rr = None \<and> J fs d1 h'"
  shows "RunPipeline ping e ex run cfg h db res h' db' \<longleftrightarrow>
    (\<exists>fs d1. ExportSourceByPKRange e (plSource c) (disk h) (Inr fs) d1 \<and> J fs d1 h' \<and>
       ImportReduceOutputs ex (glob e) (disk h') (plSink c) db = (res, db'))"
proof
  assume "RunPipeline ping e ex run cfg h db res h' db'"
  then obtain r d1 where r: "ExportSourceByPKRange e (plSource c) (disk h) r d1"
    and rest: "case r of Inl er \<Rightarrow> res = Some er \<and> h' = h\<lparr>disk := d1\<rparr> \<and> db' = db
      | Inr files \<Rightarrow> (if files = [] then res = None \<and> h' = h\<lparr>disk := d1\<rparr> \<and> db' = db
          else (\<exists>rr. RunMapReduce run (pipeline_run_config c files)
                 (h\<lparr>disk := cleanupReduceOutputs e (InputGlob (plSink c)) d1\<rparr>) rr h' \<and>
             (case rr of Some er \<Rightarrow> res = Some er \<and> db' = db
              | None \<Rightarrow> ImportReduceOutputs ex (glob e) (disk h') (plSink c) db = (res, db'))))"
    unfolding RunPipeline_def Let_def c [symmetric] chk option.case by blast
  obtain fs where fs: "r = Inr fs" "fs \<noteq> []" using expD [OF r] by blast
  then show "\<exists>fs d1. ExportSourceByPKRange e (plSource c) (disk h) (Inr fs) d1 \<and> J fs d1 h' \<and>
      ImportReduceOutputs ex (glob e) (disk h') (plSink c) db = (res, db')"
    using r rest run [OF fs(2)] by auto
next
  assume "\<exists>fs d1. ExportSourceByPKRange e (plSource c) (disk h) (Inr fs) d1 \<and> J fs d1 h' \<and>
      ImportReduceOutputs ex (glob e) (disk h') (plSink c) db = (res, db')"
  then obtain fs d1 where fs: "ExportSourceByPKRange e (plSource c) (disk h) (Inr fs) d1" "J fs d1 h'"
    "ImportReduceOutputs ex (glob e) (disk h') (plSink c) db = (res, db')" by blast
  have "fs \<noteq> []" using expD [OF fs(1)] by blast
  with fs run [OF this] show "RunPipeline ping e ex run cfg h db res h' db'"
    unfolding RunPipeline_def Let_def c [symmetric] chk option.case by (intro exI [of _ "Inr fs"] exI [of _ d1]) auto
qed

lemma pipeline_sums:
  fixes cfg :: PipelineConfig
  defines "c \<equiv> pipeline_withDefaults cfg"
  assumes chk: "pipeline_checks ping c = None" and rd: "pipeline_ready e tbl c us ips h" and ne: "tbl \<noteq> []"
    and snk: "sink_ready ex tgt stg (plSink c)" and srt: "key_sorter srt"
  shows "(\<exists>h' db'. RunPipeline ping e ex (agg_runner srt us ips) cfg h db None h' db') \<and>
    (\<forall>res h' db'. RunPipeline ping e ex (agg_runner srt us ips) cfg h db res h' db' \<longrightarrow>
       res = None \<and> tgt db' = pipeline_spec (Replace (plSink c)) tbl (tgt db))"
proof -
  have dflt: "source_WithDefaults (plSource c) = plSource c" "sink_WithDefaults (plSink c) = plSink c"
    "0 < plReducers c" "0 < plWorkers c"
    by (simp_all add: c_def pipeline_withDefaults_def source_defaults_twice sink_defaults_twice)
  note rds = rd [unfolded pipeline_ready_def]
  have srv: "serves_table e (source_WithDefaults (plSource c)) tbl"
    and fit: "shards_fit (fst (hd tbl)) (fst (last tbl)) (Shards (source_WithDefaults (plSource c)))" using rds dflt by auto
  have cl: "rows_clean tbl" and gl: "lists_mr_out e (InputGlob (plSink c))" using rds by auto
  note exp = export_runs [OF srv ne fit, of "disk h", unfolded dflt]
  have plug: "plPluginPath c \<noteq> []" using chk by (auto simp: pipeline_checks_def)
  let ?h = "\<lambda>d1. h\<lparr>disk := cleanupReduceOutputs e (InputGlob (plSink c)) d1\<rparr>"
  let ?job = "\<lambda>fs d1. job srt (\<lambda>fn c. Done (agg_Map fn c)) agg_Reduce us ips (nat (plReducers c)) (plInRAM c) fs (?h d1)"
  have run: "RunMapReduce (agg_runner srt us ips) (pipeline_run_config c fs) (?h d1) rr h' \<longleftrightarrow> rr = None \<and> ?job fs d1 h'"
    if "fs \<noteq> []" for fs d1 rr h'
    using agg_runner_iff [of "pipeline_run_config c fs" us srt ips "?h d1" rr h'] that plug dflt(3,4) rds
    by (simp add: RunMapReduce_def pipeline_run_config_def workers_ready_def)
  have imp: "\<exists>db'. ImportReduceOutputs ex (glob e) (disk h') (plSink c) db = (None, db') \<and>
      tgt db' = pipeline_spec (Replace (plSink c)) tbl (tgt db)"
    if "export_left tbl (plSource c) (disk h) fs d1" "?job fs d1 h'" for fs d1 h'
    using pipeline_transform(2) [OF rd ne dflt(3) srt that] dflt(3)
    by (intro pipeline_import [OF snk dflt(2) gl cl, of "nat (plReducers c)"]) auto
  have expD: "\<exists>fs. r = Inr fs \<and> fs \<noteq> []" if "ExportSourceByPKRange e (plSource c) (disk h) r d1" for r d1
    using that exp pipeline_transform(1) [OF rd ne dflt(3) srt] by blast
  have pipe: "RunPipeline ping e ex (agg_runner srt us ips) cfg h db res h' db' \<longleftrightarrow>
      (\<exists>fs d1. ExportSourceByPKRange e (plSource c) (disk h) (Inr fs) d1 \<and> ?job fs d1 h' \<and>
         ImportReduceOutputs ex (glob e) (disk h') (plSink c) db = (res, db'))" for res h' db'
    by (rule RunPipeline_run [OF c_def [THEN meta_eq_to_obj_eq] chk]) (use expD run in blast)+
  obtain fs d1 where fs: "ExportSourceByPKRange e (plSource c) (disk h) (Inr fs) d1" "export_left tbl (plSource c) (disk h) fs d1"
    using exp by blast
  obtain h' where "?job fs d1 h'" using pipeline_transform(1) [OF rd ne dflt(3) srt fs(2)] by blast
  then have "\<exists>h' db'. RunPipeline ping e ex (agg_runner srt us ips) cfg h db None h' db'" unfolding pipe using fs imp by blast
  moreover have "res = None \<and> tgt db' = pipeline_spec (Replace (plSink c)) tbl (tgt db)"
    if "RunPipeline ping e ex (agg_runner srt us ips) cfg h db res h' db'" for res h' db'
    using that exp imp unfolding pipe by fastforce
  ultimately show ?thesis by blast
qed

section \<open>Properties\<close>


lemma empty_source_runs:
  assumes "pipeline_checks ping (pipeline_withDefaults cfg) = None" "serves_table e (plSource (pipeline_withDefaults cfg)) []"
  shows "(\<exists>h'. RunPipeline ping e ex run cfg h db None h' db) \<and>
    (\<forall>res h' db'. RunPipeline ping e ex run cfg h db res h' db' \<longrightarrow> res = None \<and> db' = db)"
proof -
  have "source_WithDefaults (plSource (pipeline_withDefaults cfg)) = plSource (pipeline_withDefaults cfg)"
    by (simp add: pipeline_withDefaults_def source_defaults_twice)
  then have srv: "serves_table e (source_WithDefaults (plSource (pipeline_withDefaults cfg))) []" using assms(2) by simp
  show ?thesis using assms(1) export_empty [OF srv] export_empty_run [OF srv, of "disk h"]
    by (fastforce simp: RunPipeline_def Let_def)
qed

text \<open>
  An empty source leaves the target as it was: the pipeline succeeds before the old outputs are removed and
  before the sink is called, so \<^verbatim>\<open>Replace\<close> does not empty the target table.
\<close>

theorem pipeline_empty:
  assumes "pipeline_checks ping (pipeline_withDefaults cfg) = None" "serves_table e (plSource (pipeline_withDefaults cfg)) []"
  shows "(\<exists>h'. RunPipeline ping e ex run cfg h db None h' db) \<and>
    (\<forall>res h' db'. RunPipeline ping e ex run cfg h db res h' db' \<longrightarrow> res = None \<and> db' = db)"
  by (rule empty_source_runs [OF assms])

text \<open>
  Cancelling a job does not end it: however often the waiting loop finds the context over, it goes on; it
  returns with the end of the job, with the error of the job if there is one, and the error of the context only
  in place of a success.
\<close>

lemma legacy_wait_cancels: "legacy_wait ce (replicate n EvCancel @ evs) b = legacy_wait ce evs (b \<or> 0 < n)"
  by (induction n arbitrary: b) (auto simp: disj_commute)

theorem legacy_wait_result:
  "legacy_wait ce (replicate n EvCancel) False = None \<and>
   legacy_wait ce (replicate n EvCancel @ EvDone er # evs) False =
     Some (case er of Some e \<Rightarrow> Some e | None \<Rightarrow> if 0 < n then Some ce else None)"
  using legacy_wait_cancels [of ce n "[]" False] legacy_wait_cancels [of ce n "EvDone er # evs" False] by (cases er) auto

text \<open>The pipeline that corresponds to a flow.\<close>

definition pipeline_of :: "FlowConfig \<Rightarrow> DBConfig \<Rightarrow> PipelineConfig" where
  "pipeline_of c base =
     \<lparr>plDB = base, plSourceDB = fsDB (Source c), plSinkDB = fkDB (Sink c), plSource = fsConfig (Source c),
      plSink = fkConfig (Sink c), plPluginPath = tfPluginPath (Transform c), plReducers = tfReducers (Transform c),
      plWorkers = tfWorkers (Transform c), plInRAM = tfInRAM (Transform c), plPort = tfPort (Transform c)\<rparr>"

lemma flow_withDefaults_twice: "flow_withDefaults (flow_withDefaults c) = flow_withDefaults c"
  by (simp add: flow_withDefaults_def source_defaults_twice sink_defaults_twice redis_source_WithDefaults_def
      redis_sink_WithDefaults_def or_default_def default_pos_def)

lemma pipeline_of_defaults:
  "pipeline_withDefaults (pipeline_of (flow_withDefaults cfg) base) = pipeline_of (flow_withDefaults cfg) base"
  by (simp add: pipeline_withDefaults_def pipeline_of_def flow_withDefaults_def source_defaults_twice sink_defaults_twice
      default_pos_def)

lemma valid_mysql:
  assumes "ValidateFlowConfig (flow_withDefaults cfg) = None"
    "fsType (Source (flow_withDefaults cfg)) = ''mysql''" "fkType (Sink (flow_withDefaults cfg)) = ''mysql''"
    "tfType (Transform (flow_withDefaults cfg)) = ''mapreduce''"
  shows "tfPluginPath (Transform (flow_withDefaults cfg)) \<noteq> []" "Table (fsConfig (Source (flow_withDefaults cfg))) \<noteq> []"
    "TargetTable (fkConfig (Sink (flow_withDefaults cfg))) \<noteq> []"
    "DbDatabase (fsDB (Source (flow_withDefaults cfg))) \<noteq> []" "DbDatabase (fkDB (Sink (flow_withDefaults cfg))) \<noteq> []"
  using assms
  by (auto simp: ValidateFlowConfig_def flow_withDefaults_twice Let_def check_source_def check_sink_def check_transform_def blank_def
      or_error_def split: if_splits option.splits)

lemma flow_body_pipeline:
  fixes cfg :: FlowConfig
  defines "c \<equiv> flow_withDefaults cfg"
  assumes val: "ValidateFlowConfig c = None" "fsType (Source c) = ''mysql''" "fkType (Sink c) = ''mysql''"
    "tfType (Transform c) = ''mapreduce''"
    and opn: "openDB (fePing E) (fsDB (Source c)) = None" "openDB (fePing E) (fkDB (Sink c)) = None"
  shows "flow_body E run c env w er w' \<longleftrightarrow>
    (\<exists>h' db'. RunPipeline (fePing E) (feSource E) (feExec E) (run env) (pipeline_of c base) (wHost w) (wDb w) er h' db' \<and>
       w' = w\<lparr>wHost := h', wDb := db'\<rparr>)"
proof -
  note v = valid_mysql [OF val [unfolded c_def], folded c_def]
  have chk: "pipeline_checks (fePing E) (pipeline_of c base) = None"
    using v opn by (simp add: pipeline_checks_def pipeline_dbs_def pipeline_of_def or_error_def)
  have dflt: "pipeline_withDefaults (pipeline_of c base) = pipeline_of c base" unfolding c_def by (rule pipeline_of_defaults)
  have sel: "plSource (pipeline_of c base) = fsConfig (Source c)" "plSink (pipeline_of c base) = fkConfig (Sink c)"
    "SinkAdapter_InputGlob (fkConfig (Sink c)) = InputGlob (fkConfig (Sink c))"
    by (simp_all add: pipeline_of_def SinkAdapter_InputGlob_def c_def flow_withDefaults_def sink_defaults_twice)
  have cfgs: "pipeline_run_config (pipeline_of c base) files =
      \<lparr>mrFiles = files, mrPluginPath = tfPluginPath (Transform c), mrReducers = tfReducers (Transform c),
       mrWorkers = tfWorkers (Transform c), mrInRAM = tfInRAM (Transform c), mrPort = tfPort (Transform c)\<rparr>" for files
    by (simp add: pipeline_run_config_def pipeline_of_def)
  let ?run = "\<lambda>files d1. RunMapReduce (run env)
      \<lparr>mrFiles = files, mrPluginPath = tfPluginPath (Transform c), mrReducers = tfReducers (Transform c),
       mrWorkers = tfWorkers (Transform c), mrInRAM = tfInRAM (Transform c), mrPort = tfPort (Transform c)\<rparr>
      ((wHost w)\<lparr>disk := cleanupReduceOutputs (feSource E) (InputGlob (fkConfig (Sink c))) d1\<rparr>)"
  let ?imp = "\<lambda>h2. ImportReduceOutputs (feExec E) (glob (feSource E)) (disk h2) (fkConfig (Sink c)) (wDb w)"
  let ?L = "\<lambda>r d1. case r of
      Inl e \<Rightarrow> er = Some e \<and> w' = w\<lparr>wHost := (wHost w)\<lparr>disk := d1\<rparr>\<rparr>
    | Inr files \<Rightarrow> if files = [] then er = None \<and> w' = w\<lparr>wHost := (wHost w)\<lparr>disk := d1\<rparr>\<rparr>
        else (\<exists>rr h2. ?run files d1 rr h2 \<and>
           (case rr of Some e \<Rightarrow> er = Some e \<and> w' = w\<lparr>wHost := h2\<rparr>
            | None \<Rightarrow> er = fst (?imp h2) \<and> w' = w\<lparr>wHost := h2, wDb := snd (?imp h2)\<rparr>))"
  let ?R = "\<lambda>r d1 h' db'. case r of
      Inl e \<Rightarrow> er = Some e \<and> h' = (wHost w)\<lparr>disk := d1\<rparr> \<and> db' = wDb w
    | Inr files \<Rightarrow> if files = [] then er = None \<and> h' = (wHost w)\<lparr>disk := d1\<rparr> \<and> db' = wDb w
        else (\<exists>rr. ?run files d1 rr h' \<and>
           (case rr of Some e \<Rightarrow> er = Some e \<and> db' = wDb w | None \<Rightarrow> ?imp h' = (er, db')))"
  have l: "flow_body E run c env w er w' \<longleftrightarrow>
      (\<exists>r d1. ExportSourceByPKRange (feSource E) (fsConfig (Source c)) (disk (wHost w)) r d1 \<and> ?L r d1)"
    unfolding flow_body_def using val opn
    by (simp add: resolveTransformPlugin_def flow_source_def flow_inputGlob_def SourceAdapter_Export_def runMapReduce_def
        flow_sink_def sel Let_def split_beta cong: sum.case_cong option.case_cong)
  have r: "RunPipeline (fePing E) (feSource E) (feExec E) (run env) (pipeline_of c base) (wHost w) (wDb w) er h' db' \<longleftrightarrow>
      (\<exists>r d1. ExportSourceByPKRange (feSource E) (fsConfig (Source c)) (disk (wHost w)) r d1 \<and> ?R r d1 h' db')" for h' db'
    unfolding RunPipeline_def Let_def dflt chk option.case sel cfgs ..
  have inner: "?L r d1 \<longleftrightarrow> (\<exists>h' db'. ?R r d1 h' db' \<and> w' = w\<lparr>wHost := h', wDb := db'\<rparr>)" for r d1
  proof (cases r)
    case (Inr files)
    have "(case rr of Some e \<Rightarrow> er = Some e \<and> w' = w\<lparr>wHost := h2\<rparr>
            | None \<Rightarrow> er = fst (?imp h2) \<and> w' = w\<lparr>wHost := h2, wDb := snd (?imp h2)\<rparr>) \<longleftrightarrow>
        (\<exists>db'. (case rr of Some e \<Rightarrow> er = Some e \<and> db' = wDb w | None \<Rightarrow> ?imp h2 = (er, db')) \<and>
           w' = w\<lparr>wHost := h2, wDb := db'\<rparr>)" for rr h2
      by (cases rr) (auto simp: prod_eq_iff)
    then show ?thesis using Inr by auto
  qed simp
  show ?thesis unfolding l r inner by blast
qed

text \<open>Without parameters the environment is left alone and the flow is its body.\<close>

lemma flow_no_params:
  fixes cfg :: FlowConfig
  assumes "ValidateFlowConfig (flow_withDefaults cfg) = None" "tfParams (Transform (flow_withDefaults cfg)) = []"
  shows "runFlowInternal E run cfg env w res env' w' \<longleftrightarrow>
    env' = env \<and> (\<exists>er. flow_body E run (flow_withDefaults cfg) env w er w' \<and> res = map_option Failed er)"
proof -
  have "runFlowInternal E run cfg env w res env' w' \<longleftrightarrow> env' = env \<and>
      (\<exists>pick. flow_body E run (flow_withDefaults cfg) env w (fst (pick env w)) (snd (pick env w)) \<and>
         res = map_option Failed (fst (pick env w)) \<and> w' = snd (pick env w))"
    using assms by (auto simp: runFlowInternal_def Let_def called_in_def withTransformParams_def split_beta)
  then show ?thesis by (auto intro: exI [of _ "\<lambda>_ _. (_, w')"])
qed

text \<open>
  C13. A flow from MySQL to MySQL with a plugin of its own is a pipeline: with both databases reachable and no
  parameters, the configured flow and \<^verbatim>\<open>RunPipeline\<close> with the corresponding configuration have the same runs, with the
  same results, files and tables, for every runner; the flow leaves the environment and the plugins alone.
\<close>

theorem flow_is_pipeline:
  fixes cfg :: FlowConfig
  defines "c \<equiv> flow_withDefaults cfg"
  assumes "ValidateFlowConfig c = None" "fsType (Source c) = ''mysql''" "fkType (Sink c) = ''mysql''"
    "tfType (Transform c) = ''mapreduce''" "tfParams (Transform c) = []"
    and "openDB (fePing E) (fsDB (Source c)) = None" "openDB (fePing E) (fkDB (Sink c)) = None"
  shows "runFlowInternal E run cfg env w res env' w' \<longleftrightarrow> env' = env \<and>
    (\<exists>er h' db'. RunPipeline (fePing E) (feSource E) (feExec E) (run env) (pipeline_of c base) (wHost w) (wDb w) er h' db' \<and>
       res = map_option Failed er \<and> w' = w\<lparr>wHost := h', wDb := db'\<rparr>)"
proof -
  note body = flow_body_pipeline [of cfg E run env w, OF assms(2-5)[unfolded c_def] assms(7,8)[unfolded c_def], folded c_def]
  show ?thesis unfolding flow_no_params [OF assms(2,6) [unfolded c_def], folded c_def] body [where base = base] by blast
qed

subsection \<open>A sample run\<close>

definition sum_table :: "(int \<times> sql_row) list" where
  "sum_table = [(3, SInt 3, SBytes ''a'', SInt 5), (8, SInt 8, SBytes ''b'', SInt 7), (9, SInt 9, SBytes ''a'', SInt (- 1))]"

definition sum_env :: source_env where
  "sum_env = \<lparr>mkdir_err = (\<lambda>p. None), glob = (\<lambda>p d. Inr (sorted_list_of_set (mr_outs d))), can_remove = (\<lambda>p. True),
     can_create = (\<lambda>p. True), bounds_row = (\<lambda>q. Inr (bounds_of sum_table)),
     range_rows = (\<lambda>q a b. Inr (map snd (in_range a b sum_table), None))\<rparr>"

definition sum_cfg :: PipelineConfig where
  "sum_cfg = \<lparr>plDB = sample_db, plSourceDB = sample_db, plSinkDB = sample_db, plSource = sample_cfg, plSink = sample_sink,
     plPluginPath = ''agg.so'', plReducers = 2, plWorkers = 2, plInRAM = True, plPort = 0\<rparr>"

definition sum_host :: host where
  "sum_host = \<lparr>disk = [''mr-out-0.txt'' \<mapsto> ''old''], writable = (\<lambda>_. True), shm_is_dir = True, temp_dir = ''/tmp''\<rparr>"

lemma sum_checks: "pipeline_checks (\<lambda>_. None) (pipeline_withDefaults sum_cfg) = None"
  by (simp add: pipeline_checks_def pipeline_withDefaults_def sum_cfg_def pipeline_dbs_def sample_db_def openDB_def or_error_def
      sample_cfg_def sample_sink_def source_WithDefaults_def sink_WithDefaults_def)

lemma sum_sink: "sink_ready sample_exec fst snd (plSink (pipeline_withDefaults sum_cfg))"
proof -
  have "plSink (pipeline_withDefaults sum_cfg) = sink_WithDefaults sample_sink" by (simp add: pipeline_withDefaults_def sum_cfg_def)
  moreover have "TargetTable (sink_WithDefaults sample_sink) = ''t''" "BatchSize (sink_WithDefaults sample_sink) = 2000"
    by (simp_all add: sink_WithDefaults_def sample_sink_def)
  ultimately show ?thesis using table_exec_laws by (simp add: sink_ready_def sample_sink_columns sample_exec_def)
qed

lemma sum_rows: "rows_clean sum_table"
  by code_simp

lemma sum_ready: "pipeline_ready sum_env sum_table (pipeline_withDefaults sum_cfg) [''u'', ''v''] ['':1'', '':2''] sum_host"
proof -
  let ?c = "source_WithDefaults sample_cfg"
  have src: "plSource (pipeline_withDefaults sum_cfg) = ?c" "plInRAM (pipeline_withDefaults sum_cfg)"
    "plReducers (pipeline_withDefaults sum_cfg) = 2" "plWorkers (pipeline_withDefaults sum_cfg) = 2"
    by (simp_all add: pipeline_withDefaults_def sum_cfg_def)
  have "serves_table sum_env ?c sum_table"
    by (simp add: serves_table_def sum_env_def sum_table_def source_columns_def sample_cfg_def
        source_WithDefaults_def or_default_def quoteIdentifier_def identifierRe_def ident_start_def)
  moreover have "shards_fit (fst (hd sum_table)) (fst (last sum_table)) (Shards ?c)"
    by (simp add: sum_table_def sample_cfg_def source_WithDefaults_def shards_fit_def int64_def)
  moreover have "int (length (concat (map (\<lambda>r. shard_line (snd r)) sum_table))) \<le> max_alloc" by code_simp
  moreover have "files_apart ?c True sum_host"
  proof -
    have "shard_file ?c i = ''out/'' @ ''chunk-'' @ pad5 i @ ''.txt''" for i
    proof -
      have "path_stem ''out'' ''chunk'' = ''out/chunk''" by code_simp
      then show ?thesis using path_join_name [of "''out''" "''-'' @ pad5 i @ ''.txt''" "''chunk''"] pad5_digits [of SLASH i]
        by (auto simp: is_digit_def shard_file_def sample_cfg_def source_WithDefaults_def or_default_def)
    qed
    then show ?thesis by (simp add: files_apart_def is_mr_out_def imd_path_def sum_host_def)
  qed
  moreover have "workers_ready [''u'', ''v''] ['':1'', '':2''] 2 2 True sum_host" by (simp add: workers_ready_def sum_host_def)
  moreover have "lists_mr_out sum_env g" for g by (simp add: lists_mr_out_def sum_env_def)
  moreover have "finite (mr_outs (disk sum_host))"
    by (rule finite_subset [of _ "dom (disk sum_host)"]) (auto simp: mr_outs_def sum_host_def)
  ultimately show ?thesis using sum_rows by (simp add: pipeline_ready_def src)
qed

lemma sum_value: "key_sum sum_table ''a'' = 4"
  by (simp add: key_sum_def table_kvs_def sum_table_def table_row_def row_kv_def map_filter_simps num_of_def atoi_itoa int64_def
      trim_space_itoa wrap64_id)

definition empty_env :: source_env where
  "empty_env = sum_env\<lparr>bounds_row := (\<lambda>q. Inr (0, 0, 0)), range_rows := (\<lambda>q a b. Inr ([], None))\<rparr>"

theorem pipeline_empty_witness:
  "\<exists>h'. RunPipeline (\<lambda>_. None) empty_env sample_exec
     (\<lambda>m h res h'. False) sum_cfg sum_host ([''z'' \<mapsto> 1], {#}) None h' ([''z'' \<mapsto> 1], {#})"
proof -
  have "serves_table empty_env
      (plSource (pipeline_withDefaults sum_cfg)) []"
    by (simp add: serves_table_def empty_env_def sum_env_def bounds_of_def in_range_def source_columns_def sample_cfg_def sum_cfg_def
        pipeline_withDefaults_def source_WithDefaults_def or_default_def quoteIdentifier_def identifierRe_def ident_start_def)
  from pipeline_empty [OF sum_checks this, THEN conjunct1] show ?thesis .
qed

definition plugin_flow :: FlowConfig where
  "plugin_flow = sample_flow\<lparr>Transform := (Transform sample_flow)\<lparr>tfType := ''mapreduce'', tfPluginPath := ''agg.so'', tfParams := []\<rparr>\<rparr>"

definition sum_flow_env :: "(two_tables, unit) flow_env" where
  "sum_flow_env = \<lparr>fePing = (\<lambda>_. None), feSource = empty_env, feExec = sample_exec, feServe = (\<lambda>q s. (None, s)),
     feDial = (\<lambda>_. Inr ()), feRedis = \<lparr>rh_mkdir = (\<lambda>_. True), rh_glob = (\<lambda>_ _. Inr []), rh_create = (\<lambda>_. True), rh_remove = (\<lambda>_. True)\<rparr>,
     feBuild = sample_build, feMkdir = (\<lambda>_. True), feRoot = ''/r''\<rparr>"

definition sum_world :: "(two_tables, unit) world" where
  "sum_world = \<lparr>wHost = sum_host, wDb = (Map.empty, {#}), wPlugins = Map.empty, wConn = None\<rparr>"

lemma plugin_flow_valid: "ValidateFlowConfig (flow_withDefaults plugin_flow) = None"
proof -
  have "trim_space ''v1'' = ''v1''" "trim_space ''t'' = ''t''" "trim_space ''r'' = ''r''" "trim_space ''agg.so'' = ''agg.so''" by code_simp+
  then show ?thesis
    by (simp add: ValidateFlowConfig_def flow_withDefaults_twice Let_def plugin_flow_def sample_flow_def sample_db_def defaults_defs
        check_source_def check_sink_def check_transform_def check_topn_def check_minmax_def blank_def or_error_def)
qed

theorem flow_is_pipeline_witness:
  "\<exists>w'. runFlowInternal sum_flow_env (\<lambda>_ m h res h'. False) plugin_flow Map.empty sum_world None Map.empty w'"
proof -
  let ?c = "flow_withDefaults plugin_flow" let ?p = "pipeline_of (flow_withDefaults plugin_flow) sample_db"
  have c: "fsType (Source ?c) = ''mysql''" "fkType (Sink ?c) = ''mysql''" "tfType (Transform ?c) = ''mapreduce''"
    "tfParams (Transform ?c) = []" "openDB (fePing sum_flow_env) (fsDB (Source ?c)) = None"
    "openDB (fePing sum_flow_env) (fkDB (Sink ?c)) = None"
    by (simp_all add: plugin_flow_def sample_flow_def flow_withDefaults_def sum_flow_env_def openDB_def sample_db_def or_default_def)
  have "pipeline_checks (fePing sum_flow_env) (pipeline_withDefaults ?p) = None"
    unfolding pipeline_of_defaults using valid_mysql [OF plugin_flow_valid c(1,2,3)] c(5,6)
    by (simp add: pipeline_checks_def pipeline_dbs_def pipeline_of_def or_error_def)
  moreover have "serves_table (feSource sum_flow_env) (plSource (pipeline_withDefaults ?p)) []"
    unfolding pipeline_of_defaults
    by (simp add: pipeline_of_def plugin_flow_def sample_flow_def flow_withDefaults_def sum_flow_env_def
        serves_table_def empty_env_def sum_env_def bounds_of_def in_range_def source_columns_def source_WithDefaults_def
        or_default_def quoteIdentifier_def identifierRe_def ident_start_def)
  ultimately have "\<exists>h'. RunPipeline (fePing sum_flow_env) (feSource sum_flow_env) (feExec sum_flow_env) (\<lambda>m h res h'. False) ?p
      (wHost sum_world) (wDb sum_world) None h' (wDb sum_world)"
    by (rule empty_source_runs [THEN conjunct1])
  then obtain h' where "RunPipeline (fePing sum_flow_env) (feSource sum_flow_env) (feExec sum_flow_env) (\<lambda>m h res h'. False) ?p
      (wHost sum_world) (wDb sum_world) None h' (wDb sum_world)" ..
  then have "\<exists>er h' db'. RunPipeline (fePing sum_flow_env) (feSource sum_flow_env) (feExec sum_flow_env) (\<lambda>m h res h'. False) ?p
      (wHost sum_world) (wDb sum_world) er h' db' \<and> None = map_option Failed er \<and>
      sum_world\<lparr>wHost := h', wDb := wDb sum_world\<rparr> = sum_world\<lparr>wHost := h', wDb := db'\<rparr>"
    by (intro exI conjI) (assumption, simp_all)
  then show ?thesis
    using flow_is_pipeline [where cfg = plugin_flow and E = sum_flow_env and base = sample_db and w = sum_world
        and run = "\<lambda>_ m h res h'. False" and env = Map.empty and env' = Map.empty and res = None, OF plugin_flow_valid c] by blast
qed


end
