(* ===== verification/Command.thy ===== *)
theory Command
  imports Pipeline
begin

text \<open>
  The command \<^verbatim>\<open>cmd/batch/main.go\<close> and the benchmark \<^verbatim>\<open>batch/benchmark.go\<close>: what the flags and the environment
  make the command do, and the benchmark as a run over several databases. Decoding the JSON of a configuration file
  is a parameter.
\<close>

subsection \<open>The environment\<close>

text \<open>\<^verbatim>\<open>strconv.ParseBool\<close>.\<close>

definition parse_bool :: "string \<Rightarrow> bool option" where
  "parse_bool s =
     (if s \<in> {''1'', ''t'', ''T'', ''TRUE'', ''true'', ''True''} then Some True
      else if s \<in> {''0'', ''f'', ''F'', ''FALSE'', ''false'', ''False''} then Some False else None)"

definition getenvInt :: "environ \<Rightarrow> string \<Rightarrow> int \<Rightarrow> int" where
  "getenvInt env name d =
     (let v = getenv env name in if v = [] then d else (case parse_int v of (n, None) \<Rightarrow> n | _ \<Rightarrow> d))"

definition getenvBool :: "environ \<Rightarrow> string \<Rightarrow> bool \<Rightarrow> bool" where
  "getenvBool env name d =
     (let v = getenv env name in if v = [] then d else (case parse_bool v of Some b \<Rightarrow> b | None \<Rightarrow> d))"

definition getenvDefault :: "environ \<Rightarrow> string \<Rightarrow> string \<Rightarrow> string" where
  "getenvDefault env name d = or_default d (getenv env name)"

subsection \<open>Configurations\<close>

definition main_baseDB :: "environ \<Rightarrow> DBConfig" where
  "main_baseDB env =
     \<lparr>DbHost = getenvDefault env ''MYSQL_HOST'' ''127.0.0.1'', DbPort = getenvInt env ''MYSQL_PORT'' 3306,
      DbUser = getenvDefault env ''MYSQL_USER'' ''root'', DbPassword = getenv env ''MYSQL_PASSWORD'',
      DbDatabase = getenv env ''MYSQL_DB'', DbParams = []\<rparr>"

definition main_sourceDB :: "environ \<Rightarrow> DBConfig" where
  "main_sourceDB env =
     (let b = main_baseDB env in
      \<lparr>DbHost = getenvDefault env ''MYSQL_SOURCE_HOST'' (DbHost b), DbPort = getenvInt env ''MYSQL_SOURCE_PORT'' (DbPort b),
       DbUser = getenvDefault env ''MYSQL_SOURCE_USER'' (DbUser b), DbPassword = getenvDefault env ''MYSQL_SOURCE_PASSWORD'' (DbPassword b),
       DbDatabase = getenvDefault env ''MYSQL_SOURCE_DB'' (DbDatabase b), DbParams = []\<rparr>)"

definition main_targetDB :: "environ \<Rightarrow> DBConfig" where
  "main_targetDB env =
     (let b = main_baseDB env in
      \<lparr>DbHost = getenvDefault env ''MYSQL_TARGET_HOST'' (DbHost b), DbPort = getenvInt env ''MYSQL_TARGET_PORT'' (DbPort b),
       DbUser = getenvDefault env ''MYSQL_TARGET_USER'' (DbUser b), DbPassword = getenvDefault env ''MYSQL_TARGET_PASSWORD'' (DbPassword b),
       DbDatabase = getenvDefault env ''MYSQL_TARGET_DB'' (DbDatabase b), DbParams = []\<rparr>)"

definition main_sourceCfg :: "environ \<Rightarrow> SourceConfig" where
  "main_sourceCfg env =
     \<lparr>Table = getenvDefault env ''SOURCE_TABLE'' ''source_events'', PKColumn = getenvDefault env ''PK_COL'' ''id'',
      KeyColumn = getenvDefault env ''KEY_COL'' ''biz_key'', ValColumn = getenvDefault env ''VALUE_COL'' ''metric'',
      Where = getenvDefault env ''SOURCE_WHERE'' ''1=1'', Shards = getenvInt env ''SOURCE_SHARDS'' 16,
      Parallel = getenvInt env ''SOURCE_PARALLEL'' 4,
      OutputDir = getenvDefault env ''SOURCE_OUT_DIR'' (path_join [''txt'', ''mysql_source'']), FilePrefix = []\<rparr>"

definition main_sinkCfg :: "environ \<Rightarrow> SinkConfig" where
  "main_sinkCfg env =
     \<lparr>TargetTable = getenvDefault env ''TARGET_TABLE'' ''agg_results'', SinkKeyColumn = getenvDefault env ''TARGET_KEY_COL'' ''biz_key'',
      SinkValColumn = getenvDefault env ''TARGET_VALUE_COL'' ''metric_sum'', InputGlob = getenvDefault env ''MR_OUTPUT_GLOB'' ''mr-out-*.txt'',
      Replace = getenvBool env ''SINK_REPLACE'' True, BatchSize = getenvInt env ''SINK_BATCH_SIZE'' 2000\<rparr>"

text \<open>A database configuration that is not given, the zero value of its type.\<close>

definition no_db :: DBConfig where
  "no_db = \<lparr>DbHost = [], DbPort = 0, DbUser = [], DbPassword = [], DbDatabase = [], DbParams = []\<rparr>"

definition main_pipeline :: "environ \<Rightarrow> path \<Rightarrow> DBConfig \<Rightarrow> PipelineConfig" where
  "main_pipeline env plugin base =
     \<lparr>plDB = base, plSourceDB = main_sourceDB env, plSinkDB = main_targetDB env, plSource = main_sourceCfg env, plSink = main_sinkCfg env,
      plPluginPath = plugin, plReducers = getenvInt env ''MR_REDUCERS'' 8, plWorkers = getenvInt env ''MR_WORKERS'' 16,
      plInRAM = getenvBool env ''MR_IN_RAM'' False, plPort = getenvInt env ''MR_PORT'' 10000\<rparr>"

definition main_prepare :: "environ \<Rightarrow> PrepareConfig" where
  "main_prepare env =
     \<lparr>PrepTable = getenvDefault env ''SOURCE_TABLE'' ''source_events'', PrepRows = getenvInt env ''ROWS'' 10000000,
      PrepKeyMod = getenvInt env ''KEY_MOD'' 100000\<rparr>"

definition main_validate :: "environ \<Rightarrow> ValidateConfig" where
  "main_validate env =
     \<lparr>SourceTable = getenvDefault env ''SOURCE_TABLE'' ''source_events'', SourceKey = getenvDefault env ''SOURCE_KEY_COL'' ''biz_key'',
      SourceVal = getenvDefault env ''SOURCE_VALUE_COL'' ''metric'', ValTargetTable = getenvDefault env ''TARGET_TABLE'' ''agg_results'',
      TargetKey = getenvDefault env ''TARGET_KEY_COL'' ''biz_key'', TargetVal = getenvDefault env ''TARGET_VALUE_COL'' ''metric_sum''\<rparr>"

record BenchmarkConfig =
  bnDB :: DBConfig
  bnPrepare :: bool
  bnPrepareC :: PrepareConfig
  bnPipeline :: PipelineConfig
  bnValidate :: ValidateConfig

definition main_benchmark :: "environ \<Rightarrow> path \<Rightarrow> BenchmarkConfig" where
  "main_benchmark env plugin =
     \<lparr>bnDB = main_baseDB env, bnPrepare = getenvBool env ''PREPARE_DATA'' False, bnPrepareC = main_prepare env,
      bnPipeline = main_pipeline env plugin no_db,
      bnValidate = \<lparr>SourceTable = getenvDefault env ''SOURCE_TABLE'' ''source_events'', SourceKey = [], SourceVal = [],
        ValTargetTable = getenvDefault env ''TARGET_TABLE'' ''agg_results'', TargetKey = [], TargetVal = []\<rparr>\<rparr>"

text \<open>\<^verbatim>\<open>example/batch-minimal/main.go\<close> builds its pipeline from fewer variables.\<close>

definition example_baseDB :: "environ \<Rightarrow> DBConfig" where
  "example_baseDB env =
     \<lparr>DbHost = getenvDefault env ''MYSQL_HOST'' ''localhost'', DbPort = getenvInt env ''MYSQL_PORT'' 3306,
      DbUser = getenvDefault env ''MYSQL_USER'' ''root'', DbPassword = getenvDefault env ''MYSQL_PASSWORD'' ''123456'',
      DbDatabase = getenvDefault env ''MYSQL_DB'' ''mysql'', DbParams = []\<rparr>"

definition example_sourceDB :: "environ \<Rightarrow> DBConfig" where
  "example_sourceDB env =
     (let b = example_baseDB env in
      \<lparr>DbHost = getenvDefault env ''MYSQL_SOURCE_HOST'' (DbHost b), DbPort = getenvInt env ''MYSQL_SOURCE_PORT'' (DbPort b),
       DbUser = getenvDefault env ''MYSQL_SOURCE_USER'' (DbUser b), DbPassword = getenvDefault env ''MYSQL_SOURCE_PASSWORD'' (DbPassword b),
       DbDatabase = getenvDefault env ''MYSQL_SOURCE_DB'' (DbDatabase b), DbParams = []\<rparr>)"

definition example_targetDB :: "environ \<Rightarrow> DBConfig" where
  "example_targetDB env =
     (let b = example_baseDB env in
      \<lparr>DbHost = getenvDefault env ''MYSQL_TARGET_HOST'' (DbHost b), DbPort = getenvInt env ''MYSQL_TARGET_PORT'' (DbPort b),
       DbUser = getenvDefault env ''MYSQL_TARGET_USER'' (DbUser b), DbPassword = getenvDefault env ''MYSQL_TARGET_PASSWORD'' (DbPassword b),
       DbDatabase = getenvDefault env ''MYSQL_TARGET_DB'' (DbDatabase b), DbParams = []\<rparr>)"

definition example_pipeline :: "environ \<Rightarrow> PipelineConfig" where
  "example_pipeline env =
     \<lparr>plDB = example_baseDB env, plSourceDB = example_sourceDB env, plSinkDB = example_targetDB env,
      plSource = \<lparr>Table = getenvDefault env ''SOURCE_TABLE'' ''source_events'', PKColumn = [], KeyColumn = [], ValColumn = [], Where = [],
        Shards = getenvInt env ''SOURCE_SHARDS'' 8, Parallel = getenvInt env ''SOURCE_PARALLEL'' 4, OutputDir = [], FilePrefix = []\<rparr>,
      plSink = \<lparr>TargetTable = getenvDefault env ''TARGET_TABLE'' ''agg_results_xdb'', SinkKeyColumn = [], SinkValColumn = [], InputGlob = [],
        Replace = True, BatchSize = 0\<rparr>,
      plPluginPath = ''../../cmd/agg.so'', plReducers = 4, plWorkers = 8, plInRAM = False, plPort = 10000\<rparr>"

subsection \<open>The command\<close>

record flags =
  flMode :: string
  flPlugin :: path
  flConfig :: path
  flCheck :: bool

text \<open>What the command goes on to do; \<open>Die\<close> prints an error and exits with status 1.\<close>

datatype action =
    Die string | DieInvalid flow_error | CheckPass | DoFlow FlowConfig | DoFlowBenchmark FlowConfig
  | DoPipeline PipelineConfig | DoPrepare DBConfig PrepareConfig | DoValidate DBConfig ValidateConfig | DoBenchmark BenchmarkConfig

definition main_action :: "(path \<Rightarrow> FlowConfig result) \<Rightarrow> flags \<Rightarrow> environ \<Rightarrow> action" where
  "main_action loadFlowConfig fl env =
     (if flConfig fl \<noteq> [] then
        (case loadFlowConfig (flConfig fl) of
           Inl er \<Rightarrow> Die er
         | Inr cfg \<Rightarrow>
             (case ValidateFlowConfig cfg of
                Some er \<Rightarrow> DieInvalid er
              | None \<Rightarrow>
                  (if flCheck fl then CheckPass
                   else if flMode fl = ''pipeline'' then DoFlow cfg
                   else if flMode fl = ''benchmark'' then DoFlowBenchmark cfg
                   else Die (''mode '' @ flMode fl @ '' is not supported with -config (use pipeline|benchmark)''))))
      else if flCheck fl then Die ''-check requires -config''
      else if flMode fl = ''pipeline'' then DoPipeline (main_pipeline env (flPlugin fl) (main_baseDB env))
      else if flMode fl = ''prepare'' then DoPrepare (main_sourceDB env) (main_prepare env)
      else if flMode fl = ''validate'' then DoValidate (main_baseDB env) (main_validate env)
      else if flMode fl = ''benchmark'' then DoBenchmark (main_benchmark env (flPlugin fl))
      else Die (''unsupported mode: '' @ flMode fl))"

text \<open>The file of a configuration is opened and decoded; unknown fields are errors of the decoder, which is a parameter.\<close>

definition loadFlowConfig :: "(path \<Rightarrow> string result) \<Rightarrow> (string \<Rightarrow> FlowConfig result) \<Rightarrow> path \<Rightarrow> FlowConfig result" where
  "loadFlowConfig opn decode p = bind_result (opn p) decode"

text \<open>\<^verbatim>\<open>must\<close>: the text on the standard error and the exit status.\<close>

definition must :: "string option \<Rightarrow> (string \<times> int) option" where
  "must er = map_option (\<lambda>e. (e, 1)) er"

subsection \<open>The benchmark\<close>

text \<open>
  The databases \<open>dbs\<close> are told apart by \<open>loc\<close>, the one that a data source name leads to. \<open>senv\<close> is what a database in
  its state answers to the export, \<open>query\<close> what it answers to the validation.
\<close>

definition RunBenchmark :: "(string \<Rightarrow> string option) \<Rightarrow> (string \<Rightarrow> 'l) \<Rightarrow> ('db \<Rightarrow> source_env) \<Rightarrow> 'db sink_exec \<Rightarrow>
    ('db \<Rightarrow> string \<Rightarrow> row_set result) \<Rightarrow> runner \<Rightarrow> BenchmarkConfig \<Rightarrow> host \<Rightarrow> ('l \<Rightarrow> 'db) \<Rightarrow> string option \<Rightarrow> host \<Rightarrow> ('l \<Rightarrow> 'db) \<Rightarrow> bool" where
  "RunBenchmark ping loc senv ex query run cfg h dbs res h' dbs' \<longleftrightarrow>
     (case openDB ping (bnDB cfg) of
        Some er \<Rightarrow> res = Some er \<and> h' = h \<and> dbs' = dbs
      | None \<Rightarrow>
          (let base = loc (dsn (bnDB cfg));
               (per, db1) = (if bnPrepare cfg then PrepareSyntheticSource ex (bnPrepareC cfg) (dbs base) else (None, dbs base));
               dbs1 = dbs(base := db1);
               pc = (bnPipeline cfg)\<lparr>plDB := bnDB cfg\<rparr>;
               src = loc (dsn (fst (pipeline_dbs pc))); snk = loc (dsn (snd (pipeline_dbs pc)))
           in case per of
                Some er \<Rightarrow> res = Some er \<and> h' = h \<and> dbs' = dbs1
              | None \<Rightarrow>
                  (\<exists>pr db2. RunPipeline ping (senv (dbs1 src)) ex run pc h (dbs1 snk) pr h' db2 \<and> dbs' = dbs1(snk := db2) \<and>
                     res = (case pr of Some er \<Rightarrow> Some er | None \<Rightarrow> ValidateAggregation (query (dbs' base)) (bnValidate cfg)))))"

section \<open>Properties\<close>

text \<open>Without settings of their own, source and target are the base database.\<close>

theorem main_same_db:
  assumes "list_all (\<lambda>n. getenv env n = []) [''MYSQL_SOURCE_HOST'', ''MYSQL_SOURCE_PORT'', ''MYSQL_SOURCE_USER'', ''MYSQL_SOURCE_PASSWORD'',
      ''MYSQL_SOURCE_DB'', ''MYSQL_TARGET_HOST'', ''MYSQL_TARGET_PORT'', ''MYSQL_TARGET_USER'', ''MYSQL_TARGET_PASSWORD'', ''MYSQL_TARGET_DB'']"
  shows "pipeline_dbs (main_pipeline env plugin base) =
    (if DbDatabase (main_baseDB env) = [] then (base, base) else (main_baseDB env, main_baseDB env))"
proof -
  have "main_baseDB env = \<lparr>DbHost = DbHost (main_baseDB env), DbPort = DbPort (main_baseDB env), DbUser = DbUser (main_baseDB env),
      DbPassword = DbPassword (main_baseDB env), DbDatabase = DbDatabase (main_baseDB env), DbParams = []\<rparr>" by (simp add: main_baseDB_def)
  then have "main_sourceDB env = main_baseDB env" "main_targetDB env = main_baseDB env"
    using assms by (simp_all add: main_sourceDB_def main_targetDB_def Let_def getenvDefault_def getenvInt_def or_default_def)
  then show ?thesis by (simp add: main_pipeline_def pipeline_dbs_def)
qed

text \<open>The example with no settings is the command with these.\<close>

definition example_settings :: environ where
  "example_settings =
     [''MYSQL_HOST'' \<mapsto> ''localhost'', ''MYSQL_PASSWORD'' \<mapsto> ''123456'', ''MYSQL_DB'' \<mapsto> ''mysql'', ''SOURCE_SHARDS'' \<mapsto> ''8'',
      ''TARGET_TABLE'' \<mapsto> ''agg_results_xdb'', ''MR_REDUCERS'' \<mapsto> ''4'', ''MR_WORKERS'' \<mapsto> ''8'']"

lemma example_is_command:
  "pipeline_withDefaults (example_pipeline Map.empty) =
   pipeline_withDefaults (main_pipeline example_settings ''../../cmd/agg.so'' (main_baseDB example_settings))"
proof -
  have "''4'' = itoa 4" "''8'' = itoa 8" by code_simp+
  then have num: "parse_int ''4'' = (4, None)" "parse_int ''8'' = (8, None)" using atoi_itoa [of 4] atoi_itoa [of 8] by (simp_all add: int64_def)
  have dir: "path_join [''txt'', ''mysql_source''] = ''txt/mysql_source''" by code_simp
  show ?thesis
    by (simp add: pipeline_withDefaults_def example_pipeline_def main_pipeline_def source_WithDefaults_def sink_WithDefaults_def main_sourceCfg_def
        main_sinkCfg_def example_baseDB_def example_sourceDB_def example_targetDB_def main_baseDB_def main_sourceDB_def main_targetDB_def Let_def
        getenvDefault_def getenvInt_def getenvBool_def getenv_def or_default_def example_settings_def num dir)
qed

lemma benchmark_runs:
  assumes "openDB ping (bnDB cfg) = None" "\<not> bnPrepare cfg" "RunBenchmark ping loc senv ex query run cfg h dbs None h' dbs'"
  shows "ValidateAggregation (query (dbs' (loc (dsn (bnDB cfg))))) (bnValidate cfg) = None \<and>
    (\<exists>db2. dbs' = dbs(loc (dsn (snd (pipeline_dbs ((bnPipeline cfg)\<lparr>plDB := bnDB cfg\<rparr>)))) := db2))"
  using assms by (auto simp: RunBenchmark_def Let_def split: option.splits)


text \<open>A benchmark from and to a second database, and queries that find the tables on that one only.\<close>

definition two_db_env :: environ where
  "two_db_env = [''MYSQL_DB'' \<mapsto> ''d'', ''MYSQL_SOURCE_DB'' \<mapsto> ''e'', ''MYSQL_TARGET_DB'' \<mapsto> ''e'']"

definition second_only :: "bool \<Rightarrow> string \<Rightarrow> row_set result" where
  "second_only second q = (if second then Inr ([Inr (''a'', 4)], None) else Inl ''no such table'')"

definition leads_to :: "string \<Rightarrow> bool" where
  "leads_to name = contains_sub name ''/e?''"

lemma main_two_dbs:
  "bnDB (main_benchmark two_db_env ''agg.so'') = \<lparr>DbHost = ''127.0.0.1'', DbPort = 3306, DbUser = ''root'', DbPassword = [], DbDatabase = ''d'', DbParams = []\<rparr>"
  "snd (pipeline_dbs ((bnPipeline (main_benchmark two_db_env ''agg.so''))\<lparr>plDB := bnDB (main_benchmark two_db_env ''agg.so'')\<rparr>)) =
     \<lparr>DbHost = ''127.0.0.1'', DbPort = 3306, DbUser = ''root'', DbPassword = [], DbDatabase = ''e'', DbParams = []\<rparr>"
  "\<not> bnPrepare (main_benchmark two_db_env ''agg.so'')"
  by (simp_all add: main_benchmark_def main_baseDB_def two_db_env_def getenvDefault_def getenvInt_def getenvBool_def getenv_def or_default_def
      main_pipeline_def pipeline_dbs_def main_targetDB_def Let_def)

lemma leads_two:
  "leads_to (dsn \<lparr>DbHost = ''127.0.0.1'', DbPort = 3306, DbUser = ''root'', DbPassword = [], DbDatabase = ''e'', DbParams = []\<rparr>)"
  "\<not> leads_to (dsn \<lparr>DbHost = ''127.0.0.1'', DbPort = 3306, DbUser = ''root'', DbPassword = [], DbDatabase = ''d'', DbParams = []\<rparr>)"
  by code_simp+


end
