(* ===== verification/Lifecycle.thy ===== *)
theory Lifecycle
  imports Job Runtime
begin

text \<open>
  The life of a master and its workers: \<^verbatim>\<open>StartMaster\<close> (\<^verbatim>\<open>master/mainInterface.go\<close>) from the listener to the end of the workers, and
  the end of a worker (\<^verbatim>\<open>Worker.End\<close>, \<^verbatim>\<open>StartWorker\<close>). The phases are those of \<^verbatim>\<open>Job\<close>; what is new is how a run begins and how
  the workers are told to stop.
\<close>

subsection \<open>The master\<close>

text \<open>
  \<open>listen\<close> gives the error of an address. The registrations \<open>regs\<close> arrive while the master polls, poll \<open>k\<close> after the first \<open>ns ! k\<close>
  of them; \<open>rus\<close> and \<open>tus\<close> are the uuids of the tasks. The rules are the runs in which every call of a task is answered (what failed calls do is
  the subject of \<^verbatim>\<open>Dispatch_Map\<close> and \<^verbatim>\<open>Dispatch_Reduce\<close>). The result of a run that returns is the host and the addresses on which \<^verbatim>\<open>End\<close> was called,
  in order.
\<close>

definition poll_states :: "(nat \<Rightarrow> uuid) \<Rightarrow> int \<Rightarrow> int \<Rightarrow> (uuid \<times> addr) list \<Rightarrow> nat list \<Rightarrow> Master list" where
  "poll_states rus nWorker nReduce regs ns = map (\<lambda>n. fst (register_all (take n regs) (NewMaster rus nWorker nReduce))) ns"

inductive StartMaster ::
  "(addr \<Rightarrow> string option) \<Rightarrow> (uuid \<times> addr) list \<Rightarrow> nat list \<Rightarrow> (KV list \<Rightarrow> KV list) \<Rightarrow> mapf \<Rightarrow> reducef \<Rightarrow> Worker list \<Rightarrow>
   path list \<Rightarrow> int \<Rightarrow> int \<Rightarrow> addr \<Rightarrow> host \<Rightarrow> (host \<times> addr list) outcome \<Rightarrow> bool"
  for listen regs ns srt f g ws files nWorker nReduce a h where
  no_listener: "listen a = Some er \<Longrightarrow> StartMaster listen regs ns srt f g ws files nWorker nReduce a h (Panics (PanicErr er))"
| waits: "listen a = None \<Longrightarrow> waitForEnoughWorker (poll_states rus nWorker nReduce regs ns) = None \<Longrightarrow>
    StartMaster listen regs ns srt f g ws files nWorker nReduce a h Blocks"
| no_input: "listen a = None \<Longrightarrow> waitForEnoughWorker (poll_states rus nWorker nReduce regs ns) = Some ms \<Longrightarrow>
    distributeWork (disk h) tus files ms = Panics p \<Longrightarrow> StartMaster listen regs ns srt f g ws files nWorker nReduce a h (Panics p)"
| runs: "listen a = None \<Longrightarrow> waitForEnoughWorker (poll_states rus nWorker nReduce regs ns) = Some ms \<Longrightarrow>
    distributeWork (disk h) tus files ms = Done ms1 \<Longrightarrow>
    distinct order \<Longrightarrow> set order = {0..<length (MapTasks ms1)} \<Longrightarrow> map_calls f ws order h ms1 h2 ms2 \<Longrightarrow>
    distinct rorder \<Longrightarrow> set rorder = {0..<length (ReduceTasks ms2)} \<Longrightarrow> reduce_calls srt g (map snd regs) ws ms2 rorder h2 = Done h3 \<Longrightarrow>
    StartMaster listen regs ns srt f g ws files nWorker nReduce a h (Done (h3, endWorkers ms2))"

inductive_cases StartMaster_DoneE: "StartMaster listen regs ns srt f g ws files nWorker nReduce a h (Done r)"
inductive_cases StartMaster_PanicsE: "StartMaster listen regs ns srt f g ws files nWorker nReduce a h (Panics p)"
inductive_cases StartMaster_BlocksE: "StartMaster listen regs ns srt f g ws files nWorker nReduce a h Blocks"

text \<open>
  The health check that runs beside the phases: every second \<^verbatim>\<open>checkWorkersHealth\<close>, whose body is empty. The phases need not
  know of it.
\<close>

definition checkWorkersHealth :: "Master \<Rightarrow> Master" where
  "checkWorkersHealth ms = ms"

fun PeriodicHealthCheck :: "nat \<Rightarrow> Master \<Rightarrow> Master" where
  "PeriodicHealthCheck 0 ms = ms"
| "PeriodicHealthCheck (Suc ticks) ms = PeriodicHealthCheck ticks (checkWorkersHealth ms)"

lemma PeriodicHealthCheck_id [simp]: "PeriodicHealthCheck ticks ms = ms"
  by (induction ticks) (simp_all add: checkWorkersHealth_def)

subsection \<open>The end of a worker\<close>

text \<open>
  \<^verbatim>\<open>EndChan\<close> has no buffer and is read once, after the registration. \<open>Waiting n\<close> is a worker at that read with \<open>n\<close> handlers of
  \<^verbatim>\<open>End\<close> at their send; after the read the handlers that are left stay where they are.
\<close>

datatype worker_life = Registering nat | Waiting nat | Stopping nat

datatype life_event = Registered | EndCall | ReadEnd

fun life_step :: "life_event \<Rightarrow> worker_life \<Rightarrow> worker_life option" where
  "life_step Registered (Registering n) = Some (Waiting n)"
| "life_step EndCall (Registering n) = Some (Registering (n + 1))"
| "life_step EndCall (Waiting n) = Some (Waiting (n + 1))"
| "life_step EndCall (Stopping n) = Some (Stopping (n + 1))"
| "life_step ReadEnd (Waiting (Suc n)) = Some (Stopping n)"
| "life_step _ _ = None"

fun life_run :: "life_event list \<Rightarrow> worker_life \<Rightarrow> worker_life option" where
  "life_run [] w = Some w"
| "life_run (l # ls) w = (case life_step l w of None \<Rightarrow> None | Some w' \<Rightarrow> life_run ls w')"

text \<open>The handlers of \<^verbatim>\<open>End\<close> that hang.\<close>

fun hanging :: "worker_life \<Rightarrow> nat" where
  "hanging (Registering n) = n"
| "hanging (Waiting n) = n"
| "hanging (Stopping n) = n"

lemma life_stopping: "life_run ls (Stopping n) = Some w' \<Longrightarrow> \<exists>m. w' = Stopping m"
proof (induction ls arbitrary: n)
  case (Cons l ls)
  then show ?case by (cases l) auto
qed auto

lemma life_count:
  assumes "life_run ls w = Some w'"
  shows "hanging w' + count_list ls ReadEnd = hanging w + count_list ls EndCall \<and>
    count_list ls ReadEnd = (case (w, w') of (Stopping _, _) \<Rightarrow> 0 | (_, Stopping _) \<Rightarrow> 1 | _ \<Rightarrow> 0)"
  using assms
proof (induction ls arbitrary: w)
  case (Cons l ls)
  then obtain v where v: "life_step l w = Some v" "life_run ls v = Some w'" by (auto split: option.splits)
  from Cons.IH [OF v(2)] v life_stopping [of ls _ w'] show ?case
    by (cases "(l, w)" rule: life_step.cases; cases w') (auto split: worker_life.splits)
qed (auto split: worker_life.splits)

subsection \<open>The workers are told to stop\<close>

lemma UpdateIMDInfo_workers: "UpdateIMDInfo u fs ms = Done ms' \<Longrightarrow> Workers ms' = Workers ms \<and> length (ReduceTasks ms') = length (ReduceTasks ms)"
  using UpdateIMDInfo_eq [of fs ms u] UpdateIMDInfo_panics [of ms fs u] by (cases "length fs \<le> length (ReduceTasks ms)") auto

lemma map_calls_workers:
  "map_calls f ws order h ms h' ms' \<Longrightarrow> Workers ms' = Workers ms \<and> length (ReduceTasks ms') = length (ReduceTasks ms)"
  by (induction rule: map_calls.induct) (auto dest: UpdateIMDInfo_workers)

lemma job_master_workers:
  assumes "length ips = length us"
  shows "map wiIP (Workers (job_master us ips rus R)) = ips"
proof -
  have "Workers (job_master us ips rus R) = map (\<lambda>(u, ip). newWorkerInfo u ip) (zip us ips)"
    using register_all_result [OF registry_ok_NewMaster, of "zip us ips" rus "int (length us)" "int R"]
    by (simp add: job_master_def NewMaster_def)
  then show ?thesis using assms by (simp add: newWorkerInfo_def split_beta comp_def map_snd_zip)
qed

text \<open>The poll that ends the loop is one that saw as many workers as were asked for.\<close>

lemma register_all_num:
  "numWorkers (fst (register_all regs (NewMaster rus nw nr))) = int (length regs)"
  "totalWorkers (fst (register_all regs (NewMaster rus nw nr))) = nw"
  using register_all_result [OF registry_ok_NewMaster, of regs rus nw nr] by (simp_all add: NewMaster_def)

lemma polls_None: "waitForEnoughWorker (poll_states rus nw nr regs ns) = None \<longleftrightarrow> (\<forall>n \<in> set ns. int (min (length regs) n) < nw)"
  by (simp add: waitForEnoughWorker_None poll_states_def register_all_num)

lemma polls_Some:
  assumes "length ips = length us" "n \<in> set ns" "length us \<le> n"
  shows "waitForEnoughWorker (poll_states rus (int (length us)) (int R) (zip us ips) ns) = Some (job_master us ips rus R)"
proof -
  have "waitForEnoughWorker (poll_states rus (int (length us)) (int R) (zip us ips) ns) \<noteq> None"
    using assms by (auto simp: polls_None min_def)
  then obtain ms where ms: "waitForEnoughWorker (poll_states rus (int (length us)) (int R) (zip us ips) ns) = Some ms" by blast
  then obtain k where k: "ms = fst (register_all (take k (zip us ips)) (NewMaster rus (int (length us)) (int R)))"
    and enough: "totalWorkers ms \<le> numWorkers ms"
    using waitForEnoughWorker_Some [OF ms] by (auto simp: poll_states_def)
  then have "length (zip us ips) \<le> k" using assms(1) by (simp add: register_all_num)
  with k ms show ?thesis by (simp add: job_master_def)
qed

text \<open>A master whose polls end with all workers registered runs the job of \<^verbatim>\<open>Job\<close> and then told every worker.\<close>

lemma StartMaster_facts:
  assumes su: "job_setup us ips R inRAM files h"
    and dw: "distributeWork (disk h) tus files (job_master us ips rus R) = Done ms1"
    and mc: "map_calls f (job_workers us R inRAM) order h ms1 h2 ms2"
  shows "length (MapTasks ms1) = length us" "length (ReduceTasks ms2) = R" "endWorkers ms2 = ips"
proof -
  have us: "distinct us" "length ips = length us" "0 < length us" and fs: "\<forall>p \<in> set files. disk h p \<noteq> None"
    using su by (auto simp: job_setup_def)
  note jm = job_master_facts [OF us(1,2), where rus = rus and R = R]
  obtain mts where ms1: "ms1 = (job_master us ips rus R)\<lparr>MapTasks := mts\<rparr>" "length mts = length us"
    using distributeWork_Done [OF jm(1) us(3) fs, of tus] dw by auto
  show "length (MapTasks ms1) = length us" "length (ReduceTasks ms2) = R" "endWorkers ms2 = ips"
    using map_calls_workers [OF mc] ms1 jm(2) job_master_workers [OF us(2), of rus R]
    by (simp_all add: endWorkers_def newReduceTasks_def)
qed

lemma StartMaster_job:
  assumes su: "job_setup us ips R inRAM files h" and n: "n \<in> set ns" "length us \<le> n"
    and run: "StartMaster listen (zip us ips) ns srt f g (job_workers us R inRAM) files (int (length us)) (int R) a h (Done (h', told))"
  shows "job srt f g us ips R inRAM files h h' \<and> told = ips"
proof -
  have len: "length ips = length us" using su by (simp add: job_setup_def)
  then have snd: "map snd (zip us ips) = ips" by simp
  from run obtain rus ms tus ms1 order h2 ms2 rorder where
    "waitForEnoughWorker (poll_states rus (int (length us)) (int R) (zip us ips) ns) = Some ms"
    and dw: "distributeWork (disk h) tus files ms = Done ms1"
    and order: "distinct order" "set order = {0..<length (MapTasks ms1)}"
    and mc: "map_calls f (job_workers us R inRAM) order h ms1 h2 ms2"
    and rorder: "distinct rorder" "set rorder = {0..<length (ReduceTasks ms2)}"
    and rc: "reduce_calls srt g (map snd (zip us ips)) (job_workers us R inRAM) ms2 rorder h2 = Done h'" and told: "told = endWorkers ms2"
    by (auto elim!: StartMaster_DoneE)
  then have dw: "distributeWork (disk h) tus files (job_master us ips rus R) = Done ms1" by (simp add: polls_Some [OF len n])
  note facts = StartMaster_facts [OF su dw mc]
  show ?thesis using job.intros [OF dw order(1) order(2) [unfolded facts] mc rorder(1) rorder(2) [unfolded facts] rc [unfolded snd]] told facts by simp
qed

text \<open>Some run returns: the calls in the order of the tasks, whatever the uuids are.\<close>

lemma StartMaster_returns:
  assumes su: "job_setup us ips R inRAM files h" "bag_reducer g" "key_sorter srt"
    and clean: "shuffle_clean (all_pairs m (disk h) files (length us))"
    and n: "n \<in> set ns" "length us \<le> n" and l: "listen a = None"
  shows "\<exists>h'. StartMaster listen (zip us ips) ns srt (\<lambda>fn c. Done (m fn c)) g (job_workers us R inRAM) files
    (int (length us)) (int R) a h (Done (h', ips))"
proof -
  have len: "length ips = length us" using su(1) by (simp add: job_setup_def)
  obtain tus ms1 h2 ms2 h3 where r: "distributeWork (disk h) tus files (job_master us ips (\<lambda>_. []) R) = Done ms1"
    "map_calls (\<lambda>fn c. Done (m fn c)) (job_workers us R inRAM) [0..<length us] h ms1 h2 ms2"
    "reduce_calls srt g ips (job_workers us R inRAM) ms2 [0..<R] h2 = Done h3"
    using job_exists_from [OF su clean, of "\<lambda>_. []"] by blast
  note facts = StartMaster_facts [OF su(1) r(1,2)]
  have "StartMaster listen (zip us ips) ns srt (\<lambda>fn c. Done (m fn c)) g (job_workers us R inRAM) files
      (int (length us)) (int R) a h (Done (h3, endWorkers ms2))"
    by (rule StartMaster.runs [where listen = listen and a = a and order = "[0..<length us]" and rorder = "[0..<R]", OF l polls_Some [OF len n] r(1) _ _ r(2)])
      (use facts r(3) len in auto)
  then show ?thesis using facts(3) by auto
qed

text \<open>The other ends of a run: the panic of the listener, and the loop while workers are missing.\<close>

lemma StartMaster_blocks:
  "StartMaster listen regs ns srt f g ws files nw nr a h Blocks \<longleftrightarrow> listen a = None \<and> (\<forall>n \<in> set ns. int (min (length regs) n) < nw)"
  by (auto elim: StartMaster_BlocksE intro!: StartMaster.waits simp: polls_None)

lemma StartMaster_listener:
  "listen a = Some er \<Longrightarrow> StartMaster listen regs ns srt f g ws files nw nr a h out \<longleftrightarrow> out = Panics (PanicErr er)"
  by (auto elim: StartMaster.cases intro: StartMaster.no_listener)

section \<open>Properties\<close>

text \<open>
  A worker answers one call of \<^verbatim>\<open>End\<close>: in every sequence of registration, calls and the read of the channel, at most one call is
  answered, and all others hang.
\<close>

theorem one_End_answered:
  assumes "life_run ls (Registering 0) = Some w"
  shows "count_list ls ReadEnd \<le> 1 \<and> hanging w = count_list ls EndCall - count_list ls ReadEnd \<and>
    (hanging w = 0 \<longleftrightarrow> count_list ls EndCall = count_list ls ReadEnd)"
  using life_count [OF assms] by (cases w) auto

theorem one_End_answered_witness: "life_run [Registered, EndCall, ReadEnd, EndCall] (Registering 0) = Some (Stopping 1) \<and> hanging (Stopping 1) = 1"
  using one_End_answered [of "[Registered, EndCall, ReadEnd, EndCall]" "Stopping 1"] by simp

end
