(* ===== verification/Recovery.thy ===== *)
theory Recovery
  imports Job
begin

text \<open>
  Jobs in which calls of map tasks fail: the re-execution of \<^verbatim>\<open>distributeMapTask\<close> (\<^verbatim>\<open>Dispatch_Map\<close>) together with what the
  calls do to the disk and to the table of the shuffle. A worker names its intermediate files by its own uuid, not by the
  task (\<^verbatim>\<open>writeIMDToLocalFileParallel\<close>), so a worker that executes a second task writes over the files of the first; the lemmas
  follow this through to the output of the job.
\<close>

subsection \<open>The phase with its calls\<close>

text \<open>A master that was asked for \<open>n\<close> workers; those that registered beyond are spare.\<close>

definition asked_master :: "uuid list \<Rightarrow> addr list \<Rightarrow> (nat \<Rightarrow> uuid) \<Rightarrow> nat \<Rightarrow> nat \<Rightarrow> Master" where
  "asked_master us ips rus n R = fst (register_all (zip us ips) (NewMaster rus (int n) (int R)))"

text \<open>A call that is executed to its end: the files are written and reported to the master.\<close>

definition map_effect :: "mapf \<Rightarrow> Worker list \<Rightarrow> nat \<Rightarrow> nat \<Rightarrow> host \<Rightarrow> Master \<Rightarrow> host \<Rightarrow> Master \<Rightarrow> bool" where
  "map_effect f ws k w h ms h1 ms1 \<longleftrightarrow>
     (\<exists>wk names. Worker_Map f True h (ws ! w) (map_toRPC (MapTasks ms ! k)) (Done (wk, h1, names)) \<and>
        UpdateIMDInfo (wUUID (ws ! w)) names ms = Done ms1)"

text \<open>A call in which the worker dies before its report: its own files may be left in any state.\<close>

definition map_dies :: "Worker list \<Rightarrow> nat \<Rightarrow> host \<Rightarrow> host \<Rightarrow> bool" where
  "map_dies ws w h h1 \<longleftrightarrow> h1 = h\<lparr>disk := disk h1\<rparr> \<and>
     (\<forall>p. (\<forall>t. p \<noteq> imd_path h (storeInRAM (ws ! w)) (wUUID (ws ! w)) t) \<longrightarrow> disk h1 p = disk h p)"

text \<open>
  An execution of the phase. At the return of a call its effect has happened: an answered call is complete; a call
  that failed was lost with its worker, or it was complete and only its answer came too late. \<open>reps\<close> collects the
  task and the worker of every report, in the order in which they arrive at the master, \<open>lost\<close> the workers that
  died in a call.
\<close>

inductive recovery :: "mapf \<Rightarrow> Worker list \<Rightarrow> nat \<Rightarrow> dlabel list \<Rightarrow> dstate \<Rightarrow> host \<Rightarrow> Master \<Rightarrow> (nat \<times> nat) list \<Rightarrow> nat list \<Rightarrow>
    dstate \<Rightarrow> host \<Rightarrow> Master \<Rightarrow> bool"
  for f ws n where
  rest: "recovery f ws n [] s h ms [] [] s h ms"
| quiet: "(\<And>i ok. l \<noteq> DReturn i ok) \<Longrightarrow> distributeMapTask_step n l s = Some s1 \<Longrightarrow>
    recovery f ws n ls s1 h ms reps lost s2 h2 ms2 \<Longrightarrow> recovery f ws n (l # ls) s h ms reps lost s2 h2 ms2"
| answered: "distributeMapTask_step n (DReturn i True) s = Some s1 \<Longrightarrow>
    map_effect f ws (rTask (dRuns s ! i)) (rWorker (dRuns s ! i)) h ms h1 ms1 \<Longrightarrow>
    recovery f ws n ls s1 h1 ms1 reps lost s2 h2 ms2 \<Longrightarrow>
    recovery f ws n (DReturn i True # ls) s h ms ((rTask (dRuns s ! i), rWorker (dRuns s ! i)) # reps) lost s2 h2 ms2"
| dies: "distributeMapTask_step n (DReturn i False) s = Some s1 \<Longrightarrow>
    map_dies ws (rWorker (dRuns s ! i)) h h1 \<Longrightarrow> recovery f ws n ls s1 h1 ms reps lost s2 h2 ms2 \<Longrightarrow>
    recovery f ws n (DReturn i False # ls) s h ms reps (rWorker (dRuns s ! i) # lost) s2 h2 ms2"
| late: "distributeMapTask_step n (DReturn i False) s = Some s1 \<Longrightarrow>
    map_effect f ws (rTask (dRuns s ! i)) (rWorker (dRuns s ! i)) h ms h1 ms1 \<Longrightarrow>
    recovery f ws n ls s1 h1 ms1 reps lost s2 h2 ms2 \<Longrightarrow>
    recovery f ws n (DReturn i False # ls) s h ms ((rTask (dRuns s ! i), rWorker (dRuns s ! i)) # reps) lost s2 h2 ms2"

lemma recovery_exec: "recovery f ws n ls s h ms reps lost s2 h2 ms2 \<Longrightarrow> exec (distributeMapTask_step n) ls s = Some s2"
  by (induction rule: recovery.induct) simp_all

text \<open>
  A job with such a phase. The reduce tasks go to the idle workers that the master finds after the phase, and
  succeed; workers that died no longer answer.
\<close>

definition answering :: "addr list \<Rightarrow> nat list \<Rightarrow> addr list" where
  "answering ips lost = map (\<lambda>w. ips ! w) (filter (\<lambda>w. w \<notin> set lost) [0..<length ips])"

inductive recovered_job ::
  "(KV list \<Rightarrow> KV list) \<Rightarrow> mapf \<Rightarrow> reducef \<Rightarrow> uuid list \<Rightarrow> addr list \<Rightarrow> nat \<Rightarrow> nat \<Rightarrow> bool \<Rightarrow> path list \<Rightarrow> host \<Rightarrow>
   (nat \<times> nat) list \<Rightarrow> nat list \<Rightarrow> nat list \<Rightarrow> host \<Rightarrow> bool"
  for srt f g us ips n R inRAM files h where
  "distributeWork (disk h) tus files (asked_master us ips rus n R) = Done ms1 \<Longrightarrow>
   availableWorkers fuel (\<lambda>_ vs. vs) 0 (totalWorkers ms1) (Workers ms1) [] = Some (picks, table) \<Longrightarrow>
   recovery f (job_workers us R inRAM) (length (MapTasks ms1)) ls (d_init (length (MapTasks ms1)) picks table) h ms1 reps lost s2 h2 ms2 \<Longrightarrow>
   dMain s2 = MLeft \<Longrightarrow>
   availableWorkers fuel' (\<lambda>_ vs. vs) 0 (int R) (dTable s2) [] = Some (rpicks, table') \<Longrightarrow>
   distinct rorder \<Longrightarrow> set rorder = {0..<R} \<Longrightarrow>
   reduce_calls srt g (answering ips lost) (map (\<lambda>w. job_workers us R inRAM ! w) rpicks) ms2 rorder h2 = Done h3 \<Longrightarrow>
   recovered_job srt f g us ips n R inRAM files h reps lost rpicks h3"

text \<open>The task whose pairs the files of worker \<open>w\<close> hold in the end.\<close>

definition last_task :: "(nat \<times> nat) list \<Rightarrow> nat \<Rightarrow> nat" where
  "last_task reps w = fst (last (filter (\<lambda>c. snd c = w) reps))"

subsection \<open>The state of the shuffle\<close>

definition tasks_ready :: "mapf \<Rightarrow> uuid list \<Rightarrow> addr list \<Rightarrow> nat \<Rightarrow> bool \<Rightarrow> (nat \<Rightarrow> KV list list) \<Rightarrow> nat \<Rightarrow> host \<Rightarrow> Master \<Rightarrow> bool" where
  "tasks_ready f us ips R inRAM es n h ms \<longleftrightarrow>
     length (ReduceTasks ms) = R \<and> (\<forall>u t. writable h (imd_path h inRAM u t)) \<and>
     (\<forall>w < length us. serviceDiscovey ms (us ! w) = ips ! w) \<and>
     (\<forall>k < n. map_feeds f (disk h) (map_toRPC (MapTasks ms ! k)) = Done (es k) \<and> map_toRPC (MapTasks ms ! k) \<noteq> [] \<and>
        (\<forall>fi \<in> set (map_toRPC (MapTasks ms ! k)). \<forall>u t. FileName fi \<noteq> imd_path h inRAM u t))"

text \<open>
  After the reports \<open>done\<close>, with the workers \<open>D\<close> dead: the table lists the files of every report, and the files of a worker
  that is not dead hold the buckets of its last task.
\<close>

definition shuffle_inv :: "mapf \<Rightarrow> uuid list \<Rightarrow> addr list \<Rightarrow> nat \<Rightarrow> bool \<Rightarrow> (nat \<Rightarrow> KV list list) \<Rightarrow> nat \<Rightarrow> host \<Rightarrow>
    (nat \<times> nat) list \<Rightarrow> nat set \<Rightarrow> host \<Rightarrow> Master \<Rightarrow> bool" where
  "shuffle_inv f us ips R inRAM es n h0 reps D h ms \<longleftrightarrow>
     tasks_ready f us ips R inRAM es n h ms \<and> h = h0\<lparr>disk := disk h\<rparr> \<and>
     (\<forall>p. (\<forall>u t. p \<noteq> imd_path h0 inRAM u t) \<longrightarrow> disk h p = disk h0 p) \<and>
     (\<forall>t < R. IMDs (ReduceTasks ms ! t) = map (\<lambda>c. imd_entry h0 inRAM us ips t (snd c)) reps) \<and>
     (\<forall>c \<in> set reps. fst c < n \<and> snd c < length us) \<and>
     (\<forall>w \<in> snd ` set reps - D. \<exists>imd. buckets_ok R (es (last_task reps w)) imd \<and> written h0 inRAM us R w imd h)"

lemma last_task_snoc: "last_task (reps @ [(k, w)]) v = (if v = w then k else last_task reps v)"
  by (simp add: last_task_def)

lemma tasks_ready_next:
  assumes rdy: "tasks_ready f us ips R inRAM es n h ms"
    and h1: "h1 = h\<lparr>disk := disk h1\<rparr>" and off: "\<forall>p. (\<forall>u t. p \<noteq> imd_path h inRAM u t) \<longrightarrow> disk h1 p = disk h p"
    and ms1: "ms1 = ms\<lparr>ReduceTasks := rts\<rparr>" "length rts = R"
  shows "tasks_ready f us ips R inRAM es n h1 ms1"
proof -
  have path: "imd_path h1 inRAM u t = imd_path h inRAM u t" for u t by (subst h1) simp
  have wr: "writable h1 = writable h" by (subst h1) simp
  have "map_feeds f (disk h1) (map_toRPC (MapTasks ms ! k)) = map_feeds f (disk h) (map_toRPC (MapTasks ms ! k))"
    if "k < n" for k
    using rdy off that by (intro map_feeds_cong) (auto simp: tasks_ready_def)
  then show ?thesis using rdy by (auto simp: tasks_ready_def path wr ms1 serviceDiscovey_def)
qed

text \<open>The files of different workers do not meet.\<close>

lemma imd_path_workers:
  assumes "distinct us" "\<forall>u \<in> set us. length u = length (hd us)" "v < length us" "w < length us"
    and "imd_path h inRAM (us ! v) s = imd_path h inRAM (us ! w) t"
  shows "v = w"
proof -
  have "length (us ! v) = length (us ! w)" using assms(2-4) by simp
  from imd_path_uuid_inj [OF this assms(5)] show ?thesis using assms(1,3,4) by (simp add: nth_eq_iff_index_eq)
qed

lemma shuffle_inv_effect:
  assumes inv: "shuffle_inv f us ips R inRAM es n h0 reps D h ms"
    and us: "distinct us" "\<forall>u \<in> set us. length u = length (hd us)" and R: "0 < R" and kw: "k < n" "w < length us"
    and eff: "map_effect f (job_workers us R inRAM) k w h ms h1 ms1"
  shows "shuffle_inv f us ips R inRAM es n h0 (reps @ [(k, w)]) D h1 ms1"
proof -
  note sel = job_worker_sel [OF kw(2)]
  have rdy: "tasks_ready f us ips R inRAM es n h ms" and h: "h = h0\<lparr>disk := disk h\<rparr>"
    and off: "\<forall>p. (\<forall>u t. p \<noteq> imd_path h0 inRAM u t) \<longrightarrow> disk h p = disk h0 p"
    and imds: "\<forall>t < R. IMDs (ReduceTasks ms ! t) = map (\<lambda>c. imd_entry h0 inRAM us ips t (snd c)) reps"
    and reps: "\<forall>c \<in> set reps. fst c < n \<and> snd c < length us"
    and files: "\<forall>v \<in> snd ` set reps - D. \<exists>imd. buckets_ok R (es (last_task reps v)) imd \<and> written h0 inRAM us R v imd h"
    using inv by (simp_all add: shuffle_inv_def)
  have path: "imd_path h inRAM u t = imd_path h0 inRAM u t" for u t by (subst h) simp
  have wr: "\<forall>t < R. writable h (imd_path h inRAM (us ! w) t)" and len: "length (ReduceTasks ms) = R"
    and sd: "serviceDiscovey ms (us ! w) = ips ! w" using rdy kw by (simp_all add: tasks_ready_def)
  obtain wk names where run: "Worker_Map f True h (job_workers us R inRAM ! w) (map_toRPC (MapTasks ms ! k)) (Done (wk, h1, names))"
    and up: "UpdateIMDInfo (us ! w) names ms = Done ms1" using eff by (auto simp: map_effect_def sel)
  obtain imd where imd: "length imd = R" "names = map (imd_path h0 inRAM (us ! w)) [0..<R]"
    "\<forall>t < R. disk h1 (imd_path h0 inRAM (us ! w) t) = Some (encodeIMDKVs (imd ! t))"
    "\<forall>t < R. mset (imd ! t) = filter_mset (\<lambda>kv. reducer_index R (Key kv) = t) (mset (concat (es k)))"
    and off1: "\<forall>p. (\<forall>t. p \<noteq> imd_path h0 inRAM (us ! w) t) \<longrightarrow> disk h1 p = disk h p" and h1: "h1 = h\<lparr>disk := disk h1\<rparr>"
    using Worker_Map_buckets [OF run, of R] R wr rdy kw(1) by (auto simp: sel tasks_ready_def path)
  obtain rts where ms1: "ms1 = ms\<lparr>ReduceTasks := rts\<rparr>" "length rts = R"
    and rts: "\<forall>t < R. IMDs (rts ! t) = IMDs (ReduceTasks ms ! t) @ [imd_entry h0 inRAM us ips t w]"
    using UpdateIMDInfo_eq [of names ms "us ! w"] up len imd(2) sd by (force simp: imd_entry_def)
  have "tasks_ready f us ips R inRAM es n h1 ms1"
    by (rule tasks_ready_next [OF rdy h1 _ ms1]) (use off1 path in auto)
  moreover have "h1 = h0\<lparr>disk := disk h1\<rparr>" using h h1 by (metis host.surjective host.update_convs(1))
  moreover have "\<exists>imd. buckets_ok R (es (last_task (reps @ [(k, w)]) v)) imd \<and> written h0 inRAM us R v imd h1"
    if v: "v \<in> snd ` set (reps @ [(k, w)]) - D" for v
  proof (cases "v = w")
    case True
    then show ?thesis using imd by (intro exI [of _ imd]) (simp add: last_task_snoc buckets_ok_def written_def)
  next
    case False
    then obtain imd' where "buckets_ok R (es (last_task reps v)) imd'" "written h0 inRAM us R v imd' h" using files v by auto
    moreover have "v < length us" using v False reps by auto
    then have "disk h1 (imd_path h0 inRAM (us ! v) t) = disk h (imd_path h0 inRAM (us ! v) t)" for t
      using off1 imd_path_workers [OF us _ kw(2), of v h0 inRAM t] False by blast
    ultimately show ?thesis using False by (intro exI [of _ imd']) (simp add: last_task_snoc written_def)
  qed
  ultimately show ?thesis using off off1 imds rts reps kw
    by (simp add: shuffle_inv_def ms1)
qed

lemma shuffle_inv_dies:
  assumes inv: "shuffle_inv f us ips R inRAM es n h0 reps D h ms"
    and us: "distinct us" "\<forall>u \<in> set us. length u = length (hd us)" and w: "w < length us"
    and die: "map_dies (job_workers us R inRAM) w h h1"
  shows "shuffle_inv f us ips R inRAM es n h0 reps (insert w D) h1 ms"
proof -
  note sel = job_worker_sel [OF w]
  have h: "h = h0\<lparr>disk := disk h\<rparr>" and rdy: "tasks_ready f us ips R inRAM es n h ms"
    and reps: "\<forall>c \<in> set reps. fst c < n \<and> snd c < length us"
    and files: "\<forall>v \<in> snd ` set reps - D. \<exists>imd. buckets_ok R (es (last_task reps v)) imd \<and> written h0 inRAM us R v imd h"
    using inv by (simp_all add: shuffle_inv_def)
  have path: "imd_path h inRAM u t = imd_path h0 inRAM u t" for u t by (subst h) simp
  have h1: "h1 = h\<lparr>disk := disk h1\<rparr>" and off1: "\<forall>p. (\<forall>t. p \<noteq> imd_path h0 inRAM (us ! w) t) \<longrightarrow> disk h1 p = disk h p"
    using die by (simp_all add: map_dies_def sel path)
  have "tasks_ready f us ips R inRAM es n h1 ms"
    by (rule tasks_ready_next [OF rdy h1, where rts = "ReduceTasks ms"]) (use off1 path rdy in \<open>auto simp: tasks_ready_def\<close>)
  moreover have "h1 = h0\<lparr>disk := disk h1\<rparr>" using h h1 by (metis host.surjective host.update_convs(1))
  moreover have "\<exists>imd. buckets_ok R (es (last_task reps v)) imd \<and> written h0 inRAM us R v imd h1"
    if v: "v \<in> snd ` set reps - insert w D" for v
  proof -
    obtain imd where "buckets_ok R (es (last_task reps v)) imd" "written h0 inRAM us R v imd h" using files v by auto
    moreover have "v < length us" using v reps by auto
    then have "disk h1 (imd_path h0 inRAM (us ! v) t) = disk h (imd_path h0 inRAM (us ! v) t)" for t
      using off1 imd_path_workers [OF us _ w, of v h0 inRAM t] v by blast
    ultimately show ?thesis by (intro exI [of _ imd]) (simp add: written_def)
  qed
  ultimately show ?thesis using inv off1 by (simp add: shuffle_inv_def)
qed

subsection \<open>The runs of the dispatcher\<close>

lemma step_table: "distributeMapTask_step n l s = Some s' \<Longrightarrow> length (dTable s') = length (dTable s)"
  by (cases l) (auto simp: Let_def split: if_splits option.splits or_state.splits main_state.splits list.splits)

text \<open>A call that returns belongs to a task of the phase and to a worker of the table.\<close>

lemma returning_run:
  assumes inv: "d_inv n s" and st: "distributeMapTask_step n (DReturn i ok) s = Some s'"
  shows "rTask (dRuns s ! i) < n" "rWorker (dRuns s ! i) < length (dTable s)"
proof -
  have i: "i < length (dRuns s)" and ph: "rPhase (dRuns s ! i) = Calling" using st by (auto split: if_splits)
  show "rWorker (dRuns s ! i) < length (dTable s)" using d_invD(2) [OF inv nth_mem [OF i]] by (simp add: run_ok_def)
  have "0 < rsum (holds (rTask (dRuns s ! i))) s"
    using sum_list_nat_nth [OF i, of "holds (rTask (dRuns s ! i))"] ph by (simp add: holds_def)
  then show "rTask (dRuns s ! i) < n"
    using d_invD(5) [OF inv, of "rTask (dRuns s ! i)"] by (auto simp: task_ok_def split: if_splits)
qed

definition completed :: "dstate \<Rightarrow> (nat \<times> nat) list" where
  "completed s = map (\<lambda>r. (rTask r, rWorker r)) (filter (\<lambda>r. rPhase r = SendFinish \<or> rPhase r = Finished) (dRuns s))"

lemma mset_filter_update:
  "i < length xs \<Longrightarrow> mset (map f (filter P (xs[i := v]))) + (if P (xs ! i) then {#f (xs ! i)#} else {#}) =
     mset (map f (filter P xs)) + (if P v then {#f v#} else {#})"
proof (induction xs arbitrary: i)
  case (Cons x xs)
  show ?case
  proof (cases i)
    case (Suc j)
    then have "j < length xs" using Cons.prems by simp
    from Cons.IH [OF this] show ?thesis by (simp add: Suc split: if_splits)
  qed simp
qed simp

lemma completed_set_run:
  assumes "i < length (dRuns s)"
  shows "mset (completed (set_run i p s)) +
      (if rPhase (dRuns s ! i) = SendFinish \<or> rPhase (dRuns s ! i) = Finished then {#(rTask (dRuns s ! i), rWorker (dRuns s ! i))#} else {#}) =
    mset (completed s) + (if p = SendFinish \<or> p = Finished then {#(rTask (dRuns s ! i), rWorker (dRuns s ! i))#} else {#})"
  using mset_filter_update [OF assms, of "\<lambda>r. (rTask r, rWorker r)" "\<lambda>r. rPhase r = SendFinish \<or> rPhase r = Finished"
    "(dRuns s ! i)\<lparr>rPhase := p\<rparr>"] by (simp add: completed_def)

lemma completed_cong: "dRuns s = dRuns s' \<Longrightarrow> completed s = completed s'"
  by (simp add: completed_def)

lemma completed_step:
  assumes "distributeMapTask_step n l s = Some s'"
  shows "mset (completed s') = mset (completed s) +
    (case l of DReturn i True \<Rightarrow> {#(rTask (dRuns s ! i), rWorker (dRuns s ! i))#} | _ \<Rightarrow> {#})"
proof (cases l)
  case (DStore i)
  let ?s = "s\<lparr>taskStates := (taskStates s)(uuid_at s (rWorker (dRuns s ! i)) \<mapsto> rTask (dRuns s ! i))\<rparr>"
  have i: "i < length (dRuns s)" "rPhase (dRuns s ! i) = Spawned" and s': "s' = set_run i Calling ?s"
    using assms DStore by (auto split: if_splits)
  have "completed ?s = completed s" by (rule completed_cong) simp
  then show ?thesis using completed_set_run [of i ?s Calling] i DStore by (simp add: s')
next
  case (DReturn i ok)
  let ?s = "\<lambda>st. set_mark (rWorker (dRuns s ! i)) st s"
  have i: "i < length (dRuns s)" "rPhase (dRuns s ! i) = Calling"
    and s': "s' = (if ok then set_run i SendFinish (?s WORKER_IDLE) else set_run i SendCrash (?s WORKER_UNKNOWN))"
    using assms DReturn by (auto split: if_splits)
  have "completed (?s st) = completed s" for st by (rule completed_cong) simp
  then show ?thesis
    using completed_set_run [of i "?s WORKER_IDLE" SendFinish] completed_set_run [of i "?s WORKER_UNKNOWN" SendCrash] i DReturn
    by (cases ok) (simp_all add: s')
next
  case (DSend i)
  let ?u = "uuid_at s (rWorker (dRuns s ! i))"
  have i: "i < length (dRuns s)" using assms DSend by (auto split: if_splits)
  consider (closed) "s' = s\<lparr>dPanic := Some SendOnClosedChannel\<rparr>"
    | (fin) "rPhase (dRuns s ! i) = SendFinish" "s' = set_run i Finished (s\<lparr>finish := finish s @ [?u]\<rparr>)"
    | (crash) "rPhase (dRuns s ! i) = SendCrash" "s' = set_run i Crashed (s\<lparr>crashChan := crashChan s @ [?u]\<rparr>)"
    using assms DSend by (auto split: if_splits)
  then show ?thesis
  proof cases
    case closed
    then show ?thesis using DSend completed_cong [of s' s] by simp
  next
    case fin
    have "completed (s\<lparr>finish := finish s @ [?u]\<rparr>) = completed s" by (rule completed_cong) simp
    then show ?thesis using completed_set_run [of i "s\<lparr>finish := finish s @ [?u]\<rparr>" Finished] i DSend fin by simp
  next
    case crash
    have "completed (s\<lparr>crashChan := crashChan s @ [?u]\<rparr>) = completed s" by (rule completed_cong) simp
    then show ?thesis using completed_set_run [of i "s\<lparr>crashChan := crashChan s @ [?u]\<rparr>" Crashed] i DSend crash by simp
  qed
qed (use assms in \<open>auto simp: completed_def Let_def split: if_splits option.splits or_state.splits main_state.splits list.splits\<close>)

lemma recovery_shuffle:
  assumes "recovery f (job_workers us R inRAM) n ls s h ms reps lost s2 h2 ms2"
    and us: "distinct us" "\<forall>u \<in> set us. length u = length (hd us)" and R: "0 < R"
    and "d_inv n s" "length (dTable s) = length us" "shuffle_inv f us ips R inRAM es n h0 done D h ms"
  shows "shuffle_inv f us ips R inRAM es n h0 (done @ reps) (D \<union> set lost) h2 ms2 \<and> set lost \<subseteq> {0..<length us} \<and>
    length (dTable s2) = length us"
  using assms(1,5-7)
proof (induction arbitrary: "done" D rule: recovery.induct)
  case (quiet l s s1 ls h ms reps lost s2 h2 ms2)
  from quiet.IH [OF dm.inv_step [OF quiet.prems(1) quiet.hyps(2)] _ quiet.prems(3)] quiet.prems(2) show ?case
    by (simp add: step_table [OF quiet.hyps(2)])
next
  case (answered i s s1 h ms h1 ms1 ls reps lost s2 h2 ms2)
  note call = returning_run [OF answered.prems(1) answered.hyps(1)]
  have "shuffle_inv f us ips R inRAM es n h0 (done @ [(rTask (dRuns s ! i), rWorker (dRuns s ! i))]) D h1 ms1"
    using call answered.prems(2) by (intro shuffle_inv_effect [OF answered.prems(3) us R _ _ answered.hyps(2)]) simp_all
  from answered.IH [OF dm.inv_step [OF answered.prems(1) answered.hyps(1)] _ this] answered.prems(2) show ?case
    by (simp add: step_table [OF answered.hyps(1)])
next
  case (dies i s s1 h h1 ls ms reps lost s2 h2 ms2)
  note call = returning_run [OF dies.prems(1) dies.hyps(1)]
  have "shuffle_inv f us ips R inRAM es n h0 done (insert (rWorker (dRuns s ! i)) D) h1 ms"
    using call dies.prems(2) by (intro shuffle_inv_dies [OF dies.prems(3) us _ dies.hyps(2)]) simp
  from dies.IH [OF dm.inv_step [OF dies.prems(1) dies.hyps(1)] _ this] dies.prems(2) call show ?case
    by (simp add: step_table [OF dies.hyps(1)])
next
  case (late i s s1 h ms h1 ms1 ls reps lost s2 h2 ms2)
  note call = returning_run [OF late.prems(1) late.hyps(1)]
  have "shuffle_inv f us ips R inRAM es n h0 (done @ [(rTask (dRuns s ! i), rWorker (dRuns s ! i))]) D h1 ms1"
    using call late.prems(2) by (intro shuffle_inv_effect [OF late.prems(3) us R _ _ late.hyps(2)]) simp_all
  from late.IH [OF dm.inv_step [OF late.prems(1) late.hyps(1)] _ this] late.prems(2) show ?case
    by (simp add: step_table [OF late.hyps(1)])
qed simp

subsection \<open>The reports of the completed tasks\<close>

lemma recovery_reports:
  "recovery f ws n ls s h ms reps lost s2 h2 ms2 \<Longrightarrow> mset (completed s2) \<subseteq># mset (completed s) + mset reps"
proof (induction rule: recovery.induct)
  case (quiet l s s1 ls h ms reps lost s2 h2 ms2)
  then have "mset (completed s1) = mset (completed s)"
    using completed_step [OF quiet.hyps(2)] by (cases l) auto
  with quiet.IH show ?case by simp
next
  case (answered i s s1 h ms h1 ms1 ls reps lost s2 h2 ms2)
  then show ?case using completed_step [OF answered.hyps(1)] by simp
next
  case (dies i s s1 h h1 ls ms reps lost s2 h2 ms2)
  then show ?case using completed_step [OF dies.hyps(1)] by simp
next
  case (late i s s1 h ms h1 ms1 ls reps lost s2 h2 ms2)
  then have "mset (completed s2) \<subseteq># mset (completed s) + mset reps" using completed_step [OF late.hyps(1)] by simp
  then show ?case by (simp add: subset_mset.order_trans)
qed simp

lemma count_map_filter: "Multiset.count (mset (map f (filter P xs))) t = length (filter (\<lambda>x. f x = t \<and> P x) xs)"
  by (induction xs) auto

text \<open>When the phase is left, each task has been completed by one call.\<close>

lemma completed_left:
  assumes inv: "d_inv n s" and left: "dMain s = MLeft"
  shows "mset (map fst (completed s)) = mset [0..<n]"
proof -
  note e = all_ended [OF inv left_all_ended [OF inv left]]
  have c: "completed s = map (\<lambda>r. (rTask r, rWorker r)) (filter (\<lambda>r. rPhase r = Finished) (dRuns s))"
    unfolding completed_def using e(2) by (fastforce intro!: arg_cong [where f = "map _"] filter_cong)
  have "Multiset.count (mset (map fst (completed s))) t = Multiset.count (mset [0..<n]) t" for t
  proof -
    have cnt: "Multiset.count (mset (map fst (completed s))) t = completions s t"
      unfolding c map_map comp_def fst_conv by (rule count_map_filter)
    have upt: "Multiset.count (mset [0..<n]) t = (if t < n then 1 else 0)"
      using distinct_count_atmost_1 [of "[0..<n]"] by simp
    show ?thesis
    proof (cases "t < n")
      case True
      then show ?thesis using cnt upt e(3) by simp
    next
      case False
      then have "rsum (holds t) s = 0" using d_invD(5) [OF inv, of t] by (simp add: task_ok_def)
      then have "holds t r = 0" if "r \<in> set (dRuns s)" for r using that by (simp only: sum_list_eq_0_iff set_map ball_simps)
      then have "\<not> (rTask r = t \<and> rPhase r = Finished)" if "r \<in> set (dRuns s)" for r using that by (force simp: holds_def)
      then have "filter (\<lambda>r. rTask r = t \<and> rPhase r = Finished) (dRuns s) = []" by (auto simp: filter_empty_conv)
      then show ?thesis using cnt upt False by simp
    qed
  qed
  then show ?thesis by (rule multiset_eqI)
qed

subsection \<open>The start and the end of the phase\<close>

lemma availableWorkers_alone:
  assumes "availableWorkers fuel (\<lambda>_ vs. vs) k num ws [] = Some (ps, ws')" "ws \<noteq> []"
  shows "ps = take (nat num) (idle_idx ws (length ws))" "ws' = mark_busy ps ws" "nat num \<le> length (idle_idx ws (length ws))"
proof -
  show enough: "nat num \<le> length (idle_idx ws (length ws))"
  proof (rule ccontr)
    assume "\<not> nat num \<le> length (idle_idx ws (length ws))"
    then have "int (length [] + length (idle_idx ws (length ws))) < num" by simp
    from availableWorkers_starved [OF this, of "\<lambda>_ vs. vs" fuel k] show False using assms(1) by simp
  qed
  have "ps = take (nat num) (idle_idx ws (length ws)) \<and> ws' = mark_busy ps ws"
  proof (cases "2 \<le> fuel")
    case True
    from availableWorkers_enough [OF assms(2) enough, of "\<lambda>_ vs. vs" fuel k] True assms(1) show ?thesis by auto
  next
    case False
    then have "fuel = 0 \<or> fuel = Suc 0" by auto
    then show ?thesis using assms(1) by (auto simp: Let_def scan_pass_eq split: if_splits)
  qed
  then show "ps = take (nat num) (idle_idx ws (length ws))" "ws' = mark_busy ps ws" by simp_all
qed

lemma idle_idx_facts: "distinct (idle_idx ws m)" "set (idle_idx ws m) \<subseteq> {0..<m}"
  by (auto simp: idle_idx_def)

lemma asked_master_facts:
  assumes "distinct us" "length ips = length us"
  shows "totalWorkers (asked_master us ips rus n R) = int n"
    "ReduceTasks (asked_master us ips rus n R) = newReduceTasks rus (int R)"
    "Workers (asked_master us ips rus n R) = map (\<lambda>(u, ip). newWorkerInfo u ip) (zip us ips)"
    "\<And>w. w < length us \<Longrightarrow> serviceDiscovey (asked_master us ips rus n R) (us ! w) = ips ! w"
proof -
  have am: "asked_master us ips rus n R = (NewMaster rus (int n) (int R))
      \<lparr>Workers := map (\<lambda>(u, ip). newWorkerInfo u ip) (zip us ips), numWorkers := int (length (zip us ips))\<rparr>" for n
    using register_all_result [OF registry_ok_NewMaster, of "zip us ips" rus "int n" "int R"]
    by (simp add: asked_master_def NewMaster_def)
  show "totalWorkers (asked_master us ips rus n R) = int n"
    "ReduceTasks (asked_master us ips rus n R) = newReduceTasks rus (int R)"
    "Workers (asked_master us ips rus n R) = map (\<lambda>(u, ip). newWorkerInfo u ip) (zip us ips)"
    by (simp_all add: am NewMaster_def)
  have "serviceDiscovey (asked_master us ips rus n R) u = serviceDiscovey (job_master us ips rus R) u" for u
    by (simp add: am asked_master_def [of us ips rus "length us", folded job_master_def] serviceDiscovey_def
      am [of "length us", unfolded asked_master_def, folded job_master_def])
  then show "serviceDiscovey (asked_master us ips rus n R) (us ! w) = ips ! w" if "w < length us" for w
    using job_master_facts(3) [OF assms that] by simp
qed

lemma phase_start:
  assumes su: "job_setup us ips R inRAM files h" and n: "0 < n" "n \<le> length us"
    and dw: "distributeWork (disk h) tus files (asked_master us ips rus n R) = Done ms1"
  shows "length (MapTasks ms1) = n" "totalWorkers ms1 = int n" "Workers ms1 \<noteq> []"
    "idle_idx (Workers ms1) (length (Workers ms1)) = [0..<length us]"
    "d_start n [0..<n] (mark_busy [0..<n] (Workers ms1))" "length (Workers ms1) = length us"
    "shuffle_inv (\<lambda>fn c. Done (m fn c)) us ips R inRAM (task_pairs m (disk h) files n) n h [] {} h ms1"
proof -
  have us: "distinct us" "length ips = length us" and files: "files \<noteq> []"
    "\<forall>p \<in> set files. (\<exists>c. disk h p = Some c \<and> int (length c) \<le> max_alloc) \<and> (\<forall>u t. p \<noteq> imd_path h inRAM u t)"
    and wr: "\<forall>u t. writable h (imd_path h inRAM u t)"
    using su by (auto simp: job_setup_def)
  note am = asked_master_facts [OF us, where rus = rus and n = n and R = R]
  obtain mts where ms1: "ms1 = (asked_master us ips rus n R)\<lparr>MapTasks := mts\<rparr>" "length mts = n"
    and ok: "\<forall>i < n. map_feeds (\<lambda>fn c. Done (m fn c)) (disk h) (map_toRPC (mts ! i)) = Done (task_pairs m (disk h) files n i) \<and>
      map_toRPC (mts ! i) \<noteq> [] \<and> (\<forall>fi \<in> set (map_toRPC (mts ! i)). \<forall>u t. FileName fi \<noteq> imd_path h inRAM u t)"
    using distributed_tasks [OF am(1) n(1) files dw, of m] by blast
  let ?ws = "map (\<lambda>(u, ip). newWorkerInfo u ip) (zip us ips)"
  have ws: "Workers ms1 = ?ws" by (simp add: ms1 am(3))
  have idle: "Health x" if "x \<in> set ?ws" for x using that by (auto simp: newWorkerInfo_def Health_def)
  have "map wiUUID ?ws = us" using us(2) by (intro nth_equalityI) (auto simp: newWorkerInfo_def)
  then have "d_start n [0..<n] (mark_busy [0..<n] ?ws)" using us n idle by (intro d_start_found) auto
  then show "d_start n [0..<n] (mark_busy [0..<n] (Workers ms1))" by (simp only: ws)
  show "idle_idx (Workers ms1) (length (Workers ms1)) = [0..<length us]"
    using idle_idx_all [of ?ws, OF idle] us(2) by (simp add: ws)
  show "length (MapTasks ms1) = n" "totalWorkers ms1 = int n" "Workers ms1 \<noteq> []" "length (Workers ms1) = length us"
    using n us(2) by (auto simp: ms1 am)
  have "serviceDiscovey ms1 u = serviceDiscovey (asked_master us ips rus n R) u" for u by (simp add: ms1 serviceDiscovey_def)
  then show "shuffle_inv (\<lambda>fn c. Done (m fn c)) us ips R inRAM (task_pairs m (disk h) files n) n h [] {} h ms1"
    using ok wr am by (simp add: shuffle_inv_def tasks_ready_def ms1 newReduceTasks_def newReduceTask_def)
qed

subsection \<open>The output\<close>

text \<open>What the reducers receive: for every report, the pairs of the last task of the worker that made it.\<close>

definition recovered_pairs :: "(string \<Rightarrow> string \<Rightarrow> KV list) \<Rightarrow> fs \<Rightarrow> path list \<Rightarrow> nat \<Rightarrow> (nat \<times> nat) list \<Rightarrow> KV list" where
  "recovered_pairs m d files n reps = concat (map (\<lambda>c. concat (task_pairs m d files n (last_task reps (snd c)))) reps)"

lemma last_task_reported: "c \<in> set reps \<Longrightarrow> \<exists>c' \<in> set reps. snd c' = snd c \<and> last_task reps (snd c) = fst c'"
proof -
  assume "c \<in> set reps"
  then have "filter (\<lambda>c'. snd c' = snd c) reps \<noteq> []" by (auto simp: filter_empty_conv)
  then have "last (filter (\<lambda>c'. snd c' = snd c) reps) \<in> set (filter (\<lambda>c'. snd c' = snd c) reps)" by (rule last_in_set)
  then show ?thesis by (auto simp: last_task_def)
qed

lemma task_pairs_subset: "k < n \<Longrightarrow> set (concat (task_pairs m d files n k)) \<subseteq> set (all_pairs m d files n)"
  by (auto simp: all_pairs_def)

lemma recovered_reduce:
  assumes su: "job_setup us ips R inRAM files h" and g: "bag_reducer g" and srt: "key_sorter srt"
    and clean: "shuffle_clean (all_pairs m (disk h) files n)"
    and inv: "shuffle_inv (\<lambda>fn c. Done (m fn c)) us ips R inRAM (task_pairs m (disk h) files n) n h reps D h2 ms2"
    and alive: "snd ` set reps \<inter> D = {}" "\<forall>c \<in> set reps. ips ! snd c \<in> set live"
    and picks: "length rpicks = R" "distinct rpicks" "set rpicks \<subseteq> {0..<length us}"
    and rord: "distinct rorder" "set rorder = {0..<R}"
  shows "\<exists>h3. reduce_calls srt g live (map (\<lambda>w. job_workers us R inRAM ! w) rpicks) ms2 rorder h2 = Done h3 \<and>
    (\<forall>r < R. disk h3 (mr_out_path (int (rpicks ! r))) = Some (reduce_text g (bucket R r (recovered_pairs m (disk h) files n reps))))"
proof -
  let ?es = "task_pairs m (disk h) files n"
  have h2: "h2 = h\<lparr>disk := disk h2\<rparr>" and reps: "\<forall>c \<in> set reps. fst c < n \<and> snd c < length us"
    and imds: "\<forall>t < R. IMDs (ReduceTasks ms2 ! t) = map (imd_entry h inRAM us ips t) (map snd reps)"
    using inv by (simp_all add: shuffle_inv_def comp_def)
  have "\<forall>w \<in> snd ` set reps. \<exists>imd. buckets_ok R (?es (last_task reps w)) imd \<and> written h inRAM us R w imd h2"
    using inv alive(1) unfolding shuffle_inv_def by blast
  then obtain B where B: "\<forall>w \<in> snd ` set reps. buckets_ok R (?es (last_task reps w)) (B w) \<and> written h inRAM us R w (B w) h2"
    by (rule bchoice [elim_format]) blast
  have path: "imd_path h2 inRAM u t = imd_path h inRAM u t" for u t by (subst h2) simp
  have last: "last_task reps w < n" if "w \<in> snd ` set reps" for w using that last_task_reported [of _ reps] reps by force
  have ok: "imd_ok (B w ! t)" if "w \<in> snd ` set reps" "t < R" for w t
  proof -
    have "set (B w ! t) \<subseteq> set (concat (?es (last_task reps w)))" using buckets_subset B that by blast
    then show ?thesis using task_pairs_subset [OF last [OF that(1)], of m "disk h" files] by (intro shuffle_clean_ok [OF clean]) blast
  qed
  have bag: "mset (concat (map (\<lambda>w. B w ! t) (map snd reps))) = mset (bucket R t (recovered_pairs m (disk h) files n reps))" if "t < R" for t
    using buckets_concat [of "map snd reps" R "\<lambda>w. ?es (last_task reps w)" B t] that B
    by (simp add: recovered_pairs_def comp_def)
  have "\<exists>h3. reduce_calls srt g live (map (\<lambda>w. job_workers us R inRAM ! w) rpicks) ms2 rorder h2 = Done h3 \<and>
    (\<forall>r \<in> set rorder. disk h3 (mr_out_path (int (rpicks ! r))) = Some (reduce_text g (bucket R r (recovered_pairs m (disk h) files n reps)))) \<and>
    (\<forall>p. (\<forall>r \<in> set rorder. p \<noteq> mr_out_path (int (rpicks ! r))) \<longrightarrow> disk h3 p = disk h2 p)"
  proof (rule reduce_calls_result [where wid = "\<lambda>r. rpicks ! r", OF g srt])
    show "\<forall>r. writable h2 (mr_out_path r)" using su by (subst h2) (simp add: job_setup_def)
    show "\<forall>r \<in> set rorder. wID (map (\<lambda>w. job_workers us R inRAM ! w) rpicks ! r) = int (rpicks ! r)"
      using rord picks nth_mem [of _ rpicks] by (auto simp: job_worker_sel subset_iff)
    show "inj_on (\<lambda>r. rpicks ! r) (set rorder)" "distinct rorder"
      using rord picks by (auto simp: inj_on_def nth_eq_iff_index_eq)
    fix h' :: host and r
    assume r: "r \<in> set rorder" and eq: "\<forall>u t. disk h' (imd_path h2 inRAM u t) = disk h2 (imd_path h2 inRAM u t)"
    then have "gather_imd (\<lambda>ip. if ip \<in> set live then Some (disk h') else None) (reduce_toRPC (ReduceTasks ms2 ! r)) =
        Done (concat (map (\<lambda>w. B w ! r) (map snd reps)))"
      using gather_task [of "ReduceTasks ms2 ! r" h inRAM us ips r "map snd reps" R live B h'] imds rord B ok alive(2)
      by (auto simp: written_def path)
    then show "\<exists>kvs. gather_imd (\<lambda>ip. if ip \<in> set live then Some (disk h') else None)
        (reduce_toRPC (ReduceTasks ms2 ! r)) = Done kvs \<and> mset kvs = mset (bucket R r (recovered_pairs m (disk h) files n reps))"
      using bag r rord by auto
  qed
  then show ?thesis using rord by auto
qed

text \<open>The facts about a job with failing calls that its properties rest on.\<close>

lemma answering_alive:
  assumes "w < length ips" "w \<notin> set lost"
  shows "ips ! w \<in> set (answering ips lost)"
  using assms by (auto simp: answering_def)

lemma recovered_job_facts:
  assumes su: "job_setup us ips R inRAM files h" and n: "0 < n" "n \<le> length us" and g: "bag_reducer g" and srt: "key_sorter srt"
    and clean: "shuffle_clean (all_pairs m (disk h) files n)"
    and job: "recovered_job srt (\<lambda>fn c. Done (m fn c)) g us ips n R inRAM files h reps lost rpicks h3"
    and alive: "snd ` set reps \<inter> set lost = {}"
  shows "\<forall>r < R. disk h3 (mr_out_path (int (rpicks ! r))) = Some (reduce_text g (bucket R r (recovered_pairs m (disk h) files n reps)))"
    "length rpicks = R" "distinct rpicks" "set rpicks \<subseteq> {0..<length us}"
    "\<forall>c \<in> set reps. fst c < n \<and> snd c < length us" "set lost \<subseteq> {0..<length us}" "mset [0..<n] \<subseteq># mset (map fst reps)"
proof -
  from job obtain tus rus ms1 fuel picks table ls s2 h2 ms2 fuel' table' rorder where
    dw: "distributeWork (disk h) tus files (asked_master us ips rus n R) = Done ms1"
    and first: "availableWorkers fuel (\<lambda>_ vs. vs) 0 (totalWorkers ms1) (Workers ms1) [] = Some (picks, table)"
    and phase: "recovery (\<lambda>fn c. Done (m fn c)) (job_workers us R inRAM) (length (MapTasks ms1)) ls
      (d_init (length (MapTasks ms1)) picks table) h ms1 reps lost s2 h2 ms2" and left: "dMain s2 = MLeft"
    and second: "availableWorkers fuel' (\<lambda>_ vs. vs) 0 (int R) (dTable s2) [] = Some (rpicks, table')"
    and rord: "distinct rorder" "set rorder = {0..<R}"
    and red: "reduce_calls srt g (answering ips lost) (map (\<lambda>w. job_workers us R inRAM ! w) rpicks) ms2 rorder h2 = Done h3"
    by cases
  have us: "distinct us" "\<forall>u \<in> set us. length u = length (hd us)" "length ips = length us" and R: "0 < R"
    using su by (auto simp: job_setup_def)
  note st = phase_start(1-6) [OF su n dw] phase_start(7) [OF su n dw, of m]
  have picks: "picks = [0..<n]" "table = mark_busy [0..<n] (Workers ms1)"
    using availableWorkers_alone [OF first st(3)] st(2,4) n by simp_all
  have run: "recovery (\<lambda>fn c. Done (m fn c)) (job_workers us R inRAM) n ls (d_init n picks table) h ms1 reps lost s2 h2 ms2"
    using phase st(1) by simp
  have i0: "d_inv n (d_init n picks table)" using d_inv_init [OF st(5)] by (simp add: picks)
  have len: "length (dTable (d_init n picks table)) = length us" using st(6) by (simp add: d_init_def picks)
  note sh = recovery_shuffle [OF run us(1,2) R i0 len st(7)]
  have inv: "d_inv n s2" using dm.exec_inv [OF recovery_exec [OF run] i0] .
  have tab: "dTable s2 \<noteq> []" "length (dTable s2) = length us" using sh n by auto
  note rp = availableWorkers_alone [OF second tab(1)]
  show rpicks: "length rpicks = R" "distinct rpicks" "set rpicks \<subseteq> {0..<length us}"
    using rp idle_idx_facts [of "dTable s2" "length (dTable s2)"] tab(2) set_take_subset [of R "idle_idx (dTable s2) (length (dTable s2))"]
    by auto
  show reps: "\<forall>c \<in> set reps. fst c < n \<and> snd c < length us" using sh by (simp add: shuffle_inv_def)
  show "set lost \<subseteq> {0..<length us}" using sh by simp
  have "completed (d_init n picks table) = []" by (simp add: completed_def d_init_def)
  then have "mset (completed s2) \<subseteq># mset reps" using recovery_reports [OF run] by simp
  then have "mset (map fst (completed s2)) \<subseteq># mset (map fst reps)" by (simp add: image_mset_subseteq_mono)
  then show "mset [0..<n] \<subseteq># mset (map fst reps)" using completed_left [OF inv left] by simp
  have live: "\<forall>c \<in> set reps. ips ! snd c \<in> set (answering ips lost)"
  proof
    fix c assume c: "c \<in> set reps"
    then have "snd c \<notin> set lost" using alive by auto
    then show "ips ! snd c \<in> set (answering ips lost)" using c reps us(3) by (intro answering_alive) auto
  qed
  have "shuffle_inv (\<lambda>fn c. Done (m fn c)) us ips R inRAM (task_pairs m (disk h) files n) n h reps (set lost) h2 ms2" using sh by simp
  from recovered_reduce [OF su g srt clean this alive live rpicks rord] red
  show "\<forall>r < R. disk h3 (mr_out_path (int (rpicks ! r))) = Some (reduce_text g (bucket R r (recovered_pairs m (disk h) files n reps)))"
    by auto
qed

subsection \<open>Such jobs exist\<close>

text \<open>The reports and the deaths of an execution in which every failed call dies.\<close>

fun trace_calls :: "nat \<Rightarrow> dlabel list \<Rightarrow> dstate \<Rightarrow> (nat \<times> nat) list \<times> nat list" where
  "trace_calls n [] s = ([], [])"
| "trace_calls n (l # ls) s =
     (case distributeMapTask_step n l s of
        None \<Rightarrow> ([], [])
      | Some s1 \<Rightarrow>
          (let (reps, lost) = trace_calls n ls s1
           in case l of
                DReturn i True \<Rightarrow> ((rTask (dRuns s ! i), rWorker (dRuns s ! i)) # reps, lost)
              | DReturn i False \<Rightarrow> (reps, rWorker (dRuns s ! i) # lost)
              | _ \<Rightarrow> (reps, lost)))"

lemma map_effect_exists:
  assumes inv: "shuffle_inv f us ips R inRAM es n h0 reps D h ms" and R: "0 < R" and kw: "k < n" "w < length us"
  shows "\<exists>h1 ms1. map_effect f (job_workers us R inRAM) k w h ms h1 ms1"
proof -
  note sel = job_worker_sel [OF kw(2)]
  have rdy: "tasks_ready f us ips R inRAM es n h ms" using inv by (simp add: shuffle_inv_def)
  obtain wk h1 names where run: "Worker_Map f True h (job_workers us R inRAM ! w) (map_toRPC (MapTasks ms ! k)) (Done (wk, h1, names))"
    using Worker_Map_returns [of f h "map_toRPC (MapTasks ms ! k)" "es k" "job_workers us R inRAM ! w" R True] rdy R kw
    by (auto simp: tasks_ready_def sel)
  have "length names = R" using Worker_Map_buckets [OF run, of R] rdy R by (auto simp: tasks_ready_def sel)
  then obtain ms1 where "UpdateIMDInfo (us ! w) names ms = Done ms1"
    using UpdateIMDInfo_eq [of names ms "us ! w"] rdy by (auto simp: tasks_ready_def)
  with run show ?thesis by (auto simp: map_effect_def sel)
qed

lemma recovery_exists:
  assumes us: "distinct us" "\<forall>u \<in> set us. length u = length (hd us)" and R: "0 < R"
    and "exec (distributeMapTask_step n) ls s = Some s2" "d_inv n s" "length (dTable s) = length us"
    and "shuffle_inv f us ips R inRAM es n h0 done D h ms"
  shows "\<exists>h2 ms2. recovery f (job_workers us R inRAM) n ls s h ms (fst (trace_calls n ls s)) (snd (trace_calls n ls s)) s2 h2 ms2"
  using assms(4-7)
proof (induction ls arbitrary: s h ms "done" D)
  case Nil
  then show ?case using recovery.rest by fastforce
next
  case (Cons l ls)
  obtain s1 where st: "distributeMapTask_step n l s = Some s1" and ex: "exec (distributeMapTask_step n) ls s1 = Some s2"
    using Cons.prems(1) by (auto simp del: distributeMapTask_step.simps split: option.splits)
  have inv1: "d_inv n s1" and len1: "length (dTable s1) = length us"
    using dm.inv_step [OF Cons.prems(2) st] step_table [OF st] Cons.prems(3) by simp_all
  show ?case
  proof (cases "\<exists>i ok. l = DReturn i ok")
    case False
    from Cons.IH [OF ex inv1 len1 Cons.prems(4)] obtain h2 ms2 where
      "recovery f (job_workers us R inRAM) n ls s1 h ms (fst (trace_calls n ls s1)) (snd (trace_calls n ls s1)) s2 h2 ms2" by blast
    then have "recovery f (job_workers us R inRAM) n (l # ls) s h ms (fst (trace_calls n ls s1)) (snd (trace_calls n ls s1)) s2 h2 ms2"
      using st False by (intro recovery.quiet) auto
    moreover have "trace_calls n (l # ls) s = trace_calls n ls s1" using st False by (cases l) (auto simp del: distributeMapTask_step.simps)
    ultimately show ?thesis by auto
  next
    case True
    then obtain i ok where l: "l = DReturn i ok" by blast
    note call = returning_run [OF Cons.prems(2) st [unfolded l]]
    let ?k = "rTask (dRuns s ! i)" let ?w = "rWorker (dRuns s ! i)"
    have w: "?w < length us" using call Cons.prems(3) by simp
    show ?thesis
    proof (cases ok)
      case True
      obtain h1 ms1 where eff: "map_effect f (job_workers us R inRAM) ?k ?w h ms h1 ms1"
        using map_effect_exists [OF Cons.prems(4) R call(1) w] by blast
      from Cons.IH [OF ex inv1 len1 shuffle_inv_effect [OF Cons.prems(4) us R call(1) w eff]] obtain h2 ms2 where
        rest: "recovery f (job_workers us R inRAM) n ls s1 h1 ms1 (fst (trace_calls n ls s1)) (snd (trace_calls n ls s1)) s2 h2 ms2" by blast
      have ret: "distributeMapTask_step n (DReturn i True) s = Some s1" using st by (simp only: l True)
      show ?thesis using recovery.answered [OF ret eff rest] ret l True
        by (auto simp: split_beta simp del: distributeMapTask_step.simps)
    next
      case False
      have die: "map_dies (job_workers us R inRAM) ?w h h" by (simp add: map_dies_def)
      from Cons.IH [OF ex inv1 len1 shuffle_inv_dies [OF Cons.prems(4) us w die]] obtain h2 ms2 where
        rest: "recovery f (job_workers us R inRAM) n ls s1 h ms (fst (trace_calls n ls s1)) (snd (trace_calls n ls s1)) s2 h2 ms2" by blast
      have ret: "distributeMapTask_step n (DReturn i False) s = Some s1" using st False by (simp only: l)
      show ?thesis using recovery.dies [OF ret die rest] ret l False
        by (auto simp: split_beta simp del: distributeMapTask_step.simps)
    qed
  qed
qed

text \<open>The outputs that follow an execution of the phase that is left with enough idle workers.\<close>

lemma recovered_job_exists:
  assumes su: "job_setup us ips R inRAM files h" and n: "0 < n" "n \<le> length us" and g: "bag_reducer g" and srt: "key_sorter srt"
    and clean: "shuffle_clean (all_pairs m (disk h) files n)"
    and tbl: "table = mark_busy [0..<n] (map (\<lambda>(u, ip). newWorkerInfo u ip) (zip us ips))"
    and ex: "exec (distributeMapTask_step n) ls (d_init n [0..<n] table) = Some s2" "dMain s2 = MLeft"
    and calls: "trace_calls n ls (d_init n [0..<n] table) = (reps, lost)" "snd ` set reps \<inter> set lost = {}"
    and idle: "R \<le> length (idle_idx (dTable s2) (length us))"
  shows "\<exists>h3. recovered_job srt (\<lambda>fn c. Done (m fn c)) g us ips n R inRAM files h reps lost
    (take R (idle_idx (dTable s2) (length us))) h3"
proof -
  have us: "distinct us" "\<forall>u \<in> set us. length u = length (hd us)" "length ips = length us" and R: "0 < R"
    and files: "\<forall>p \<in> set files. disk h p \<noteq> None" using su by (auto simp: job_setup_def)
  note am = asked_master_facts [OF us(1,3), where rus = "\<lambda>_. []" and n = n and R = R]
  obtain ms1 where dw: "distributeWork (disk h) (\<lambda>_. []) files (asked_master us ips (\<lambda>_. []) n R) = Done ms1"
    and wk: "Workers ms1 = map (\<lambda>(u, ip). newWorkerInfo u ip) (zip us ips)"
    using distributeWork_Done [OF am(1) n(1) files, of "\<lambda>_. []"] am(3) by auto
  note st = phase_start(1-6) [OF su n dw] phase_start(7) [OF su n dw, of m]
  have tab: "table = mark_busy [0..<n] (Workers ms1)" by (simp add: tbl wk)
  have i0: "d_inv n (d_init n [0..<n] table)" using d_inv_init [OF st(5)] by (simp add: tab)
  have len: "length (dTable (d_init n [0..<n] table)) = length us" using st(6) by (simp add: d_init_def tab)
  obtain h2 ms2 where run: "recovery (\<lambda>fn c. Done (m fn c)) (job_workers us R inRAM) n ls (d_init n [0..<n] table) h ms1 reps lost s2 h2 ms2"
    using recovery_exists [OF us(1,2) R ex(1) i0 len st(7)] calls(1) by auto
  note sh = recovery_shuffle [OF run us(1,2) R i0 len st(7)]
  have tab2: "length (dTable s2) = length us" "dTable s2 \<noteq> []" using sh n by auto
  let ?rp = "take R (idle_idx (dTable s2) (length us))"
  obtain table' where second: "availableWorkers 2 (\<lambda>_ vs. vs) 0 (int R) (dTable s2) [] = Some (?rp, table')"
    using availableWorkers_enough [OF tab2(2), of "int R" "\<lambda>_ vs. vs" 2 0] idle tab2(1) by auto
  have "nat (totalWorkers ms1) \<le> length (idle_idx (Workers ms1) (length (Workers ms1)))" using st(2,4) n by simp
  from availableWorkers_enough [OF st(3) this, of "\<lambda>_ vs. vs" 2 0]
  have first: "availableWorkers 2 (\<lambda>_ vs. vs) 0 (totalWorkers ms1) (Workers ms1) [] = Some ([0..<n], table)"
    using st(2,4) n by (auto simp: tab take_upt)
  have rp: "length ?rp = R" "distinct ?rp" "set ?rp \<subseteq> {0..<length us}"
    using idle idle_idx_facts [of "dTable s2" "length us"] set_take_subset [of R "idle_idx (dTable s2) (length us)"] by auto
  have inv: "shuffle_inv (\<lambda>fn c. Done (m fn c)) us ips R inRAM (task_pairs m (disk h) files n) n h reps (set lost) h2 ms2"
    using sh by simp
  have live: "\<forall>c \<in> set reps. ips ! snd c \<in> set (answering ips lost)"
    using calls(2) inv us(3) by (intro ballI answering_alive) (auto simp: shuffle_inv_def)
  obtain h3 where red: "reduce_calls srt g (answering ips lost) (map (\<lambda>w. job_workers us R inRAM ! w) ?rp) ms2 [0..<R] h2 = Done h3"
    using recovered_reduce [OF su g srt clean inv calls(2) live rp, of "[0..<R]"] by auto
  have "recovered_job srt (\<lambda>fn c. Done (m fn c)) g us ips n R inRAM files h reps lost ?rp h3"
    by (rule recovered_job.intros [OF dw first _ ex(2) second _ _ red]) (use run st(1) in simp_all)
  then show ?thesis by blast
qed

section \<open>Properties\<close>

text \<open>
  C7. With spare workers a job survives the death of workers: when a worker that died has reported nothing, every worker
  reported at most once and no report came from a call that was given up, the output files of the chosen workers hold exactly the
  reduction of all pairs of all tasks, as if no call had failed.
\<close>

theorem recovery_exact:
  assumes "job_setup us ips R inRAM files h" "0 < n" "n \<le> length us" "bag_reducer g" "key_sorter srt"
    and "shuffle_clean (all_pairs m (disk h) files n)"
    and "recovered_job srt (\<lambda>fn c. Done (m fn c)) g us ips n R inRAM files h reps lost rpicks h3"
    and "snd ` set reps \<inter> set lost = {}" and once: "distinct (map snd reps)" "length reps = n"
  shows "distinct rpicks \<and> (\<forall>r < R. rpicks ! r < length us \<and>
    disk h3 (mr_out_path (int (rpicks ! r))) = Some (reduce_text g (bucket R r (all_pairs m (disk h) files n))))"
proof -
  note facts = recovered_job_facts [OF assms(1-8)]
  have "mset (map fst reps) = mset [0..<n]"
    using mset_subset_size [of "mset [0..<n]" "mset (map fst reps)"] subset_mset.le_less [THEN iffD1, OF facts(7)] once(2) by auto
  then have perm: "distinct (map fst reps)" "set (map fst reps) = {0..<n}"
    using mset_eq_imp_distinct_iff [of "map fst reps" "[0..<n]"] mset_eq_setD [of "map fst reps" "[0..<n]"] by simp_all
  have "last_task reps (snd c) = fst c" if "c \<in> set reps" for c
    using last_task_reported [OF that] that once(1) by (auto simp: distinct_map inj_on_def)
  then have "recovered_pairs m (disk h) files n reps = concat (map (\<lambda>k. concat (task_pairs m (disk h) files n k)) (map fst reps))"
    by (auto simp: recovered_pairs_def intro!: arg_cong [where f = concat])
  then have "mset (recovered_pairs m (disk h) files n reps) = mset (all_pairs m (disk h) files n)"
    using all_pairs_order [OF perm, of m "disk h" files] by simp
  then have "reduce_text g (bucket R r (recovered_pairs m (disk h) files n reps)) =
      reduce_text g (bucket R r (all_pairs m (disk h) files n))" for r
    by (intro reduce_text_bag [OF assms(4)]) (simp add: bucket_def)
  moreover have "rpicks ! r < length us" if "r < R" for r using facts(2,4) that nth_mem [of r rpicks] by (auto simp: subset_iff)
  ultimately show ?thesis using facts(1,3) by simp
qed

text \<open>Two tasks; the first worker dies in its call, and worker \<open>w\<close> takes the task over.\<close>

definition takeover :: "nat \<Rightarrow> dlabel list" where
  "takeover w = [DStore 0, DStore 1, DReturn 0 False, DReturn 1 True, DSend 1, DTakeFinish, DSend 0, DTakeCrash, DHand, DPick w,
     DStore 2, DReturn 2 True, DSend 2, DTakeFinish, DClose]"

lemma takeover_job:
  assumes us: "us \<in> {[''u'', ''v''], [''u'', ''v'', ''w'']}" and ips: "ips = map (\<lambda>u. CHR '':'' # u) us"
    and w: "w < length us" "w \<noteq> 0" and R: "0 < R" "R < length us"
  shows "\<exists>h3. recovered_job (sort_key Key) (\<lambda>fn c. Done (agg_Map fn c)) agg_Reduce us ips 2 R True [''in''] sample_host
    [(1, 1), (0, w)] [0] (take R [1..<length us]) h3"
proof -
  let ?t = "mark_busy [0..<2] (map (\<lambda>(u, ip). newWorkerInfo u ip) (zip us ips))"
  have cases: "us = [''u'', ''v''] \<and> w = 1 \<or> us = [''u'', ''v'', ''w''] \<and> w = 1 \<or> us = [''u'', ''v'', ''w''] \<and> w = 2"
    using us w by auto
  have run: "map_option (\<lambda>s. (dMain s, idle_idx (dTable s) (length us))) (exec (distributeMapTask_step 2) (takeover w) (d_init 2 [0..<2] ?t)) =
      Some (MLeft, [1..<length us])" "trace_calls 2 (takeover w) (d_init 2 [0..<2] ?t) = ([(1, 1), (0, w)], [0])"
    using cases unfolding ips by (elim disjE conjE; hypsubst; code_simp)+
  then obtain s2 where s2: "exec (distributeMapTask_step 2) (takeover w) (d_init 2 [0..<2] ?t) = Some s2" "dMain s2 = MLeft"
    "idle_idx (dTable s2) (length us) = [1..<length us]" by auto
  have su: "job_setup us ips R True [''in''] sample_host" using us R by (intro sample_host_setup) (auto simp: ips)
  have "2 \<le> length us" using us by auto
  from recovered_job_exists [OF su _ this agg.bag_reducer_axioms stable.key_sorter_axioms agg_pairs(2) [OF sample_rows_ok] refl s2(1,2) run(2)]
  show ?thesis using s2(3) w R by auto
qed

theorem recovery_exact_witness:
  "\<exists>h3. recovered_job (sort_key Key) (\<lambda>fn c. Done (agg_Map fn c)) agg_Reduce [''u'', ''v'', ''w''] ['':u'', '':v'', '':w''] 2 2 True [''in'']
      sample_host [(1, 1), (0, 2)] [0] [1, 2] h3 \<and>
    disk h3 (mr_out_path 1) = Some (reduce_text agg_Reduce (bucket 2 0 (all_pairs agg_Map (disk sample_host) [''in''] 2)))"
proof -
  have su: "job_setup [''u'', ''v'', ''w''] ['':u'', '':v'', '':w''] 2 True [''in''] sample_host" by (intro sample_host_setup) auto
  obtain h3 where j: "recovered_job (sort_key Key) (\<lambda>fn c. Done (agg_Map fn c)) agg_Reduce [''u'', ''v'', ''w''] ['':u'', '':v'', '':w''] 2 2 True [''in'']
      sample_host [(1, 1), (0, 2)] [0] [1, 2] h3"
    using takeover_job [of "[''u'', ''v'', ''w'']" "['':u'', '':v'', '':w'']" 2 2] by (auto simp: upt_rec numeral_2_eq_2)
  from recovery_exact [OF su _ _ agg.bag_reducer_axioms stable.key_sorter_axioms agg_pairs(2) [OF sample_rows_ok] j] j show ?thesis by force
qed

text \<open>
  C8. Without a spare worker a job does not survive: when as many workers registered as there are tasks and one of them died
  in a call, the job that goes on and succeeds has lost the pairs of at least one task. Its output is that of at least
  as many tasks as there are, but not of all different ones: a worker that took over the task of the dead one wrote over the
  files of its own first task, and both of its reports now name the same files.
\<close>

theorem recovery_overwrites:
  assumes "job_setup us ips R inRAM files h" "0 < n" and spare: "n = length us" and "bag_reducer g" "key_sorter srt"
    and "shuffle_clean (all_pairs m (disk h) files n)"
    and "recovered_job srt (\<lambda>fn c. Done (m fn c)) g us ips n R inRAM files h reps lost rpicks h3"
    and alive: "snd ` set reps \<inter> set lost = {}" and dead: "lost \<noteq> []"
  shows "\<exists>ts. set ts \<subset> {0..<n} \<and> n \<le> length ts \<and> (\<forall>r < R. disk h3 (mr_out_path (int (rpicks ! r))) =
    Some (reduce_text g (bucket R r (concat (map (\<lambda>k. concat (task_pairs m (disk h) files n k)) ts)))))"
proof (intro exI conjI)
  let ?ts = "map (\<lambda>c. last_task reps (snd c)) reps"
  have le: "n \<le> length us" using spare by simp
  note facts = recovered_job_facts [OF assms(1,2) le assms(4-8)]
  have sub: "set ?ts \<subseteq> {0..<n}" using last_task_reported facts(5) by fastforce
  have "hd lost \<in> set lost" using dead by simp
  then have w: "hd lost \<in> {0..<n}" "hd lost \<notin> snd ` set reps" using facts(6) alive spare by auto
  have "snd ` set reps \<subseteq> {0..<n} - {hd lost}" using facts(5) w spare by force
  then have "card (snd ` set reps) \<le> card ({0..<n} - {hd lost})" by (intro card_mono) auto
  also have "\<dots> < card {0..<n}" using w(1) by (intro card_Diff1_less) auto
  finally have "card (last_task reps ` snd ` set reps) < card {0..<n}"
    using card_image_le [of "snd ` set reps" "last_task reps"] by simp
  then have "set ?ts \<noteq> {0..<n}" by (auto simp: image_image)
  then show "set ?ts \<subset> {0..<n}" using sub by blast
  show "n \<le> length ?ts" using size_mset_mono [OF facts(7)] by simp
  show "\<forall>r < R. disk h3 (mr_out_path (int (rpicks ! r))) =
    Some (reduce_text g (bucket R r (concat (map (\<lambda>k. concat (task_pairs m (disk h) files n k)) ?ts))))"
    using facts(1) by (simp add: recovered_pairs_def comp_def)
qed

theorem recovery_overwrites_witness:
  "\<exists>h3 ts. recovered_job (sort_key Key) (\<lambda>fn c. Done (agg_Map fn c)) agg_Reduce [''u'', ''v''] ['':u'', '':v''] 2 1 True [''in'']
      sample_host [(1, 1), (0, 1)] [0] [1] h3 \<and> set ts \<subset> {0..<(2 :: nat)} \<and> 2 \<le> length ts"
proof -
  have su: "job_setup [''u'', ''v''] ['':u'', '':v''] 1 True [''in''] sample_host" by (intro sample_host_setup) auto
  obtain h3 where j: "recovered_job (sort_key Key) (\<lambda>fn c. Done (agg_Map fn c)) agg_Reduce [''u'', ''v''] ['':u'', '':v''] 2 1 True [''in'']
      sample_host [(1, 1), (0, 1)] [0] [1] h3"
    using takeover_job [of "[''u'', ''v'']" "['':u'', '':v'']" 1 1] by (auto simp: upt_rec)
  have "\<exists>ts. set ts \<subset> {0..<2} \<and> 2 \<le> length ts \<and> (\<forall>r < 1. disk h3 (mr_out_path (int ([1] ! r))) =
      Some (reduce_text agg_Reduce (bucket 1 r (concat (map (\<lambda>k. concat (task_pairs agg_Map (disk sample_host) [''in''] 2 k)) ts)))))"
    by (rule recovery_overwrites [OF su _ _ agg.bag_reducer_axioms stable.key_sorter_axioms agg_pairs(2) [OF sample_rows_ok] j]) simp_all
  then obtain ts where "set ts \<subset> {0..<(2 :: nat)}" "2 \<le> length ts" by (elim exE conjE)
  with j show ?thesis by (intro exI conjI)
qed

text \<open>
  The sums of the rows \<^verbatim>\<open>a 5\<close>, \<^verbatim>\<open>b 6\<close>, \<^verbatim>\<open>a 7\<close> after the takeover without a spare worker: the last row is lost and the other
  two are counted twice.
\<close>

lemma twice_text:
  "reduce_text agg_Reduce (bucket 1 0 [newKV ''a'' ''5'', newKV ''b'' ''6'', newKV ''a'' ''5'', newKV ''b'' ''6'']) =
     ''a 10'' @ [NL] @ ''b 12'' @ [NL]"
proof -
  let ?kvs = "[newKV ''a'' ''5'', newKV ''b'' ''6'', newKV ''a'' ''5'', newKV ''b'' ''6'']"
  have "reducer_index 1 k = 0" for k by (simp add: reducer_index_def)
  then have bk: "bucket 1 0 ?kvs = ?kvs" by (simp add: bucket_def)
  have keys: "Key ` set ?kvs = {''a'', ''b''}" by (auto simp: newKV_def)
  have "''a'' < (''b'' :: string)" by code_simp
  then have ord: "sorted_list_of_set {''a'', ''b''} = [''a'', ''b'']" by (simp add: less_imp_le)
  have "''5'' = itoa 5" "''6'' = itoa 6" by code_simp+
  then have num: "num_of ''5'' = Some 5" "num_of ''6'' = Some 6" by (simp_all add: int64_def)
  have line: "out_line (hd (agg_Reduce k vs)) = k @ '' '' @ itoa (wrap64 (sum_list (nums_of vs))) @ [NL]" for k vs
    by (simp add: out_line_def agg_Reduce_def agg_sum_eq int64_0)
  have "values_of ?kvs ''a'' = [''5'', ''5'']" "values_of ?kvs ''b'' = [''6'', ''6'']" by (simp_all add: newKV_def)
  moreover have "itoa (wrap64 (sum_list [5, 5])) = ''10''" "itoa (wrap64 (sum_list [6, 6])) = ''12''" by code_simp+
  ultimately have "out_line (hd (agg_Reduce ''a'' (values_of ?kvs ''a''))) = ''a 10'' @ [NL]"
    "out_line (hd (agg_Reduce ''b'' (values_of ?kvs ''b''))) = ''b 12'' @ [NL]"
    unfolding line by (simp_all add: List.map_filter_simps num)
  then show ?thesis by (simp only: reduce_text_def bk keys ord list.map concat.simps append_Nil2 append_assoc)
qed

lemma recovery_wrong_sums:
  "\<exists>h3. recovered_job (sort_key Key) (\<lambda>fn c. Done (agg_Map fn c)) agg_Reduce [''u'', ''v''] ['':u'', '':v''] 2 1 True [''in'']
      sample_host [(1, 1), (0, 1)] [0] [1] h3 \<and> disk h3 ''mr-out-1.txt'' = Some (''a 10'' @ [NL] @ ''b 12'' @ [NL])"
proof -
  have su: "job_setup [''u'', ''v''] ['':u'', '':v''] 1 True [''in''] sample_host" by (intro sample_host_setup) auto
  obtain h3 where j: "recovered_job (sort_key Key) (\<lambda>fn c. Done (agg_Map fn c)) agg_Reduce [''u'', ''v''] ['':u'', '':v''] 2 1 True [''in'']
      sample_host [(1, 1), (0, 1)] [0] [1] h3"
    using takeover_job [of "[''u'', ''v'']" "['':u'', '':v'']" 1 1] by (auto simp: upt_rec)
  have "disk h3 (mr_out_path (int ([1] ! 0))) =
      Some (reduce_text agg_Reduce (bucket 1 0 (recovered_pairs agg_Map (disk sample_host) [''in''] 2 [(1, 1), (0, 1)])))"
    using recovered_job_facts(1) [OF su _ _ agg.bag_reducer_axioms stable.key_sorter_axioms agg_pairs(2) [OF sample_rows_ok] j] by force
  moreover have "recovered_pairs agg_Map (disk sample_host) [''in''] 2 [(1, 1), (0, 1)] =
      [newKV ''a'' ''5'', newKV ''b'' ''6'', newKV ''a'' ''5'', newKV ''b'' ''6'']" by code_simp
  moreover have "mr_out_path (int ([1] ! 0)) = ''mr-out-1.txt''" by code_simp
  ultimately have "disk h3 ''mr-out-1.txt'' = Some (''a 10'' @ [NL] @ ''b 12'' @ [NL])" by (simp only: twice_text)
  with j show ?thesis by (intro exI conjI)
qed

end
