(* ===== verification/Flow_Redis.thy ===== *)
theory Flow_Redis
  imports Pipeline
begin

text \<open>
  Flows from MySQL to Redis (\<^verbatim>\<open>batch/flow.go\<close> with \<^verbatim>\<open>batch/redis_batch/sink.go\<close>): the export of \<^verbatim>\<open>Mysql_Export\<close>, the job of \<^verbatim>\<open>Job\<close> and
  the import of \<^verbatim>\<open>Redis_Batch\<close> composed, against an abstract specification of what the hashes should hold.
\<close>

subsection \<open>Specification\<close>

text \<open>
  Every key of the source, behind the prefix, has its 64-bit sum in the value field. With \<^verbatim>\<open>Replace\<close> all other
  keys with the prefix are gone and the hashes have no other field.
\<close>

definition redis_spec :: "bool \<Rightarrow> string \<Rightarrow> string \<Rightarrow> (int \<times> sql_row) list \<Rightarrow> hashes \<Rightarrow> hashes" where
  "redis_spec replace pre field tbl m =
     (\<lambda>k. let before = (if replace \<and> has_prefix k pre then None else m k) in
          if k \<in> (\<lambda>x. pre @ x) ` Key ` set (table_kvs tbl)
          then Some ((case before of None \<Rightarrow> Map.empty | Some h \<Rightarrow> h)(field \<mapsto> itoa (key_sum tbl (drop (length pre) k))))
          else before)"

subsection \<open>What the Redis sink reads from the outputs\<close>

lemma number_fields:
  assumes "\<forall>p \<in> set ps. number_ok p"
  shows "file_fields (concat (map number_line ps)) = map (\<lambda>p. (fst p, itoa (snd p))) ps"
proof -
  let ?kvs = "map (\<lambda>p. newKV (fst p) (itoa (snd p))) ps"
  have "\<forall>kv \<in> set ?kvs. printed_ok kv" using assms by (auto simp: number_ok_def intro!: printed_ok_number)
  from printed_fields(1) [OF this]
  have "file_fields (concat (map out_line ?kvs)) = map (\<lambda>p. (fst p, itoa (snd p))) ps" by (simp add: newKV_def comp_def)
  moreover have "map out_line ?kvs = map number_line ps" by (simp add: number_line_def)
  ultimately show ?thesis by (simp only:)
qed

lemma outs_fields:
  assumes outs: "set outs = (\<lambda>r. mr_out_path (int r)) ` {0..<R}" "0 < R" and cl: "rows_clean tbl"
    and d: "\<forall>r < R. d (mr_out_path (int r)) = Some (concat (map number_line (reducer_rows tbl R r)))"
  shows "set (file_pairs d outs) = (\<lambda>k. (k, itoa (key_sum tbl k))) ` Key ` set (table_kvs tbl)"
proof -
  have "file_fields (the (d (mr_out_path (int r)))) = map (\<lambda>p. (fst p, itoa (snd p))) (reducer_rows tbl R r)" if "r < R" for r
    using d that reducer_rows_ok [OF cl] number_fields [of "reducer_rows tbl R r"] by auto
  then have "set (file_pairs d outs) = (\<Union>r \<in> {0..<R}. (\<lambda>p. (fst p, itoa (snd p))) ` set (reducer_rows tbl R r))"
    using outs(1) by (simp add: file_pairs_def)
  also have "\<dots> = (\<lambda>k. (k, itoa (key_sum tbl k))) ` Key ` set (table_kvs tbl)"
    using fnv.part_less [OF outs(2)] by (force simp: reducer_rows_set)
  finally show ?thesis .
qed

text \<open>A list of pairs that all agree with a function looks it up.\<close>

lemma map_of_graph: "\<forall>p \<in> set xs. snd p = g (fst p) \<Longrightarrow> map_of xs k = (if k \<in> fst ` set xs then Some (g k) else None)"
  by (induction xs) auto

lemma put_all_spec:
  assumes ps: "set ps = (\<lambda>k. (k, itoa (key_sum tbl k))) ` Key ` set (table_kvs tbl)"
  shows "put_all cfg ps (if replace then drop_prefix (KeyPrefix cfg) m else m) = redis_spec replace (KeyPrefix cfg) (ValueField cfg) tbl m"
proof
  fix k
  let ?xs = "rev (map (\<lambda>p. (KeyPrefix cfg @ fst p, snd p)) ps)"
  have keys: "fst ` set ?xs = (\<lambda>x. KeyPrefix cfg @ x) ` Key ` set (table_kvs tbl)" by (simp add: ps image_image)
  have "\<forall>p \<in> set ?xs. snd p = itoa (key_sum tbl (drop (length (KeyPrefix cfg)) (fst p)))" by (auto simp: ps)
  from map_of_graph [OF this, of k] have "map_of ?xs k =
      (if k \<in> (\<lambda>x. KeyPrefix cfg @ x) ` Key ` set (table_kvs tbl) then Some (itoa (key_sum tbl (drop (length (KeyPrefix cfg)) k))) else None)"
    unfolding keys .
  then show "put_all cfg ps (if replace then drop_prefix (KeyPrefix cfg) m else m) k =
      redis_spec replace (KeyPrefix cfg) (ValueField cfg) tbl m k"
    by (simp add: put_all_lookup redis_spec_def Let_def drop_prefix_def restrict_map_def split: option.splits)
qed

subsection \<open>The surroundings\<close>

text \<open>The pipeline whose export and job a flow into Redis has: the outputs of earlier jobs are removed by the pattern of the sink.\<close>

definition redis_pipeline :: "FlowConfig \<Rightarrow> PipelineConfig" where
  "redis_pipeline c = (let p = pipeline_of c (fsDB (Source c)) in p\<lparr>plSink := (plSink p)\<lparr>InputGlob := RedisInputGlob (fkRedisConfig (Sink c))\<rparr>\<rparr>)"

text \<open>A Redis that can be dialled in state \<open>s\<close> and keeps its hashes, and a listing of the outputs.\<close>

definition redis_ready :: "('db, 's) flow_env \<Rightarrow> FlowConfig \<Rightarrow> (int \<times> sql_row) list \<Rightarrow> ('s \<Rightarrow> hashes) \<Rightarrow> 's \<Rightarrow> bool" where
  "redis_ready E c tbl kv s \<longleftrightarrow>
     (\<exists>reply good unseen rounds. speaks (feServe E) reply good \<and>
        store_laws reply good kv (fkRedisConfig (Sink c))
          (map (\<lambda>k. (k, itoa (key_sum tbl k))) (sorted_list_of_set (Key ` set (table_kvs tbl)))) unseen rounds \<and> good s) \<and>
     openRedis (feServe E) (feDial E) (fkRedis (Sink c)) = Done (Inr (s, [])) \<and>
     (\<forall>d. finite (mr_outs d) \<longrightarrow> (\<exists>outs. rh_glob (feRedis E) (RedisInputGlob (fkRedisConfig (Sink c))) d = Inr outs \<and>
        distinct outs \<and> set outs = mr_outs d)) \<and>
     length (KeyPrefix (fkRedisConfig (Sink c))) \<le> 700 \<and> length (ValueField (fkRedisConfig (Sink c))) \<le> 700"

lemma store_laws_set: "set ps = set qs \<Longrightarrow> store_laws reply good kv cfg ps unseen rounds \<longleftrightarrow> store_laws reply good kv cfg qs unseen rounds"
  by (simp add: store_laws_def)

lemma redis_sink_defaults_twice: "redis_sink_WithDefaults (redis_sink_WithDefaults c) = redis_sink_WithDefaults c"
  by (simp add: redis_sink_WithDefaults_def or_default_def)

lemma redis_import:
  assumes rr: "redis_ready E c tbl kv s" and df: "redis_sink_WithDefaults (fkRedisConfig (Sink c)) = fkRedisConfig (Sink c)"
    and cl: "rows_clean tbl" and R: "0 < R"
    and outs: "mr_outs d = (\<lambda>r. mr_out_path (int r)) ` {0..<R}"
      "\<forall>r < R. d (mr_out_path (int r)) = Some (concat (map number_line (reducer_rows tbl R r)))"
  shows "\<exists>s'. redis_ImportReduceOutputs (feServe E) (feDial E) (rh_glob (feRedis E)) (fkRedis (Sink c)) (fkRedisConfig (Sink c)) d =
      Some (Done (Inr (s', []))) \<and>
    kv s' = redis_spec (RedisReplace (fkRedisConfig (Sink c))) (KeyPrefix (fkRedisConfig (Sink c))) (ValueField (fkRedisConfig (Sink c))) tbl (kv s)"
proof -
  let ?k = "fkRedisConfig (Sink c)"
  obtain fs where fs: "rh_glob (feRedis E) (RedisInputGlob ?k) d = Inr fs" "distinct fs" "set fs = (\<lambda>r. mr_out_path (int r)) ` {0..<R}"
  proof -
    have "finite (mr_outs d)" by (simp add: outs(1))
    then show ?thesis using rr that unfolding redis_ready_def outs(1) [symmetric] by blast
  qed
  have ne: "fs \<noteq> []" using fs(3) R by auto
  note ps = outs_fields [OF fs(3) R cl outs(2)]
  obtain reply good unseen rounds where sp: "speaks (feServe E) reply good" and gd: "good s"
    and lw: "store_laws reply good kv ?k (map (\<lambda>k. (k, itoa (key_sum tbl k))) (sorted_list_of_set (Key ` set (table_kvs tbl)))) unseen rounds"
    using rr unfolding redis_ready_def by blast
  have lw': "store_laws reply good kv (redis_sink_WithDefaults ?k) (file_pairs d fs) unseen rounds"
    unfolding df by (rule store_laws_set [THEN iffD1, OF _ lw]) (simp add: ps)
  have op: "openRedis (feServe E) (feDial E) (fkRedis (Sink c)) = Done (Inr (s, []))"
    and len: "length (KeyPrefix ?k) \<le> 700" "length (ValueField ?k) \<le> 700" using rr by (simp_all add: redis_ready_def)
  have small: "\<forall>p \<in> set (file_pairs d fs). small (KeyPrefix (redis_sink_WithDefaults ?k) @ fst p) \<and> small (snd p)"
    using cl len(1) by (auto simp: ps df table_kvs_def rows_clean_def key_sum_def wrap64_range intro!: small_short small_itoa)
  have "small (KeyPrefix (redis_sink_WithDefaults ?k) @ ''*'')" "small (ValueField (redis_sink_WithDefaults ?k))"
    using len by (simp_all add: df small_short)
  from redis_import_result [where glb = "rh_glob (feRedis E)" and d = d and files = fs,
      OF sp lw' gd op _ ne outs_pairs(1) [OF fs(2,3) R cl outs(2)] small this] fs(1)
  show ?thesis by (simp only: df put_all_spec [OF ps] simp_thms)
qed

subsection \<open>The flow\<close>

lemma flow_body_redis:
  fixes cfg :: FlowConfig
  defines "c \<equiv> flow_withDefaults cfg"
  assumes ty: "fsType (Source c) = ''mysql''" "fkType (Sink c) = ''redis''" "tfType (Transform c) = ''mapreduce''"
    and opn: "openDB (fePing E) (fsDB (Source c)) = None"
    and expD: "\<And>r d1. ExportSourceByPKRange (feSource E) (fsConfig (Source c)) (disk (wHost w)) r d1 \<Longrightarrow> \<exists>fs. r = Inr fs \<and> fs \<noteq> []"
    and run: "\<And>fs d1 rr h'. fs \<noteq> [] \<Longrightarrow> RunMapReduce (run env) (pipeline_run_config (redis_pipeline c) fs)
        ((wHost w)\<lparr>disk := cleanupReduceOutputs (feSource E) (RedisInputGlob (fkRedisConfig (Sink c))) d1\<rparr>) rr h' \<longleftrightarrow> rr = None \<and> J fs d1 h'"
  shows "flow_body E run c env w er w' \<longleftrightarrow>
    (\<exists>fs d1 h'. ExportSourceByPKRange (feSource E) (fsConfig (Source c)) (disk (wHost w)) (Inr fs) d1 \<and> J fs d1 h' \<and>
       flow_sink E (Sink c) (w\<lparr>wHost := h'\<rparr>) er w')"
proof -
  have glb: "flow_inputGlob (Sink c) = Some (RedisInputGlob (fkRedisConfig (Sink c)))"
    using ty(2) by (simp add: flow_inputGlob_def redis_InputGlob_def c_def flow_withDefaults_def redis_sink_defaults_twice)
  have cfgs: "\<lparr>mrFiles = files, mrPluginPath = tfPluginPath (Transform c), mrReducers = tfReducers (Transform c),
       mrWorkers = tfWorkers (Transform c), mrInRAM = tfInRAM (Transform c), mrPort = tfPort (Transform c)\<rparr> =
      pipeline_run_config (redis_pipeline c) files" for files
    by (simp add: pipeline_run_config_def redis_pipeline_def Let_def pipeline_of_def)
  have body: "flow_body E run c env w er w' \<longleftrightarrow>
      (\<exists>r d1. ExportSourceByPKRange (feSource E) (fsConfig (Source c)) (disk (wHost w)) r d1 \<and>
        (case r of
           Inl e \<Rightarrow> er = Some e \<and> w' = w\<lparr>wHost := (wHost w)\<lparr>disk := d1\<rparr>\<rparr>
         | Inr files \<Rightarrow> if files = [] then er = None \<and> w' = w\<lparr>wHost := (wHost w)\<lparr>disk := d1\<rparr>\<rparr>
             else (\<exists>rr h2. RunMapReduce (run env) (pipeline_run_config (redis_pipeline c) files)
                 ((wHost w)\<lparr>disk := cleanupReduceOutputs (feSource E) (RedisInputGlob (fkRedisConfig (Sink c))) d1\<rparr>) rr h2 \<and>
               (case rr of Some e \<Rightarrow> er = Some e \<and> w' = w\<lparr>wHost := h2\<rparr> | None \<Rightarrow> flow_sink E (Sink c) (w\<lparr>wHost := h2\<rparr>) er w'))))"
    unfolding flow_body_def using ty opn
    by (simp add: resolveTransformPlugin_def flow_source_def glb SourceAdapter_Export_def runMapReduce_def cfgs Let_def
        cong: sum.case_cong option.case_cong)
  show ?thesis
  proof
    assume "flow_body E run c env w er w'"
    then show "\<exists>fs d1 h'. ExportSourceByPKRange (feSource E) (fsConfig (Source c)) (disk (wHost w)) (Inr fs) d1 \<and> J fs d1 h' \<and>
        flow_sink E (Sink c) (w\<lparr>wHost := h'\<rparr>) er w'"
      unfolding body using expD run by fastforce
  next
    assume "\<exists>fs d1 h'. ExportSourceByPKRange (feSource E) (fsConfig (Source c)) (disk (wHost w)) (Inr fs) d1 \<and> J fs d1 h' \<and>
        flow_sink E (Sink c) (w\<lparr>wHost := h'\<rparr>) er w'"
    then obtain fs d1 h' where r: "ExportSourceByPKRange (feSource E) (fsConfig (Source c)) (disk (wHost w)) (Inr fs) d1" "J fs d1 h'"
      "flow_sink E (Sink c) (w\<lparr>wHost := h'\<rparr>) er w'" by blast
    then show "flow_body E run c env w er w'"
      unfolding body using expD [OF r(1)] run by (intro exI [of _ "Inr fs"] exI [of _ d1]) auto
  qed
qed

text \<open>The job that such a flow runs on the exported files.\<close>

abbreviation redis_job :: "('db, 's) flow_env \<Rightarrow> (KV list \<Rightarrow> KV list) \<Rightarrow> uuid list \<Rightarrow> addr list \<Rightarrow> FlowConfig \<Rightarrow> host \<Rightarrow> path list \<Rightarrow> fs \<Rightarrow> host \<Rightarrow> bool" where
  "redis_job E srt us ips c h fs d1 h' \<equiv> job srt (\<lambda>fn c. Done (agg_Map fn c)) agg_Reduce us ips (nat (plReducers (redis_pipeline c)))
     (plInRAM (redis_pipeline c)) fs (h\<lparr>disk := cleanupReduceOutputs (feSource E) (RedisInputGlob (fkRedisConfig (Sink c))) d1\<rparr>) h'"

abbreviation redis_result :: "FlowConfig \<Rightarrow> (int \<times> sql_row) list \<Rightarrow> hashes \<Rightarrow> hashes" where
  "redis_result c tbl st \<equiv> redis_spec (RedisReplace (fkRedisConfig (Sink c))) (KeyPrefix (fkRedisConfig (Sink c)))
     (ValueField (fkRedisConfig (Sink c))) tbl st"

lemma redis_pipeline_sel:
  "plSource (redis_pipeline c) = fsConfig (Source c)" "InputGlob (plSink (redis_pipeline c)) = RedisInputGlob (fkRedisConfig (Sink c))"
  "plPluginPath (redis_pipeline c) = tfPluginPath (Transform c)"
  by (simp_all add: redis_pipeline_def Let_def pipeline_of_def)

lemma redis_pipeline_defaults:
  "source_WithDefaults (fsConfig (Source (flow_withDefaults cfg))) = fsConfig (Source (flow_withDefaults cfg))"
  "0 < plReducers (redis_pipeline (flow_withDefaults cfg))" "0 < plWorkers (redis_pipeline (flow_withDefaults cfg))"
  "redis_sink_WithDefaults (fkRedisConfig (Sink (flow_withDefaults cfg))) = fkRedisConfig (Sink (flow_withDefaults cfg))"
  by (simp_all add: redis_pipeline_def pipeline_of_def flow_withDefaults_def Let_def source_defaults_twice default_pos_def redis_sink_defaults_twice)

text \<open>Export and job: the export returns with files, and the job runs on them.\<close>

lemma redis_flow_steps:
  fixes cfg :: FlowConfig
  defines "c \<equiv> flow_withDefaults cfg"
  assumes rd: "pipeline_ready (feSource E) tbl (redis_pipeline c) us ips h" and ne: "tbl \<noteq> []" and srt: "key_sorter srt"
  shows "\<exists>fs d1. ExportSourceByPKRange (feSource E) (fsConfig (Source c)) (disk h) (Inr fs) d1"
    and "ExportSourceByPKRange (feSource E) (fsConfig (Source c)) (disk h) r d1 \<Longrightarrow>
      \<exists>fs. r = Inr fs \<and> fs \<noteq> [] \<and> export_left tbl (fsConfig (Source c)) (disk h) fs d1 \<and> (\<exists>h'. redis_job E srt us ips c h fs d1 h')"
proof -
  note rds = rd [unfolded pipeline_ready_def redis_pipeline_sel]
  have srv: "serves_table (feSource E) (source_WithDefaults (fsConfig (Source c))) tbl"
    and fit: "shards_fit (fst (hd tbl)) (fst (last tbl)) (Shards (source_WithDefaults (fsConfig (Source c))))"
    using rds redis_pipeline_defaults(1) [of cfg] by (auto simp: c_def)
  note exp = export_runs [OF srv ne fit, of "disk h", unfolded c_def redis_pipeline_defaults(1), folded c_def]
  note tr = pipeline_transform [OF rd ne redis_pipeline_defaults(2) [of cfg, folded c_def] srt, unfolded redis_pipeline_sel]
  show "\<exists>fs d1. ExportSourceByPKRange (feSource E) (fsConfig (Source c)) (disk h) (Inr fs) d1" using exp by blast
  assume "ExportSourceByPKRange (feSource E) (fsConfig (Source c)) (disk h) r d1"
  then obtain fs where "r = Inr fs" "export_left tbl (fsConfig (Source c)) (disk h) fs d1" using exp by blast
  then show "\<exists>fs. r = Inr fs \<and> fs \<noteq> [] \<and> export_left tbl (fsConfig (Source c)) (disk h) fs d1 \<and> (\<exists>h'. redis_job E srt us ips c h fs d1 h')"
    using tr(1) by blast
qed

text \<open>The import of the outputs of that job.\<close>

lemma redis_flow_sink:
  fixes cfg :: FlowConfig
  defines "c \<equiv> flow_withDefaults cfg"
  assumes rd: "pipeline_ready (feSource E) tbl (redis_pipeline c) us ips (wHost w)" and ne: "tbl \<noteq> []" and srt: "key_sorter srt"
    and sk: "fkType (Sink c) = ''redis''" and rr: "redis_ready E c tbl kv s"
    and left: "export_left tbl (fsConfig (Source c)) (disk (wHost w)) fs d1" and job: "redis_job E srt us ips c (wHost w) fs d1 h'"
  shows "\<exists>s'. kv s' = redis_result c tbl (kv s) \<and>
    (\<forall>er w'. flow_sink E (Sink c) (w\<lparr>wHost := h'\<rparr>) er w' \<longleftrightarrow> er = None \<and> w' = w\<lparr>wHost := h', wConn := Some (s', [])\<rparr>)"
proof -
  note dflt = redis_pipeline_defaults [of cfg, folded c_def]
  note tr = pipeline_transform [OF rd ne dflt(2) srt, unfolded redis_pipeline_sel]
  have cl: "rows_clean tbl" using rd by (auto simp: pipeline_ready_def)
  have "\<exists>s'. redis_ImportReduceOutputs (feServe E) (feDial E) (rh_glob (feRedis E)) (fkRedis (Sink c)) (fkRedisConfig (Sink c)) (disk h') =
      Some (Done (Inr (s', []))) \<and> kv s' = redis_result c tbl (kv s)"
    using tr(2) [OF left job] dflt(2) by (intro redis_import [OF rr dflt(4) cl, of "nat (plReducers (redis_pipeline c))"]) auto
  then obtain s' where "redis_ImportReduceOutputs (feServe E) (feDial E) (rh_glob (feRedis E)) (fkRedis (Sink c))
      (fkRedisConfig (Sink c)) (disk h') = Some (Done (Inr (s', [])))" "kv s' = redis_result c tbl (kv s)" by blast
  then show ?thesis using sk by (intro exI [of _ s']) (simp add: flow_sink_def)
qed

text \<open>The three stages together.\<close>

lemma redis_flow_body:
  fixes cfg :: FlowConfig
  defines "c \<equiv> flow_withDefaults cfg"
  assumes va: "ValidateFlowConfig c = None"
    and ty: "fsType (Source c) = ''mysql''" "fkType (Sink c) = ''redis''" "tfType (Transform c) = ''mapreduce''"
    and op: "openDB (fePing E) (fsDB (Source c)) = None" and rd: "pipeline_ready (feSource E) tbl (redis_pipeline c) us ips (wHost w)"
    and ne: "tbl \<noteq> []" and srt: "key_sorter srt"
  shows "flow_body E (\<lambda>_. agg_runner srt us ips) c env w er w' \<longleftrightarrow>
    (\<exists>fs d1 h'. ExportSourceByPKRange (feSource E) (fsConfig (Source c)) (disk (wHost w)) (Inr fs) d1 \<and>
       redis_job E srt us ips c (wHost w) fs d1 h' \<and> flow_sink E (Sink c) (w\<lparr>wHost := h'\<rparr>) er w')"
  unfolding c_def
proof (rule flow_body_redis, unfold c_def [symmetric])
  have plug: "tfPluginPath (Transform c) \<noteq> []"
    using va ty(3) unfolding c_def by (auto simp: ValidateFlowConfig_def flow_withDefaults_twice Let_def check_transform_def blank_def
      or_error_def split: if_splits option.splits)
  note rds = rd [unfolded pipeline_ready_def redis_pipeline_sel]
  show "\<exists>fs. r = Inr fs \<and> fs \<noteq> []" if "ExportSourceByPKRange (feSource E) (fsConfig (Source c)) (disk (wHost w)) r d1" for r d1
    using redis_flow_steps(2) [OF rd [unfolded c_def] ne srt that [unfolded c_def]] by blast
  show "RunMapReduce (agg_runner srt us ips) (pipeline_run_config (redis_pipeline c) fs)
      ((wHost w)\<lparr>disk := cleanupReduceOutputs (feSource E) (RedisInputGlob (fkRedisConfig (Sink c))) d1\<rparr>) rr h' \<longleftrightarrow>
      rr = None \<and> redis_job E srt us ips c (wHost w) fs d1 h'"
    if "fs \<noteq> []" for fs d1 rr h'
    using that plug redis_pipeline_defaults(2,3) [of cfg, folded c_def] rds redis_pipeline_sel(3) [of c]
    by (subst RunMapReduce_def, subst agg_runner_iff) (auto simp: pipeline_run_config_def workers_ready_def)
qed (fact ty op)+

section \<open>Properties\<close>


subsection \<open>A sample run\<close>

definition redis_flow :: FlowConfig where
  "redis_flow = sample_flow
     \<lparr>Source := (Source sample_flow)\<lparr>fsConfig := sample_cfg\<rparr>,
      Transform := (Transform sample_flow)\<lparr>tfType := ''mapreduce'', tfPluginPath := ''agg.so'', tfReducers := 2, tfWorkers := 2, tfInRAM := True,
        tfParams := []\<rparr>,
      Sink := (Sink sample_flow)\<lparr>fkType := ''redis'', fkRedis := sample_conn, fkRedisConfig := sample_rsink\<rparr>\<rparr>"

definition redis_env :: "(unit, hashes) flow_env" where
  "redis_env = \<lparr>fePing = (\<lambda>_. None), feSource = sum_env, feExec = (\<lambda>st db. (None, db)), feServe = decoding hash_reply,
     feDial = (\<lambda>_. Inr old_store),
     feRedis = \<lparr>rh_mkdir = (\<lambda>_. True), rh_glob = (\<lambda>_ d. Inr (sorted_list_of_set (mr_outs d))), rh_create = (\<lambda>_. True), rh_remove = (\<lambda>_. True)\<rparr>,
     feBuild = sample_build, feMkdir = (\<lambda>_. True), feRoot = ''/r''\<rparr>"

definition redis_world :: "(unit, hashes) world" where
  "redis_world = \<lparr>wHost = sum_host, wDb = (), wPlugins = Map.empty, wConn = None\<rparr>"

lemma redis_flow_types:
  "fsType (Source (flow_withDefaults redis_flow)) = ''mysql''" "fkType (Sink (flow_withDefaults redis_flow)) = ''redis''"
  "tfType (Transform (flow_withDefaults redis_flow)) = ''mapreduce''" "tfParams (Transform (flow_withDefaults redis_flow)) = []"
  "openDB (fePing redis_env) (fsDB (Source (flow_withDefaults redis_flow))) = None"
  "fkRedisConfig (Sink (flow_withDefaults redis_flow)) = redis_sink_WithDefaults sample_rsink"
  "fkRedis (Sink (flow_withDefaults redis_flow)) = sample_conn"
  by (simp_all add: redis_flow_def sample_flow_def flow_withDefaults_def redis_env_def openDB_def sample_db_def or_default_def)

lemma redis_flow_valid: "ValidateFlowConfig (flow_withDefaults redis_flow) = None"
proof -
  have "trim_space ''v1'' = ''v1''" "trim_space ''orders'' = ''orders''" "trim_space ''agg.so'' = ''agg.so''"
    "trim_space ''mr:result:'' = ''mr:result:''" by code_simp+
  then show ?thesis
    by (simp add: ValidateFlowConfig_def flow_withDefaults_twice Let_def redis_flow_def sample_flow_def sample_cfg_def sample_rsink_def sample_db_def
        defaults_defs check_source_def check_sink_def check_transform_def check_topn_def check_minmax_def blank_def or_error_def)
qed

lemma redis_flow_ready:
  "pipeline_ready (feSource redis_env) sum_table (redis_pipeline (flow_withDefaults redis_flow)) [''u'', ''v''] ['':1'', '':2''] (wHost redis_world)"
proof -
  have "plSource (redis_pipeline (flow_withDefaults redis_flow)) = plSource (pipeline_withDefaults sum_cfg)"
    "plInRAM (redis_pipeline (flow_withDefaults redis_flow)) = plInRAM (pipeline_withDefaults sum_cfg)"
    "plReducers (redis_pipeline (flow_withDefaults redis_flow)) = plReducers (pipeline_withDefaults sum_cfg)"
    "plWorkers (redis_pipeline (flow_withDefaults redis_flow)) = plWorkers (pipeline_withDefaults sum_cfg)"
    by (simp_all add: redis_pipeline_def Let_def pipeline_of_def redis_flow_def sample_flow_def flow_withDefaults_def pipeline_withDefaults_def
        sum_cfg_def default_pos_def)
  moreover have "lists_mr_out sum_env g" for g by (simp add: lists_mr_out_def sum_env_def)
  ultimately show ?thesis using sum_ready by (simp add: pipeline_ready_def redis_env_def redis_world_def)
qed

lemma sum_pairs: "map (\<lambda>k. (k, itoa (key_sum sum_table k))) (sorted_list_of_set (Key ` set (table_kvs sum_table))) =
    [(''a'', itoa (key_sum sum_table ''a'')), (''b'', itoa (key_sum sum_table ''b''))]"
proof -
  have "Key ` set (table_kvs sum_table) = {''a'', ''b''}" by (auto simp: table_kvs_def sum_table_def table_row_def row_kv_def)
  moreover have "''a'' < (''b'' :: string)" by code_simp
  ultimately show ?thesis by (simp add: less_imp_le)
qed

lemma redis_flow_store: "redis_ready redis_env (flow_withDefaults redis_flow) sum_table (\<lambda>s. s) old_store"
proof -
  have gd: "dom old_store \<subseteq> set three_keys" by (simp add: three_keys_def old_store_def)
  have rp: "hash_reply [''PING''] old_store = (RStr ''PONG'', old_store)" by (simp add: hash_reply_def)
  have "openRedis (decoding hash_reply) (\<lambda>a. Inr old_store) sample_conn = Done (Inr (old_store, []))"
    by (rule openRedis_plain [OF hash_reply_speaks gd _ _ _ rp]) (simp_all add: sample_conn_def)
  moreover have "\<exists>reply good unseen rounds. speaks (decoding hash_reply) reply good \<and> store_laws reply good (\<lambda>s. s) (redis_sink_WithDefaults sample_rsink)
      [(''a'', itoa (key_sum sum_table ''a'')), (''b'', itoa (key_sum sum_table ''b''))] unseen rounds \<and> good old_store"
    using hash_reply_speaks hash_reply_laws gd by blast
  ultimately show ?thesis
    by (simp add: redis_ready_def redis_flow_types sum_pairs sample_rsink_defaults) (simp add: redis_env_def)
qed


end
