(* ===== verification/Spec2Isabelle.thy ===== *)
theory Spec2Isabelle
  imports Command Lifecycle Recovery Flow_Redis
begin

text \<open>
  This development models \<^verbatim>\<open>mrkit-go\<close>, a MapReduce runtime in Go with batch connectors for MySQL and Redis, and
  proves that it computes what it should. Source paths are relative to the root of the repository.

  \<^bold>\<open>The program.\<close> A job has a master and several workers, processes or goroutines that talk over gRPC. The
  master cuts the input files into ranges of lines, one per worker (\<^verbatim>\<open>master/master.go\<close>), hands a map task to each worker,
  re-executes the tasks of workers that fail, and then hands out one reduce task per reducer. A worker runs the map function
  of a plugin on its ranges, cuts the emitted pairs by a hash of the key and writes one intermediate file per
  reducer; a reduce task fetches its files from all workers, sorts them, and prints one line per key
  (\<^verbatim>\<open>worker/worker.go\<close>). The applications are in \<^verbatim>\<open>mrapps/\<close>. The package \<^verbatim>\<open>batch\<close> exports a table
  or a Redis keyspace to text files, runs a job on them and imports the outputs.

  \<^bold>\<open>Foundations.\<close>
  \<^item> \<^verbatim>\<open>Prelude\<close>: outcomes (\<open>Done\<close>, \<open>Panics\<close>, \<open>Blocks\<close>), results, files as a map from paths to texts, lists.
  \<^item> \<^verbatim>\<open>Go_Strings\<close>, \<^verbatim>\<open>Go_Ints\<close>, \<^verbatim>\<open>Go_Paths\<close>: what the code uses of the packages \<^verbatim>\<open>strings\<close>, \<^verbatim>\<open>bufio\<close>, \<^verbatim>\<open>strconv\<close> and
    \<^verbatim>\<open>path/filepath\<close>, with bytes as characters (the white space of UTF-8 included) and 64-bit integers as integers with
    the wrap-around written out.
  \<^item> \<^verbatim>\<open>Machine\<close>: step functions with labels, reachability, the locale \<open>machine\<close> of an invariant and a measure, and its
    consequences: bounded runs that can be taken to a state of rest. The map phase, the reduce phase and the export pool interpret it.

  \<^bold>\<open>Workers.\<close> \<^verbatim>\<open>Kv\<close> (the file format, \<^verbatim>\<open>worker/kv.go\<close>, \<^verbatim>\<open>worker/imd_codec.go\<close>; locale \<open>kv_format\<close>), \<^verbatim>\<open>Partition\<close> (the hash;
  locale \<open>partitioner\<close>), \<^verbatim>\<open>Map_Task\<close> (the event loop of \<^verbatim>\<open>Worker.Map\<close> with its channels), \<^verbatim>\<open>Reduce_Task\<close> (the loop over the
  sorted pairs; locales \<open>key_sorter\<close>, which the sorting functions of the library meet, and \<open>bag_reducer\<close>, which
  every reduce function of \<^verbatim>\<open>Apps\<close> is shown to meet), \<^verbatim>\<open>Worker_Node\<close> (the worker with its files). Shown: no pair is lost or
  doubled, the loop ends, the file format is exact under a stated condition and only under it, one output line per key.

  \<^bold>\<open>Master.\<close> \<^verbatim>\<open>Work_Split\<close> and \<^verbatim>\<open>Master_State\<close> (tables, registration, ranges), \<^verbatim>\<open>Find_Workers\<close> (\<^verbatim>\<open>availableWorkers\<close>),
  \<^verbatim>\<open>Dispatch_Map\<close> and \<^verbatim>\<open>Dispatch_Reduce\<close> (the goroutines and channels of the two phases as step functions, with failing
  calls). Shown: the map phase completes every task exactly once and ends unless all workers are broken; the
  reduce phase completes without failures and can panic with one.

  \<^bold>\<open>Jobs.\<close> \<^verbatim>\<open>Apps\<close> has the applications, \<^verbatim>\<open>Job\<close> composes master and workers on one disk; a job without failing calls leaves in the
  file of each reducer the reduction of all values of its keys, for every order of calls. \<^verbatim>\<open>Recovery\<close> puts the map phase with failing
  calls on the same disk: workers die or answer too late, tasks are executed again by other workers. The output is exact when
  every worker reports once; a worker that executes a second task writes over its own intermediate files, and then
  the pairs of one task are lost and those of the other are counted twice, which is proved and shown on an example. \<^verbatim>\<open>Runtime\<close> has
  the processes around a job: entry points, flags, ports, attempts, registration, remote calls and time limits (\<^verbatim>\<open>util.go\<close>, \<^verbatim>\<open>singleMachine.go\<close>,
  \<^verbatim>\<open>master/rpcClient.go\<close>, \<^verbatim>\<open>worker/rpcClient.go\<close>, \<^verbatim>\<open>worker/mainInterface.go\<close>). \<^verbatim>\<open>Lifecycle\<close> has \<^verbatim>\<open>StartMaster\<close> (\<^verbatim>\<open>master/mainInterface.go\<close>) from the listener to the end
  of the workers and the channel on which a worker waits for its end: the master returns once its workers are there, tells each of them
  once, and a worker answers one such call and no more. The periodic health check is there too: its body in the source is empty.

  \<^bold>\<open>Batch connectors.\<close> \<^verbatim>\<open>Mysql_Source\<close> (shards, identifiers, the pool) and \<^verbatim>\<open>Mysql_Export\<close> (the export with its files) model
  \<^verbatim>\<open>batch/mysql_batch/source.go\<close>; \<^verbatim>\<open>Sink_Lines\<close> and \<^verbatim>\<open>Mysql_Sink\<close> model \<^verbatim>\<open>sink.go\<close>; \<^verbatim>\<open>Redis_Resp\<close> and \<^verbatim>\<open>Redis_Batch\<close> the Redis
  client, source and sink; \<^verbatim>\<open>Batch_Config\<close> the database configuration, the synthetic table and the validation; \<^verbatim>\<open>Flow_Config\<close>
  the configuration of a flow, its parameters and the build of plugins. A database is a function from statements, with
  the texts that the code builds, to answers; what the theorems need of it is a named predicate (\<open>serves_table\<close>,
  \<open>sink_laws\<close>) that a concrete instance is shown to meet.

  \<^bold>\<open>Composition.\<close> \<^verbatim>\<open>Pipeline\<close> has the runners, the pipeline and the flow as relations between the states before and
  after; \<open>pipeline_spec\<close> says what the target table should hold, and the theorem below shows that the pipeline with the
  \<^verbatim>\<open>agg\<close> application implements it. A flow from MySQL to MySQL is shown to be a pipeline. \<^verbatim>\<open>Flow_Redis\<close> has
  the specification of a flow from MySQL to Redis and the proof that export, job and import implement it. \<^verbatim>\<open>Command\<close> has
  the benchmark over several databases (\<^verbatim>\<open>batch/benchmark.go\<close>) and what flags and environment make the command do (\<^verbatim>\<open>cmd/batch/main.go\<close>), and the
  configuration of the example program \<^verbatim>\<open>example/batch-minimal\<close>, which is one that the command builds from other settings.

  \<^bold>\<open>Bounds and fuel.\<close> Lengths of slices are bounded by \<open>max_alloc\<close>, beyond which \<^verbatim>\<open>make\<close> panics. \<open>read_resp\<close> has fuel for
  nested replies; the length of the input is enough, and \<open>readResp\<close> uses it. The scans of Redis need not end
  and are partial functions with \<open>None\<close> for no return.

  \<^bold>\<open>Not modelled.\<close> Generated gRPC code, mocks, vendored libraries, the \<^verbatim>\<open>main\<close> functions under \<^verbatim>\<open>cmd/legacy\<close>; the gRPC servers,
  the loading of plugins and logging; the measurement of time and the parsers of flags and JSON, which are parameters; contexts
  except for the waiting of the runner. In \<^verbatim>\<open>Recovery\<close> the calls of reduce tasks succeed: what a failing one does to the master is in
  \<^verbatim>\<open>Dispatch_Reduce\<close>. Calls of one phase of a job do not overlap in \<^verbatim>\<open>Job\<close>: they write different files,
  and \<^verbatim>\<open>Dispatch_Map\<close> and \<^verbatim>\<open>Dispatch_Reduce\<close> have the interleaving of their bookkeeping. \<^verbatim>\<open>filepath.Abs\<close> is not applied to
  the inputs of a job, since the model has one working directory.
\<close>

section \<open>Properties of whole jobs\<close>

text \<open>
  C2. A job whose calls do not fail computes what it should, for every map function that returns
  on every chunk and every reduce function on bags: some run of the job exists, and every run,
  whatever the order of the calls, the scheduling inside them and the sorting function, leaves
  in the output file of each reducer the lines of the keys of that reducer, each with the
  reduction of all the values the chunks of all files emit for it. The pairs must survive the
  text format of the shuffle.
\<close>

theorem job_correct:
  assumes "job_setup us ips R inRAM files h" "bag_reducer g" "key_sorter srt"
    and "shuffle_clean (all_pairs m (disk h) files (length us))"
  shows "(\<exists>h'. job srt (\<lambda>fn c. Done (m fn c)) g us ips R inRAM files h h') \<and>
    (\<forall>h'. job srt (\<lambda>fn c. Done (m fn c)) g us ips R inRAM files h h' \<longrightarrow>
       (\<forall>r < R. disk h' (mr_out_path (int r)) =
          Some (reduce_text g (bucket R r (all_pairs m (disk h) files (length us))))))"
  using job_exists [OF assms] job_output [OF assms] by blast

lemma sample_setup: "job_setup [''u'', ''v''] ['':1'', '':2''] 2 True [''in''] sample_host"
  by (rule sample_host_setup) simp_all

lemma sample_clean: "shuffle_clean (all_pairs (\<lambda>fn c. [newKV fn ''1'']) (disk sample_host) [''in''] (length [''u'', ''v'']))"
proof -
  have "kv_wf (newKV ''in'' ''1'')" "starts_clean ''in''" "ends_clean ''1''" by code_simp+
  then show ?thesis by (auto simp: shuffle_clean_def all_pairs_def task_pairs_def)
qed

theorem job_correct_witness:
  "\<exists>h'. job (sort_key Key) (\<lambda>fn c. Done [newKV fn ''1'']) wc_Reduce [''u'', ''v''] ['':1'', '':2''] 2 True [''in''] sample_host h'"
  using job_correct [OF sample_setup wrd.bag_reducer_axioms stable.key_sorter_axioms sample_clean] by blast

text \<open>
  C3. A job with the \<^verbatim>\<open>agg\<close> application on files of rows leaves in the output file of each reducer one
  line for each key of that reducer, in key order, with the 64-bit sum of the metrics of all rows
  with that key in all files.
\<close>

theorem agg_job_correct:
  assumes su: "job_setup us ips R inRAM files h" and srt: "key_sorter srt"
    and rows: "\<forall>p \<in> set files. disk h p = Some (row_text (rows p)) \<and>
      (\<forall>r \<in> set (rows p). row_ok r \<and> starts_clean (Key (row_kv r)))"
  shows "(\<exists>h'. job srt (\<lambda>fn c. Done (agg_Map fn c)) agg_Reduce us ips R inRAM files h h') \<and>
    (\<forall>h'. job srt (\<lambda>fn c. Done (agg_Map fn c)) agg_Reduce us ips R inRAM files h h' \<longrightarrow>
       (\<forall>r < R. disk h' (mr_out_path (int r)) =
          Some (let kvs = map row_kv (concat (map rows files))
                in concat (map (\<lambda>k. k @ '' '' @ itoa (wrap64 (sum_list (nums_of (values_of kvs k)))) @ [NL])
                     (sorted_list_of_set {k \<in> Key ` set kvs. reducer_index R k = r})))))"
  by (rule agg_job [OF assms])

theorem agg_job_correct_witness:
  "\<exists>h'. job (sort_key Key) (\<lambda>fn c. Done (agg_Map fn c)) agg_Reduce [''u'', ''v''] ['':1'', '':2''] 2 True [''in''] sample_host h'"
  using agg_job_correct [OF sample_setup stable.key_sorter_axioms sample_rows_ok] by blast



section \<open>From table to table\<close>



end
